(* ===== verification/Prelude.thy ===== *)
theory Prelude
  imports Main "HOL-Library.Word" "HOL-Library.Multiset"
begin

text \<open>
  Shared vocabulary of the development: Go panics as values, sequencing of fallible
  steps, slices (\<^verbatim>\<open>s[i:j]\<close>, \<^verbatim>\<open>copy\<close>, \<^verbatim>\<open>make\<close>), and the lemma collections that carry the
  component proofs. A Go \<^verbatim>\<open>int\<close> that only counts or indexes memory is an \<^typ>\<open>int\<close>;
  values that are read bitwise are words.
\<close>

named_theorems go_simps \<open>evaluation of Go primitives whose preconditions hold\<close>
named_theorems go_dests \<open>inversion of successful Go primitives\<close>

section \<open>Panics and sequencing\<close>

type_synonym byte = "8 word"
type_synonym errno = nat

abbreviation (input) EINTR :: errno where "EINTR \<equiv> 4"
abbreviation (input) EAGAIN :: errno where "EAGAIN \<equiv> 11"

text \<open>The ways a call of this program does not return: a runtime error, a \<^verbatim>\<open>panic(err)\<close> on a
  failed system call, a \<^verbatim>\<open>panic(string)\<close>, a \<^verbatim>\<open>panic(int)\<close>, or a loop that never ends
  (\<open>Hang\<close>).\<close>

datatype go_panic =
    SliceBounds
  | IndexRange
  | NilDeref
  | DivideByZero
  | CloseOfClosed
  | PanicErr errno
  | PanicMsg string
  | PanicInt int
  | Hang

type_synonym 'a res = "go_panic + 'a"

fun rbind :: "'a res \<Rightarrow> ('a \<Rightarrow> 'b res) \<Rightarrow> 'b res" where
  "rbind (Inl e) f = Inl e"
| "rbind (Inr x) f = f x"

fun is_ok :: "'a res \<Rightarrow> bool" where
  "is_ok (Inl e) = False"
| "is_ok (Inr x) = True"

lemma rbind_eq_Inr [go_dests]: "rbind m f = Inr y \<longleftrightarrow> (\<exists>x. m = Inr x \<and> f x = Inr y)"
  by (cases m) auto

lemma rbind_eq_Inl: "rbind m f = Inl e \<longleftrightarrow> m = Inl e \<or> (\<exists>x. m = Inr x \<and> f x = Inl e)"
  by (cases m) auto

lemma rbind_assoc: "rbind (rbind m f) g = rbind m (\<lambda>x. rbind (f x) g)"
  by (cases m) auto

lemma rbind_Inr_right [simp]: "rbind m Inr = m"
  by (cases m) auto

lemma rbind_eqI: "m = m' \<Longrightarrow> (\<And>x. m = Inr x \<Longrightarrow> f x = f' x) \<Longrightarrow> rbind m f = rbind m' f'"
  by (cases m) auto

lemma is_ok_rbind: "is_ok (rbind m f) \<longleftrightarrow> is_ok m \<and> (\<forall>x. m = Inr x \<longrightarrow> is_ok (f x))"
  by (cases m) auto

lemma is_ok_iff: "is_ok m \<longleftrightarrow> (\<exists>x. m = Inr x)"
  by (cases m) auto

text \<open>What holds of the result when a call returns, with the rules that walk through a body.\<close>

definition on_ok :: "('a \<Rightarrow> bool) \<Rightarrow> 'a res \<Rightarrow> bool" where
  "on_ok Q m \<longleftrightarrow> (\<forall>x. m = Inr x \<longrightarrow> Q x)"

lemma on_okI: "(\<And>x. m = Inr x \<Longrightarrow> Q x) \<Longrightarrow> on_ok Q m"
  by (simp add: on_ok_def)

lemma on_okD: "on_ok Q m \<Longrightarrow> m = Inr x \<Longrightarrow> Q x"
  by (simp add: on_ok_def)

lemma on_ok_simps [simp]: "on_ok Q (Inl e)" "on_ok Q (Inr x) = Q x"
  by (simp_all add: on_ok_def)

lemma on_ok_bind: "(\<And>x. m = Inr x \<Longrightarrow> on_ok Q (f x)) \<Longrightarrow> on_ok Q (rbind m f)"
  by (cases m) auto

lemma on_ok_if: "(b \<Longrightarrow> on_ok Q m) \<Longrightarrow> (\<not> b \<Longrightarrow> on_ok Q n) \<Longrightarrow> on_ok Q (if b then m else n)"
  by simp

text \<open>A computation whose loop need not end, as an outcome.\<close>

definition or_hang :: "'a res option \<Rightarrow> 'a res" where
  "or_hang m = (case m of None \<Rightarrow> Inl Hang | Some r \<Rightarrow> r)"

lemma or_hang_Some [simp]: "or_hang (Some r) = r"
  by (simp add: or_hang_def)

text \<open>A \<^verbatim>\<open>for\<close> loop over a slice whose body may panic: the first panic ends it.\<close>

fun rfold :: "('a \<Rightarrow> 's \<Rightarrow> 's res) \<Rightarrow> 'a list \<Rightarrow> 's \<Rightarrow> 's res" where
  "rfold f [] s = Inr s"
| "rfold f (x # xs) s = rbind (f x s) (rfold f xs)"

lemma rfold_append: "rfold f (xs @ ys) s = rbind (rfold f xs s) (rfold f ys)"
proof (induction xs arbitrary: s)
  case (Cons x xs)
  then show ?case by (cases "f x s") auto
qed simp

lemma rfold_invariant:
  assumes "rfold f xs s = Inr s'" and "P s"
    and "\<And>x s s'. x \<in> set xs \<Longrightarrow> P s \<Longrightarrow> f x s = Inr s' \<Longrightarrow> P s'"
  shows "P s'"
  using assms
proof (induction xs arbitrary: s)
  case Nil
  then show ?case by simp
next
  case (Cons x xs)
  from Cons.prems(1) obtain s1 where s1: "f x s = Inr s1" and r: "rfold f xs s1 = Inr s'"
    by (auto simp: rbind_eq_Inr)
  have "P s1" using Cons.prems(2,3) s1 by auto
  with r Cons.prems(3) show ?case by (intro Cons.IH [OF r]) auto
qed

lemma rfold_eqI:
  assumes "P s" "\<And>x s. P s \<Longrightarrow> f x s = g x s" "\<And>x s s'. P s \<Longrightarrow> f x s = Inr s' \<Longrightarrow> P s'"
  shows "rfold f xs s = rfold g xs s"
  using assms(1)
proof (induction xs arbitrary: s)
  case (Cons x xs)
  then show ?case using assms(2,3) by (auto intro: rbind_eqI)
qed simp

text \<open>A loop that collects one result per element.\<close>

primrec rmap :: "('a \<Rightarrow> 'b res) \<Rightarrow> 'a list \<Rightarrow> 'b list res" where
  "rmap f [] = Inr []"
| "rmap f (x # xs) = rbind (f x) (\<lambda>y. rbind (rmap f xs) (\<lambda>ys. Inr (y # ys)))"

lemma rmap_map: "(\<And>x. x \<in> set xs \<Longrightarrow> f x = Inr (g x)) \<Longrightarrow> rmap f xs = Inr (map g xs)"
  by (induction xs) auto

lemma is_ok_rmap: "is_ok (rmap f xs) \<longleftrightarrow> (\<forall>x \<in> set xs. is_ok (f x))"
proof (induction xs)
  case (Cons x xs)
  then show ?case by (cases "f x"; cases "rmap f xs") auto
qed simp

lemma rmap_Inl: "rmap f xs = Inl e \<Longrightarrow> \<exists>x \<in> set xs. f x = Inl e"
  by (induction xs) (auto simp: rbind_eq_Inl)

section \<open>Slices\<close>

text \<open>
  \<^verbatim>\<open>s[i:j]\<close> panics unless \<open>0 \<le> i \<le> j \<le> cap s\<close>; every slice the model cuts was made with
  \<open>len = cap\<close>.
\<close>

definition go_slice :: "'a list \<Rightarrow> int \<Rightarrow> int \<Rightarrow> 'a list res" where
  "go_slice xs i j =
     (if 0 \<le> i \<and> i \<le> j \<and> j \<le> int (length xs)
      then Inr (take (nat (j - i)) (drop (nat i) xs)) else Inl SliceBounds)"

text \<open>\<^verbatim>\<open>make([]T, n)\<close> with the zero value \<open>z\<close> of the element type.\<close>

definition go_make :: "'a \<Rightarrow> int \<Rightarrow> 'a list res" where
  "go_make z n = (if 0 \<le> n then Inr (replicate (nat n) z) else Inl SliceBounds)"

text \<open>\<^verbatim>\<open>copy(dst[off:], src)\<close> copies \<open>min (len dst - off) (len src)\<close> elements; overlapping
  source and destination behave as if the source were read first.\<close>

definition overlay :: "nat \<Rightarrow> 'a list \<Rightarrow> 'a list \<Rightarrow> 'a list" where
  "overlay off src dst = take off dst @ take (length dst - off) src @ drop (off + length src) dst"

definition go_copy_at :: "'a list \<Rightarrow> int \<Rightarrow> 'a list \<Rightarrow> 'a list res" where
  "go_copy_at dst off src =
     (if 0 \<le> off \<and> off \<le> int (length dst)
      then Inr (overlay (nat off) src dst) else Inl SliceBounds)"

lemma length_overlay [simp]: "off \<le> length dst \<Longrightarrow> length (overlay off src dst) = length dst"
  by (auto simp: overlay_def)

lemma take_overlay:
  "off \<le> length dst \<Longrightarrow> take (off + n) (overlay off src dst) =
     take off dst @ take (min n (length dst - off)) src @
     take (n - length src) (drop (off + length src) dst)"
  by (auto simp: overlay_def min_def)

lemma take_overlay_exact:
  "off + length src \<le> length dst \<Longrightarrow>
     take (off + length src) (overlay off src dst) = take off dst @ src"
  by (simp add: overlay_def)

lemma go_slice_ok [go_simps]:
  "0 \<le> i \<Longrightarrow> i \<le> j \<Longrightarrow> j \<le> int (length xs) \<Longrightarrow>
     go_slice xs i j = Inr (take (nat (j - i)) (drop (nat i) xs))"
  by (simp add: go_slice_def)

lemma go_copy_at_ok [go_simps]:
  "0 \<le> off \<Longrightarrow> off \<le> int (length dst) \<Longrightarrow>
     go_copy_at dst off src = Inr (overlay (nat off) src dst)"
  by (simp add: go_copy_at_def)

lemma go_make_ok [go_simps]: "0 \<le> n \<Longrightarrow> go_make z n = Inr (replicate (nat n) z)"
  by (simp add: go_make_def)

text \<open>Counting in an array after one store.\<close>

lemma length_filter_update:
  "i < length xs \<Longrightarrow> length (filter P (xs[i := v])) + (if P (xs ! i) then 1 else 0)
     = length (filter P xs) + (if P v then 1 else 0)"
proof (induction xs arbitrary: i)
  case (Cons x xs)
  then show ?case by (cases i) auto
qed simp

end
