(* ===== verification/Buffer.thy ===== *)
theory Buffer
  imports Prelude
begin

text \<open>
  The byte buffer of \<^verbatim>\<open>pkg/buffer/buffer.go\<close>: a backing array with a read and a write
  index. Indices are \<^typ>\<open>int\<close> because \<^verbatim>\<open>Retrieve\<close> accepts any \<^verbatim>\<open>int\<close>, negative ones included.
  Every slice expression carries the bounds check Go performs. The outcome of the
  \<^verbatim>\<open>readv\<close> system call is an argument of \<open>ReadFD\<close>.
\<close>

section \<open>State and operations\<close>

record buffer =
  data :: "byte list"
  readIndex :: int
  writeIndex :: int

definition NewBuffer :: buffer where
  "NewBuffer = \<lparr>data = replicate 8192 0, readIndex = 0, writeIndex = 0\<rparr>"

definition ReadableBytes :: "buffer \<Rightarrow> int" where
  "ReadableBytes buf = writeIndex buf - readIndex buf"

definition Peek :: "buffer \<Rightarrow> byte list res" where
  "Peek buf = go_slice (data buf) (readIndex buf) (writeIndex buf)"

definition Retrieve :: "int \<Rightarrow> buffer \<Rightarrow> buffer res" where
  "Retrieve i buf =
     (if ReadableBytes buf < i then Inl (PanicMsg ''retrieve too many bytes'')
      else Inr (buf\<lparr>readIndex := readIndex buf + i\<rparr>))"

definition RetrieveAll :: "buffer \<Rightarrow> buffer" where
  "RetrieveAll buf = buf\<lparr>readIndex := 0, writeIndex := 0\<rparr>"

definition RetrieveAsString :: "buffer \<Rightarrow> (byte list \<times> buffer) res" where
  "RetrieveAsString buf =
     rbind (go_slice (data buf) (readIndex buf) (writeIndex buf))
       (\<lambda>s. Inr (s, buf\<lparr>readIndex := 0, writeIndex := 0\<rparr>))"

text \<open>The three branches of \<^verbatim>\<open>Append\<close>: write at the tail, move the readable bytes to the
  front, or allocate a larger array. The third branch writes the new bytes at the
  old \<^verbatim>\<open>writeIndex\<close> of the new array, as the source does.\<close>

definition Append :: "byte list \<Rightarrow> buffer \<Rightarrow> buffer res" where
  "Append bs buf =
     (let n = int (length (data buf)); k = int (length bs);
          r = readIndex buf; w = writeIndex buf; sz = w - r + k
      in if n - w \<ge> k then
           rbind (go_copy_at (data buf) w bs)
             (\<lambda>d. Inr (buf\<lparr>data := d, writeIndex := w + k\<rparr>))
         else if n \<ge> w - r + k then
           rbind (go_slice (data buf) r (r + w - r)) (\<lambda>s.
           rbind (go_copy_at (data buf) 0 s) (\<lambda>d.
           rbind (go_copy_at d (w - r) bs) (\<lambda>d'.
             Inr (buf\<lparr>data := d', readIndex := 0, writeIndex := sz\<rparr>))))
         else
           rbind (go_make 0 (w - r + k + 8192)) (\<lambda>newBytes.
           rbind (go_slice (data buf) r w) (\<lambda>s.
           rbind (go_copy_at newBytes 0 s) (\<lambda>nb.
           rbind (go_copy_at nb w bs) (\<lambda>nb'.
             Inr (buf\<lparr>data := nb', readIndex := 0, writeIndex := sz\<rparr>))))))"

text \<open>
  \<^verbatim>\<open>ReadFD\<close>: \<open>rv\<close> is what \<^verbatim>\<open>readv\<close> answers, \<^const>\<open>None\<close> for an error (Go sees -1 and
  continues with 0) and \<open>Some bs\<close> for the bytes it scattered over the free tail of the
  array and then \<open>extrabuf\<close>. A full array returns 0 before the system call. The result is
  the count, the buffer and the loop's scratch area.
\<close>

definition ReadFD :: "byte list option \<Rightarrow> byte list \<Rightarrow> buffer
    \<Rightarrow> (int \<times> buffer \<times> byte list) res" where
  "ReadFD rv extrabuf buf =
     (let w = writeIndex buf; writable = int (length (data buf)) - w
      in if writable = 0 then Inr (0, buf, extrabuf)
         else if \<not> (0 \<le> w \<and> w < int (length (data buf))) then Inl IndexRange
         else if extrabuf = [] then Inl IndexRange
         else (case rv of
             None \<Rightarrow> Inr (0, buf, extrabuf)
           | Some bs \<Rightarrow>
               let size = int (length bs);
                   buf1 = buf\<lparr>data := overlay (nat w) (take (nat writable) bs) (data buf)\<rparr>;
                   extra1 = overlay 0 (drop (nat writable) bs) extrabuf
               in if size = 0 then Inr (0, buf1, extra1)
                  else if size \<le> writable
                    then Inr (size, buf1\<lparr>writeIndex := w + size\<rparr>, extra1)
                  else rbind (go_slice extra1 0 (size - writable)) (\<lambda>more.
                       rbind (Append more (buf1\<lparr>writeIndex := int (length (data buf))\<rparr>))
                         (\<lambda>buf2. Inr (size, buf2, extra1)))))"

section \<open>Invariant and contents\<close>

definition buf_inv :: "buffer \<Rightarrow> bool" where
  "buf_inv buf \<longleftrightarrow> 0 \<le> readIndex buf \<and> readIndex buf \<le> writeIndex buf
     \<and> writeIndex buf \<le> int (length (data buf))"

definition content :: "buffer \<Rightarrow> byte list" where
  "content buf = take (nat (writeIndex buf - readIndex buf)) (drop (nat (readIndex buf)) (data buf))"

text \<open>The appends for which the allocation branch is either not taken or starts from
  \<^verbatim>\<open>readIndex = 0\<close>.\<close>

definition fits :: "byte list \<Rightarrow> buffer \<Rightarrow> bool" where
  "fits bs buf \<longleftrightarrow> readIndex buf = 0 \<or> ReadableBytes buf + int (length bs) \<le> int (length (data buf))"

section \<open>The interface a client of the buffer relies on\<close>

text \<open>A byte queue: \<open>append\<close> adds at the end, \<open>retrieve\<close> drops from the front.\<close>

datatype 'b qop = Put "'b list" | Get int

fun run_queue :: "('q \<Rightarrow> 'b list) \<Rightarrow> ('b list \<Rightarrow> 'q \<Rightarrow> 'q res) \<Rightarrow> (int \<Rightarrow> 'q \<Rightarrow> 'q res)
    \<Rightarrow> 'b qop list \<Rightarrow> 'q \<Rightarrow> ('b list \<times> 'q) res" where
  "run_queue c app ret [] q = Inr ([], q)"
| "run_queue c app ret (Put bs # ops) q = rbind (app bs q) (run_queue c app ret ops)"
| "run_queue c app ret (Get n # ops) q =
     rbind (ret n q) (\<lambda>q'. rbind (run_queue c app ret ops q')
       (\<lambda>(out, q''). Inr (take (nat n) (c q) @ out, q'')))"

fun legal_ops :: "('q \<Rightarrow> 'b list) \<Rightarrow> ('b list \<Rightarrow> 'q \<Rightarrow> bool) \<Rightarrow> ('b list \<Rightarrow> 'q \<Rightarrow> 'q res)
    \<Rightarrow> (int \<Rightarrow> 'q \<Rightarrow> 'q res) \<Rightarrow> 'b qop list \<Rightarrow> 'q \<Rightarrow> bool" where
  "legal_ops c room app ret [] q = True"
| "legal_ops c room app ret (Put bs # ops) q =
     (room bs q \<and> (\<forall>q'. app bs q = Inr q' \<longrightarrow> legal_ops c room app ret ops q'))"
| "legal_ops c room app ret (Get n # ops) q =
     (0 \<le> n \<and> n \<le> int (length (c q)) \<and>
      (\<forall>q'. ret n q = Inr q' \<longrightarrow> legal_ops c room app ret ops q'))"

fun puts :: "'b qop list \<Rightarrow> 'b list" where
  "puts [] = []"
| "puts (Put bs # ops) = bs @ puts ops"
| "puts (Get n # ops) = puts ops"

locale byte_queue =
  fixes cont :: "'q \<Rightarrow> 'b list"
    and inv :: "'q \<Rightarrow> bool"
    and room :: "'b list \<Rightarrow> 'q \<Rightarrow> bool"
    and app :: "'b list \<Rightarrow> 'q \<Rightarrow> 'q res"
    and ret :: "int \<Rightarrow> 'q \<Rightarrow> 'q res"
  assumes app_ok: "inv q \<Longrightarrow> room bs q \<Longrightarrow>
      \<exists>q'. app bs q = Inr q' \<and> inv q' \<and> cont q' = cont q @ bs"
    and ret_ok: "inv q \<Longrightarrow> 0 \<le> n \<Longrightarrow> n \<le> int (length (cont q)) \<Longrightarrow>
      \<exists>q'. ret n q = Inr q' \<and> inv q' \<and> cont q' = drop (nat n) (cont q)"
begin

lemma run_fifo:
  "inv q \<Longrightarrow> legal_ops cont room app ret ops q \<Longrightarrow>
     \<exists>out q'. run_queue cont app ret ops q = Inr (out, q') \<and> inv q'
        \<and> out @ cont q' = cont q @ puts ops"
proof (induction ops arbitrary: q rule: puts.induct)
  case 1
  then show ?case by simp
next
  case (2 bs ops)
  then obtain q1 where q1: "app bs q = Inr q1" "inv q1" "cont q1 = cont q @ bs"
    using app_ok [of q bs] by auto
  with 2 show ?case by fastforce
next
  case (3 n ops)
  then obtain q1 where q1: "ret n q = Inr q1" "inv q1" "cont q1 = drop (nat n) (cont q)"
    using ret_ok by force
  with 3 obtain out q' where o: "run_queue cont app ret ops q1 = Inr (out, q')" "inv q'"
      "out @ cont q' = cont q1 @ puts ops"
    by force
  from o(3) q1(3) have "take (nat n) (cont q) @ out @ cont q' = cont q @ puts ops"
    by (simp flip: append_assoc)
  with q1 o show ?case by simp
qed

end

section \<open>Behaviour of the operations\<close>

lemma content_length: "buf_inv buf \<Longrightarrow> int (length (content buf)) = ReadableBytes buf"
  by (auto simp: buf_inv_def content_def ReadableBytes_def)

lemma Peek_content: "buf_inv buf \<Longrightarrow> Peek buf = Inr (content buf)"
  by (simp add: Peek_def buf_inv_def content_def go_slice_ok)

lemma Retrieve_ok:
  assumes "buf_inv buf" "0 \<le> n" "n \<le> int (length (content buf))"
  shows "\<exists>buf'. Retrieve n buf = Inr buf' \<and> buf_inv buf' \<and> content buf' = drop (nat n) (content buf)"
proof -
  have n: "n \<le> ReadableBytes buf" using assms content_length by simp
  have "nat (readIndex buf + n) = nat (readIndex buf) + nat n"
    "nat (writeIndex buf - (readIndex buf + n)) = nat (writeIndex buf - readIndex buf) - nat n"
    using assms by (auto simp: buf_inv_def nat_add_distrib)
  then have "content (buf\<lparr>readIndex := readIndex buf + n\<rparr>) = drop (nat n) (content buf)"
    by (simp add: content_def drop_take add.commute)
  with n assms show ?thesis
    by (auto simp: Retrieve_def buf_inv_def ReadableBytes_def)
qed

lemma NewBuffer_inv: "buf_inv NewBuffer" and NewBuffer_content: "content NewBuffer = []"
  by (auto simp: NewBuffer_def buf_inv_def content_def)

lemma content_front:
  "content (buf\<lparr>data := d, readIndex := 0, writeIndex := n\<rparr>) = take (nat n) d"
  by (simp add: content_def)

lemma Append_tail:
  assumes "buf_inv buf" "int (length bs) \<le> int (length (data buf)) - writeIndex buf"
  shows "\<exists>buf'. Append bs buf = Inr buf' \<and> buf_inv buf' \<and> content buf' = content buf @ bs
    \<and> readIndex buf' = readIndex buf"
proof -
  define r w where "r = nat (readIndex buf)" and "w = nat (writeIndex buf)"
  let ?d = "overlay w bs (data buf)"
  have b: "r \<le> w" "w + length bs \<le> length (data buf)"
      "readIndex buf = int r" "writeIndex buf = int w"
    using assms by (auto simp: buf_inv_def r_def w_def)
  have "take (w - r + length bs) (drop r ?d) = drop r (take (w + length bs) ?d)"
    using b by (simp add: drop_take)
  also have "\<dots> = drop r (take w (data buf) @ bs)"
    using b by (simp add: take_overlay_exact)
  also have "\<dots> = take (w - r) (drop r (data buf)) @ bs"
    using b by (simp add: drop_take)
  finally have "take (w - r + length bs) (drop r ?d) = take (w - r) (drop r (data buf)) @ bs" .
  moreover have "nat (int w + int (length bs) - int r) = w - r + length bs" "nat (int w - int r) = w - r"
    using b by auto
  ultimately show ?thesis using b
    by (simp add: Append_def Let_def go_copy_at_ok buf_inv_def content_def)
qed

lemma Append_compact:
  assumes "buf_inv buf" "int (length (data buf)) - writeIndex buf < int (length bs)"
    "ReadableBytes buf + int (length bs) \<le> int (length (data buf))"
  shows "\<exists>buf'. Append bs buf = Inr buf' \<and> buf_inv buf' \<and> content buf' = content buf @ bs
    \<and> readIndex buf' = 0"
proof -
  define m where "m = length (content buf)"
  let ?d = "overlay 0 (content buf) (data buf)"
  have m: "writeIndex buf - readIndex buf = int m" "m + length bs \<le> length (data buf)"
    using assms content_length [OF assms(1)] by (auto simp: m_def ReadableBytes_def)
  have s: "go_slice (data buf) (readIndex buf) (writeIndex buf) = Inr (content buf)"
    using Peek_content [OF assms(1)] by (simp add: Peek_def)
  have "take m ?d = content buf"
    using m take_overlay_exact [of 0 "content buf" "data buf"] by (simp add: m_def)
  moreover have "take (m + length bs) (overlay m bs ?d) = take m ?d @ bs"
    using m by (intro take_overlay_exact) simp
  ultimately have "take (m + length bs) (overlay m bs ?d) = content buf @ bs" by simp
  with assms m s show ?thesis
    by (simp add: Append_def Let_def go_copy_at_ok buf_inv_def content_def ReadableBytes_def
        nat_add_distrib)
qed

text \<open>The allocation branch, exactly: the new bytes land \<^verbatim>\<open>readIndex\<close> positions too far, and
  when that is beyond the new array the slice expression panics.\<close>

lemma Append_grow:
  assumes "buf_inv buf" "int (length (data buf)) < ReadableBytes buf + int (length bs)"
  shows "readIndex buf \<le> int (length bs) + 8192 \<Longrightarrow>
      \<exists>buf'. Append bs buf = Inr buf' \<and> buf_inv buf' \<and> readIndex buf' = 0 \<and>
        content buf' = content buf @ take (length bs) (replicate (nat (readIndex buf)) 0 @ bs)"
    and "int (length bs) + 8192 < readIndex buf \<Longrightarrow> Append bs buf = Inl SliceBounds"
proof -
  define m k r where "m = length (content buf)" and "k = length bs" and "r = nat (readIndex buf)"
  let ?nb = "replicate (m + k + 8192) (0::byte)"
  let ?nb1 = "overlay 0 (content buf) ?nb"
  have m: "writeIndex buf - readIndex buf = int m" "readIndex buf = int r"
      "writeIndex buf = int (r + m)"
    using assms content_length [OF assms(1)]
    by (auto simp: m_def r_def ReadableBytes_def buf_inv_def)
  have s: "go_slice (data buf) (int r) (int (r + m)) = Inr (content buf)"
    using Peek_content [OF assms(1)] m by (simp add: Peek_def)
  have br: "\<not> int (length (data buf)) - int (r + m) \<ge> int k" "\<not> int (length (data buf)) \<ge> int m + int k"
    using assms m by (auto simp: k_def ReadableBytes_def buf_inv_def)
  have mk: "go_make (0::byte) (int m + int k + 8192) = Inr ?nb"
    by (simp add: go_make_def nat_add_distrib)
  have nb1: "?nb1 = content buf @ replicate (k + 8192) 0"
    by (simp add: overlay_def m_def add.assoc)
  have run: "Append bs buf = rbind (go_copy_at ?nb1 (int (r + m)) bs)
      (\<lambda>nb'. Inr (buf\<lparr>data := nb', readIndex := 0, writeIndex := int m + int k\<rparr>))"
    using br m s mk by (simp add: Append_def Let_def k_def go_copy_at_ok)
  { assume "readIndex buf \<le> int (length bs) + 8192"
    then have le: "r \<le> k + 8192" using m by (simp add: k_def)
    have "overlay (r + m) bs ?nb1 =
        content buf @ replicate r 0 @ take (k + 8192 - r) bs @ drop (r + m + k) ?nb1"
      using le by (simp add: overlay_def nb1 m_def k_def)
    then have "take (m + k) (overlay (r + m) bs ?nb1) = content buf @ take k (replicate r 0 @ bs)"
      using le by (auto simp: m_def k_def min_def)
    moreover have "go_copy_at ?nb1 (int (r + m)) bs = Inr (overlay (r + m) bs ?nb1)"
        "length (overlay (r + m) bs ?nb1) = m + k + 8192"
      using le nb1 by (simp_all add: go_copy_at_ok m_def nat_add_distrib)
    ultimately show "\<exists>buf'. Append bs buf = Inr buf' \<and> buf_inv buf' \<and> readIndex buf' = 0 \<and>
        content buf' = content buf @ take (length bs) (replicate (nat (readIndex buf)) 0 @ bs)"
      by (simp add: run buf_inv_def content_front nat_add_distrib k_def m(2)) }
  { assume "int (length bs) + 8192 < readIndex buf"
    then show "Append bs buf = Inl SliceBounds"
      using m by (simp add: run go_copy_at_def nb1 k_def m_def) }
qed

lemma Append_ok:
  assumes "buf_inv buf" "fits bs buf"
  shows "\<exists>buf'. Append bs buf = Inr buf' \<and> buf_inv buf' \<and> content buf' = content buf @ bs"
proof -
  consider "int (length bs) \<le> int (length (data buf)) - writeIndex buf"
    | "int (length (data buf)) - writeIndex buf < int (length bs)"
      "ReadableBytes buf + int (length bs) \<le> int (length (data buf))"
    | "int (length (data buf)) < ReadableBytes buf + int (length bs)" "readIndex buf = 0"
    using assms by (force simp: fits_def)
  then show ?thesis
  proof cases
    case 1
    from Append_tail [OF assms(1) 1] show ?thesis by blast
  next
    case 2
    from Append_compact [OF assms(1) 2] show ?thesis by blast
  next
    case 3
    from Append_grow(1) [OF assms(1) 3(1)] 3(2) show ?thesis by auto
  qed
qed

interpretation bq: byte_queue content buf_inv fits Append Retrieve
  by unfold_locales (use Append_ok Retrieve_ok in auto)

section \<open>Reading from a descriptor\<close>

text \<open>Filling the free tail of the array extends the contents by what was filled in.\<close>

lemma fill_tail:
  assumes "buf_inv buf" "int (length bs) \<le> int (length (data buf)) - writeIndex buf"
  defines "buf' \<equiv> buf\<lparr>data := overlay (nat (writeIndex buf)) bs (data buf),
      writeIndex := writeIndex buf + int (length bs)\<rparr>"
  shows "buf_inv buf'" "content buf' = content buf @ bs"
proof -
  have "0 \<le> writeIndex buf" "writeIndex buf \<le> int (length (data buf))"
    using assms(1) by (auto simp: buf_inv_def)
  then have "Append bs buf = Inr buf'"
    using assms(2) by (simp add: Append_def Let_def go_copy_at_ok buf'_def)
  then show "buf_inv buf'" "content buf' = content buf @ bs"
    using Append_tail [OF assms(1,2)] by auto
qed

lemma ReadFD_short:
  assumes "buf_inv buf" "bs \<noteq> []" "extrabuf \<noteq> []"
    "int (length bs) \<le> int (length (data buf)) - writeIndex buf"
  shows "\<exists>buf'. ReadFD (Some bs) extrabuf buf = Inr (int (length bs), buf', extrabuf)
    \<and> buf_inv buf' \<and> content buf' = content buf @ bs"
proof -
  have "0 < int (length bs)" using assms(2) by simp
  then have "0 \<le> writeIndex buf" "writeIndex buf < int (length (data buf))"
    using assms(1,4) unfolding buf_inv_def by linarith+
  then show ?thesis
    using assms fill_tail [OF assms(1,4)]
    by (simp add: ReadFD_def Let_def overlay_def take_all)
qed

text \<open>More bytes than the free tail holds: the tail is filled and \<^verbatim>\<open>Append\<close> takes the rest.\<close>

lemma ReadFD_spill:
  assumes "buf_inv buf" "writeIndex buf < int (length (data buf))" "extrabuf \<noteq> []"
    "int (length (data buf)) - writeIndex buf < int (length bs)"
    "int (length bs) \<le> int (length (data buf)) - writeIndex buf + int (length extrabuf)"
  defines "m \<equiv> nat (int (length (data buf)) - writeIndex buf)"
  obtains buf1 where "ReadFD (Some bs) extrabuf buf =
      rbind (Append (drop m bs) buf1) (\<lambda>b. Inr (int (length bs), b, overlay 0 (drop m bs) extrabuf))"
    "buf_inv buf1" "content buf1 = content buf @ take m bs" "length (data buf1) = length (data buf)"
    "readIndex buf1 = readIndex buf" "writeIndex buf1 = int (length (data buf))"
proof -
  have w: "0 \<le> writeIndex buf" using assms(1) by (simp add: buf_inv_def)
  have m: "0 < m" "m < length bs" "length bs - m \<le> length extrabuf"
      "int (length (data buf)) - writeIndex buf = int m"
    using assms by (auto simp: m_def)
  define buf1 where "buf1 = buf\<lparr>data := overlay (nat (writeIndex buf)) (take m bs) (data buf),
      writeIndex := int (length (data buf))\<rparr>"
  have len: "writeIndex buf + int (length (take m bs)) = int (length (data buf))"
    using m by simp
  have le: "int (length (take m bs)) \<le> int (length (data buf)) - writeIndex buf"
    using m by simp
  have b1: "buf_inv buf1" "content buf1 = content buf @ take m bs"
    using fill_tail [OF assms(1) le] unfolding len by (simp_all add: buf1_def)
  let ?e = "overlay 0 (drop m bs) extrabuf"
  have e: "go_slice ?e 0 (int (length bs) - int m) = Inr (drop m bs)"
    using m by (auto simp: go_slice_ok overlay_def)
  have "ReadFD (Some bs) extrabuf buf = rbind (Append (drop m bs) buf1) (\<lambda>b. Inr (int (length bs), b, ?e))"
    using assms(2,3,4) w m e unfolding buf1_def
    by (simp add: ReadFD_def Let_def) auto
  moreover have "length (data buf1) = length (data buf)" using w m by (simp add: buf1_def overlay_def)
  ultimately show thesis using b1 by (intro that [of buf1]) (simp_all add: buf1_def)
qed

lemma ReadFD_long:
  assumes "buf_inv buf" "writeIndex buf < int (length (data buf))" "extrabuf \<noteq> []"
    "int (length (data buf)) - writeIndex buf < int (length bs)"
    "int (length bs) \<le> int (length (data buf)) - writeIndex buf + int (length extrabuf)"
    "fits bs buf"
  shows "\<exists>buf' extra'. ReadFD (Some bs) extrabuf buf = Inr (int (length bs), buf', extra')
    \<and> buf_inv buf' \<and> content buf' = content buf @ bs \<and> length extra' = length extrabuf"
proof -
  define m where "m = nat (int (length (data buf)) - writeIndex buf)"
  obtain buf1 where r: "ReadFD (Some bs) extrabuf buf =
      rbind (Append (drop m bs) buf1) (\<lambda>b. Inr (int (length bs), b, overlay 0 (drop m bs) extrabuf))"
    and b1: "buf_inv buf1" "content buf1 = content buf @ take m bs" "length (data buf1) = length (data buf)"
    "readIndex buf1 = readIndex buf" "writeIndex buf1 = int (length (data buf))"
    using ReadFD_spill [OF assms(1-5)] unfolding m_def by metis
  have "fits (drop m bs) buf1"
    using assms(2,4,6) b1(3-5) by (auto simp: fits_def ReadableBytes_def m_def)
  from Append_ok [OF b1(1) this] b1(2)
  obtain buf2 where b2: "Append (drop m bs) buf1 = Inr buf2" "buf_inv buf2" "content buf2 = content buf @ bs"
    by auto
  moreover have "length (overlay 0 (drop m bs) extrabuf) = length extrabuf" using assms(2,5) by (auto simp: overlay_def m_def)
  ultimately show ?thesis using r by simp
qed

text \<open>The input does not fit and bytes were retrieved before: what spilled is misplaced, or \<^verbatim>\<open>Append\<close> panics.\<close>

lemma ReadFD_overflow:
  assumes "buf_inv buf" "writeIndex buf < int (length (data buf))" "extrabuf \<noteq> []"
    "int (length bs) \<le> int (length (data buf)) - writeIndex buf + int (length extrabuf)"
    "\<not> fits bs buf"
  defines "m \<equiv> nat (int (length (data buf)) - writeIndex buf)"
  shows "if int (length (drop m bs)) + 8192 < readIndex buf then ReadFD (Some bs) extrabuf buf = Inl SliceBounds
    else \<exists>buf' extra'. ReadFD (Some bs) extrabuf buf = Inr (int (length bs), buf', extra') \<and> buf_inv buf'
      \<and> content buf' = content buf @ take m bs @ take (length (drop m bs)) (replicate (nat (readIndex buf)) 0 @ drop m bs)
      \<and> length extra' = length extrabuf"
proof -
  have i: "0 \<le> readIndex buf" "readIndex buf \<le> writeIndex buf" using assms(1) by (auto simp: buf_inv_def)
  have big: "int (length (data buf)) - writeIndex buf < int (length bs)"
    using assms(5) i by (auto simp: fits_def ReadableBytes_def)
  obtain buf1 where r: "ReadFD (Some bs) extrabuf buf =
      rbind (Append (drop m bs) buf1) (\<lambda>b. Inr (int (length bs), b, overlay 0 (drop m bs) extrabuf))"
    and b1: "buf_inv buf1" "content buf1 = content buf @ take m bs" "length (data buf1) = length (data buf)"
    "readIndex buf1 = readIndex buf" "writeIndex buf1 = int (length (data buf))"
    using ReadFD_spill [OF assms(1-3) big assms(4)] unfolding m_def by metis
  have g: "int (length (data buf1)) < ReadableBytes buf1 + int (length (drop m bs))"
    using assms(2,5) big b1(3-5) by (auto simp: fits_def ReadableBytes_def m_def)
  have e: "length (overlay 0 (drop m bs) extrabuf) = length extrabuf" using assms(2,4) by (auto simp: overlay_def m_def)
  show ?thesis
  proof (cases "int (length (drop m bs)) + 8192 < readIndex buf")
    case True
    then show ?thesis using Append_grow(2) [OF b1(1) g] r b1(4) by simp
  next
    case False
    then obtain buf' where "Append (drop m bs) buf1 = Inr buf'" "buf_inv buf'"
        "content buf' = content buf1 @ take (length (drop m bs)) (replicate (nat (readIndex buf1)) 0 @ drop m bs)"
      using Append_grow(1) [OF b1(1) g] b1(4) by (auto simp del: length_drop)
    then show ?thesis using False r b1(2,4) e by simp
  qed
qed

lemma ReadFD_ok:
  assumes "buf_inv buf" "writeIndex buf < int (length (data buf))" "extrabuf \<noteq> []" "bs \<noteq> []"
    "int (length bs) \<le> int (length (data buf)) - writeIndex buf + int (length extrabuf)"
    "fits bs buf"
  shows "\<exists>buf' extra'. ReadFD (Some bs) extrabuf buf = Inr (int (length bs), buf', extra')
    \<and> buf_inv buf' \<and> content buf' = content buf @ bs \<and> length extra' = length extrabuf"
proof (cases "int (length bs) \<le> int (length (data buf)) - writeIndex buf")
  case True
  with ReadFD_short [OF assms(1,4,3)] show ?thesis by blast
next
  case False
  with ReadFD_long [OF assms(1-3) _ assms(5,6)] show ?thesis by simp
qed

section \<open>Properties\<close>

text \<open>C9. The buffer is a FIFO byte queue: whatever sequence of \<^verbatim>\<open>Append\<close> and \<^verbatim>\<open>Retrieve\<close>
  calls a client makes, as long as each retrieval asks for at most the readable bytes
  and each append fits (see \<open>fits\<close>), no call panics, the indices stay ordered inside the
  array, and the bytes taken out followed by the bytes still readable are exactly the bytes
  that were readable at the start followed by the bytes appended.\<close>

theorem Buffer_fifo:
  assumes "buf_inv buf" "legal_ops content fits Append Retrieve ops buf"
  shows "\<exists>out buf'. run_queue content Append Retrieve ops buf = Inr (out, buf')
    \<and> buf_inv buf' \<and> out @ content buf' = content buf @ puts ops"
  using assms by (rule bq.run_fifo)

text \<open>Concrete run: two appends around a retrieval.\<close>

theorem Buffer_fifo_witness:
  "\<exists>out buf'. run_queue content Append Retrieve [Put [1, 2, 3], Get 2, Put [4]]
       \<lparr>data = [0, 0, 0, 0], readIndex = 0, writeIndex = 0\<rparr> = Inr (out, buf')
     \<and> buf_inv buf' \<and> out @ content buf' = [1, 2, 3, 4]"
proof -
  let ?b = "\<lparr>data = [0, 0, 0, 0], readIndex = 0, writeIndex = 0\<rparr>"
  have i: "buf_inv ?b" by (simp add: buf_inv_def)
  have l: "legal_ops content fits Append Retrieve [Put [1, 2, 3], Get 2, Put [4]] ?b"
    by (simp add: fits_def Append_def Let_def go_copy_at_def overlay_def content_def Retrieve_def
        ReadableBytes_def)
  show ?thesis using Buffer_fifo [OF i l] by (simp add: content_def)
qed

text \<open>C35. What \<^verbatim>\<open>Append\<close> does on every input that satisfies the index invariant, branch by
  branch: while the readable bytes and the new ones fit in the array the contents grow by
  exactly the new bytes; otherwise a larger array is allocated and the new bytes are preceded by
  \<^verbatim>\<open>readIndex\<close> zero bytes and cut off to their own length, and the call panics with a slice
  bounds error when \<^verbatim>\<open>readIndex\<close> exceeds the number of new bytes by more than 8192.\<close>

theorem Append_every_branch:
  assumes "buf_inv buf"
  shows "let grow = int (length (data buf)) < ReadableBytes buf + int (length bs);
      far = int (length bs) + 8192 < readIndex buf
    in case Append bs buf of
      Inl e \<Rightarrow> e = SliceBounds \<and> grow \<and> far
    | Inr buf' \<Rightarrow> \<not> (grow \<and> far) \<and> buf_inv buf' \<and> content buf' = content buf @
        (if grow then take (length bs) (replicate (nat (readIndex buf)) 0 @ bs) else bs)"
proof -
  define grow far where "grow \<longleftrightarrow> int (length (data buf)) < ReadableBytes buf + int (length bs)"
    and "far \<longleftrightarrow> int (length bs) + 8192 < readIndex buf"
  consider "\<not> grow" | "grow" "\<not> far" | "grow" "far" by blast
  then show ?thesis
  proof cases
    case 1
    then have "fits bs buf" by (simp add: fits_def grow_def)
    from Append_ok [OF assms(1) this] 1 show ?thesis by (auto simp: Let_def grow_def)
  next
    case 2
    then show ?thesis using Append_grow(1) [OF assms(1), of bs] by (auto simp: Let_def grow_def far_def)
  next
    case 3
    then show ?thesis using Append_grow(2) [OF assms(1)] by (simp add: Let_def grow_def far_def)
  qed
qed

text \<open>Concrete run: a full four-byte array of which one byte was retrieved, and two new
  bytes. The append corrupts the stream: a zero byte takes the place of the first new byte and
  the last new byte is lost.\<close>

theorem Append_every_branch_witness:
  "\<exists>buf'. Append [5, 6] \<lparr>data = [1, 2, 3, 4], readIndex = 1, writeIndex = 4\<rparr> = Inr buf'
     \<and> content buf' = [2, 3, 4, 0, 5]"
proof -
  let ?b = "\<lparr>data = [1, 2, 3, 4], readIndex = 1, writeIndex = 4\<rparr>"
  have i: "buf_inv ?b" by (simp add: buf_inv_def)
  have c: "content ?b = [2, 3, 4]" by (simp add: content_def numeral_eq_Suc)
  show ?thesis using Append_every_branch [OF i, of "[5, 6]"] c
    by (auto simp: ReadableBytes_def split: sum.splits)
qed

text \<open>\<^verbatim>\<open>ReadFD\<close> delivers exactly what the kernel handed over: on an array with free space
  and a non-empty scratch area, when \<^verbatim>\<open>readv\<close> reports a positive number of bytes, at most the
  space it was offered, and the whole input fits, the call returns that number, does not
  panic, and the contents grow by exactly those bytes, whether or not they spilled into the
  scratch area.\<close>

theorem ReadFD_delivers:
  assumes "buf_inv buf" "writeIndex buf < int (length (data buf))" "extrabuf \<noteq> []" "bs \<noteq> []"
    "int (length bs) \<le> int (length (data buf)) - writeIndex buf + int (length extrabuf)"
    "fits bs buf"
  shows "\<exists>buf' extra'. ReadFD (Some bs) extrabuf buf = Inr (int (length bs), buf', extra')
    \<and> buf_inv buf' \<and> content buf' = content buf @ bs \<and> length extra' = length extrabuf"
  by (rule ReadFD_ok [OF assms])

text \<open>Concrete run: five bytes into an array with two free places and the scratch area.\<close>

theorem ReadFD_delivers_witness:
  "\<exists>buf' extra'. ReadFD (Some [3, 4, 5, 6, 7]) [0, 0, 0, 0]
       \<lparr>data = [1, 2, 0, 0], readIndex = 0, writeIndex = 2\<rparr> = Inr (5, buf', extra')
     \<and> content buf' = [1, 2, 3, 4, 5, 6, 7]"
proof -
  let ?b = "\<lparr>data = [1, 2, 0, 0], readIndex = 0, writeIndex = 2\<rparr>"
  have i: "buf_inv ?b" by (simp add: buf_inv_def)
  have f: "fits [3, 4, 5, 6, 7] ?b" by (simp add: fits_def)
  have c: "content ?b = [1, 2]" by (simp add: content_def numeral_eq_Suc)
  show ?thesis using ReadFD_delivers [OF i _ _ _ _ f, of "[0, 0, 0, 0]"] c by auto
qed

end
