(* ===== verification/KV_Context.thy ===== *)
theory KV_Context
  imports Prelude
begin

text \<open>
  The key/value context of \<^verbatim>\<open>pkg/context/context.go\<close>, which every event loop and every
  connection carries. Each method holds the mutex from its first to its last access, so a call
  is one atomic step. An \<^verbatim>\<open>interface{}\<close> is an option, \<^const>\<open>None\<close> being \<^verbatim>\<open>nil\<close>; a Go map is an
  optional map, \<^const>\<open>None\<close> being the \<^verbatim>\<open>nil\<close> map that \<open>reset\<close> leaves behind.
\<close>

type_synonym 'v iface = "'v option"

record 'v keyValueContext =
  kv :: "(string \<rightharpoonup> 'v iface) option"

definition NewContext :: "'v keyValueContext" where
  "NewContext = \<lparr>kv = Some Map.empty\<rparr>"

definition ctx_Set :: "string \<Rightarrow> 'v iface \<Rightarrow> 'v keyValueContext \<Rightarrow> 'v keyValueContext" where
  "ctx_Set key value c =
     (let m = (case kv c of None \<Rightarrow> Map.empty | Some m \<Rightarrow> m)
      in c\<lparr>kv := Some (m(key \<mapsto> value))\<rparr>)"

definition ctx_Delete :: "string \<Rightarrow> 'v keyValueContext \<Rightarrow> 'v keyValueContext" where
  "ctx_Delete key c = c\<lparr>kv := map_option (\<lambda>m. m(key := None)) (kv c)\<rparr>"

definition ctx_Get :: "string \<Rightarrow> 'v keyValueContext \<Rightarrow> 'v iface \<times> bool" where
  "ctx_Get key c =
     (case kv c of None \<Rightarrow> (None, False)
      | Some m \<Rightarrow> (case m key of None \<Rightarrow> (None, False) | Some v \<Rightarrow> (v, True)))"

definition ctx_reset :: "'v keyValueContext \<Rightarrow> 'v keyValueContext" where
  "ctx_reset c = c\<lparr>kv := None\<rparr>"

text \<open>\<^verbatim>\<open>MustGetContext\<close> of the event loop and of the connection, over the context each owns.\<close>

definition MustGetContext :: "string \<Rightarrow> 'v keyValueContext \<Rightarrow> 'v iface res" where
  "MustGetContext key c =
     (case ctx_Get key c of (v, ok) \<Rightarrow>
        if \<not> ok then Inl (PanicMsg ''must get context not exists'') else Inr v)"

section \<open>The interface: a last-writer-wins store\<close>

datatype 'v kvop = KSet string "'v iface" | KDelete string | KReset

fun last_write :: "string \<Rightarrow> 'v kvop list \<Rightarrow> 'v iface \<times> bool \<Rightarrow> 'v iface \<times> bool" where
  "last_write k [] d = d"
| "last_write k (KSet k' v # ops) d = last_write k ops (if k = k' then (v, True) else d)"
| "last_write k (KDelete k' # ops) d = last_write k ops (if k = k' then (None, False) else d)"
| "last_write k (KReset # ops) d = last_write k ops (None, False)"

fun run_kv :: "(string \<Rightarrow> 'v iface \<Rightarrow> 'c \<Rightarrow> 'c) \<Rightarrow> (string \<Rightarrow> 'c \<Rightarrow> 'c) \<Rightarrow> ('c \<Rightarrow> 'c)
    \<Rightarrow> 'v kvop list \<Rightarrow> 'c \<Rightarrow> 'c" where
  "run_kv st del res [] c = c"
| "run_kv st del res (KSet k v # ops) c = run_kv st del res ops (st k v c)"
| "run_kv st del res (KDelete k # ops) c = run_kv st del res ops (del k c)"
| "run_kv st del res (KReset # ops) c = run_kv st del res ops (res c)"

locale kv_store =
  fixes get :: "string \<Rightarrow> 'c \<Rightarrow> 'v iface \<times> bool"
    and st :: "string \<Rightarrow> 'v iface \<Rightarrow> 'c \<Rightarrow> 'c"
    and del :: "string \<Rightarrow> 'c \<Rightarrow> 'c"
    and rst :: "'c \<Rightarrow> 'c"
  assumes get_st: "get k (st k' v c) = (if k = k' then (v, True) else get k c)"
    and get_del: "get k (del k' c) = (if k = k' then (None, False) else get k c)"
    and get_rst: "get k (rst c) = (None, False)"
begin

lemma get_run: "get k (run_kv st del rst ops c) = last_write k ops (get k c)"
  by (induction k ops "get k c" arbitrary: c rule: last_write.induct)
    (simp_all add: get_st get_del get_rst)

end

interpretation ctx: kv_store ctx_Get ctx_Set ctx_Delete ctx_reset
  by unfold_locales
    (auto simp: ctx_Get_def ctx_Set_def ctx_Delete_def ctx_reset_def Let_def split: option.splits)

lemma ctx_Get_New: "ctx_Get k NewContext = (None, False)"
  by (simp add: ctx_Get_def NewContext_def)

section \<open>Properties\<close>

text \<open>Last writer wins: after any sequence of \<^verbatim>\<open>Set\<close>, \<^verbatim>\<open>Delete\<close> and \<^verbatim>\<open>reset\<close> on a new context,
  a lookup returns what the last operation on that key wrote (a stored \<^verbatim>\<open>nil\<close> included), and
  \<^verbatim>\<open>MustGetContext\<close> panics exactly when that operation removed the key or there was none.\<close>

theorem context_last_write:
  "ctx_Get k (run_kv ctx_Set ctx_Delete ctx_reset ops NewContext) = last_write k ops (None, False)
   \<and> MustGetContext k (run_kv ctx_Set ctx_Delete ctx_reset ops NewContext) =
      (case last_write k ops (None, False) of
         (v, True) \<Rightarrow> Inr v
       | (v, False) \<Rightarrow> Inl (PanicMsg ''must get context not exists''))"
  by (simp add: ctx.get_run MustGetContext_def ctx_Get_New split: prod.splits bool.splits)

end
