(* ===== verification/Heap_Array.thy ===== *)
theory Heap_Array
  imports Prelude "HOL-Library.Product_Lexorder"
begin

text \<open>
  The array heap of Go's \<^verbatim>\<open>container/heap\<close>, which the timer queue drives through its
  \<^verbatim>\<open>Len\<close>/\<^verbatim>\<open>Less\<close>/\<^verbatim>\<open>Swap\<close>/\<^verbatim>\<open>Push\<close>/\<^verbatim>\<open>Pop\<close> methods: sift up, sift down, and the two operations
  built from them. \<open>lt\<close> stands for \<^verbatim>\<open>Less\<close> on the stored elements. The locale
  \<open>heap_order\<close> is the contract \<^verbatim>\<open>container/heap\<close> asks of \<^verbatim>\<open>Less\<close>, a strict order given
  by a linearly ordered key; its lemmas are the heap's correctness, proved once.
\<close>

definition heap_Swap :: "nat \<Rightarrow> nat \<Rightarrow> 'a list \<Rightarrow> 'a list" where
  "heap_Swap i j xs = xs[i := xs ! j, j := xs ! i]"

function heap_up :: "('a \<Rightarrow> 'a \<Rightarrow> bool) \<Rightarrow> nat \<Rightarrow> 'a list \<Rightarrow> 'a list" where
  "heap_up lt j xs =
     (let i = (j - 1) div 2
      in if i = j \<or> \<not> lt (xs ! j) (xs ! i) then xs else heap_up lt i (heap_Swap i j xs))"
  by pat_completeness auto
termination by (relation "measure (\<lambda>(lt, j, xs). j)") auto

function heap_down :: "('a \<Rightarrow> 'a \<Rightarrow> bool) \<Rightarrow> nat \<Rightarrow> nat \<Rightarrow> 'a list \<Rightarrow> 'a list" where
  "heap_down lt i n xs =
     (let j1 = 2 * i + 1; j2 = j1 + 1
      in if j1 \<ge> n then xs
         else let j = (if j2 < n \<and> lt (xs ! j2) (xs ! j1) then j2 else j1)
              in if \<not> lt (xs ! j) (xs ! i) then xs else heap_down lt j n (heap_Swap i j xs))"
  by pat_completeness auto
termination by (relation "measure (\<lambda>(lt, i, n, xs). n - i)") auto

declare heap_up.simps [simp del] heap_down.simps [simp del]

definition heap_Push :: "('a \<Rightarrow> 'a \<Rightarrow> bool) \<Rightarrow> 'a \<Rightarrow> 'a list \<Rightarrow> 'a list" where
  "heap_Push lt x xs = heap_up lt (length xs) (xs @ [x])"

definition heap_Pop :: "('a \<Rightarrow> 'a \<Rightarrow> bool) \<Rightarrow> 'a list \<Rightarrow> ('a \<times> 'a list) res" where
  "heap_Pop lt xs =
     (if xs = [] then Inl IndexRange
      else let n = length xs - 1; ys = heap_down lt 0 n (heap_Swap 0 n xs)
           in Inr (ys ! n, take n ys))"

section \<open>Permutation\<close>

lemma length_heap_Swap [simp]: "length (heap_Swap i j xs) = length xs"
  by (simp add: heap_Swap_def)

lemma mset_heap_Swap: "i < length xs \<Longrightarrow> j < length xs \<Longrightarrow> mset (heap_Swap i j xs) = mset xs"
  using mset_swap [of j xs i] by (simp add: heap_Swap_def)

lemma heap_up_perm: "j < length xs \<Longrightarrow>
  mset (heap_up lt j xs) = mset xs \<and> length (heap_up lt j xs) = length xs"
proof (induction lt j xs rule: heap_up.induct)
  case (1 lt j xs)
  then show ?case
    by (subst (1 2) heap_up.simps) (auto simp: Let_def mset_heap_Swap)
qed

lemma heap_down_perm: "n \<le> length xs \<Longrightarrow> i < length xs \<Longrightarrow>
  mset (heap_down lt i n xs) = mset xs \<and> length (heap_down lt i n xs) = length xs"
proof (induction lt i n xs rule: heap_down.induct)
  case (1 lt i n xs)
  then show ?case
    by (subst (1 2) heap_down.simps) (auto simp: Let_def mset_heap_Swap)
qed

text \<open>Sifting down within the first \<open>n\<close> places does not touch the others.\<close>

lemma heap_down_frame: "n \<le> k \<Longrightarrow> i < n \<Longrightarrow> heap_down lt i n xs ! k = xs ! k"
proof (induction lt i n xs rule: heap_down.induct)
  case (1 lt i n xs)
  then show ?case
    by (subst heap_down.simps) (auto simp: Let_def heap_Swap_def nth_list_update)
qed

lemma heap_Push_perm: "mset (heap_Push lt x xs) = add_mset x (mset xs)"
  unfolding heap_Push_def using heap_up_perm [of "length xs" "xs @ [x]" lt] by simp

text \<open>Popping returns the first element and keeps the others, whatever the order.\<close>

lemma heap_Pop_perm:
  fixes lt :: "'a \<Rightarrow> 'a \<Rightarrow> bool" and xs :: "'a list"
  assumes "xs \<noteq> []"
  defines "n \<equiv> length xs - 1"
  defines "ys \<equiv> heap_down lt 0 n (heap_Swap 0 n xs)"
  shows "heap_Pop lt xs = Inr (xs ! 0, take n ys)" "length ys = Suc n"
    "mset xs = add_mset (xs ! 0) (mset (take n ys))"
proof -
  have n: "length xs = Suc n" using assms(1) by (cases xs) (auto simp: n_def)
  have p: "mset ys = mset xs" "length ys = Suc n"
    using heap_down_perm [of n "heap_Swap 0 n xs" 0 lt] n mset_heap_Swap [of 0 xs n]
    by (auto simp: ys_def)
  have last: "ys ! n = xs ! 0"
  proof (cases "n = 0")
    case True
    then show ?thesis unfolding ys_def by (subst heap_down.simps) (simp add: heap_Swap_def)
  next
    case False
    then show ?thesis
      using heap_down_frame [of n n 0 lt "heap_Swap 0 n xs"] n
      by (simp add: ys_def heap_Swap_def nth_list_update)
  qed
  have "ys = take n ys @ [ys ! n]" using p(2) take_Suc_conv_app_nth [of n ys] by simp
  then have "mset ys = mset (take n ys @ [ys ! n])" by simp
  also have "\<dots> = add_mset (xs ! 0) (mset (take n ys))" by (simp add: last)
  finally show "mset xs = add_mset (xs ! 0) (mset (take n ys))" by (simp add: p(1))
  show "length ys = Suc n" by (rule p(2))
  show "heap_Pop lt xs = Inr (xs ! 0, take n ys)"
    using assms(1) last by (simp add: heap_Pop_def Let_def n_def ys_def)
qed

section \<open>The heap order\<close>

definition parent :: "nat \<Rightarrow> nat" where
  "parent i = (i - 1) div 2"

lemma parent_less: "0 < i \<Longrightarrow> parent i < i"
  by (simp add: parent_def)

lemma parent_child: "0 < c \<and> parent c = i \<longleftrightarrow> c = 2 * i + 1 \<or> c = 2 * i + 2"
  by (auto simp: parent_def)

definition heap_upto :: "('a \<Rightarrow> 'k :: linorder) \<Rightarrow> nat \<Rightarrow> 'a list \<Rightarrow> bool" where
  "heap_upto key n xs \<longleftrightarrow> (\<forall>i. 0 < i \<longrightarrow> i < n \<longrightarrow> key (xs ! parent i) \<le> key (xs ! i))"

abbreviation is_heap :: "('a \<Rightarrow> 'k :: linorder) \<Rightarrow> 'a list \<Rightarrow> bool" where
  "is_heap key xs \<equiv> heap_upto key (length xs) xs"

lemma is_heap_root:
  assumes "is_heap key xs" "x \<in> set xs"
  shows "key (xs ! 0) \<le> key x"
proof -
  have "i < length xs \<Longrightarrow> key (xs ! 0) \<le> key (xs ! i)" for i
  proof (induction i rule: less_induct)
    case (less i)
    show ?case
    proof (cases "i = 0")
      case False
      with less have "key (xs ! 0) \<le> key (xs ! parent i)"
        by (metis less.IH order.strict_trans parent_less not_gr0)
      also have "\<dots> \<le> key (xs ! i)"
        using assms(1) False less.prems by (auto simp: heap_upto_def)
      finally show ?thesis .
    qed simp
  qed
  with assms(2) show ?thesis by (auto simp: in_set_conv_nth)
qed

text \<open>The states of the two loops: the order may fail only between \<open>j\<close> and its parent (up),
  or between \<open>i\<close> and its children (down), and the neighbours on both sides are ordered.\<close>

definition up_hole :: "('a \<Rightarrow> 'k :: linorder) \<Rightarrow> nat \<Rightarrow> 'a list \<Rightarrow> bool" where
  "up_hole key j xs \<longleftrightarrow>
     (\<forall>i. 0 < i \<longrightarrow> i < length xs \<longrightarrow> i \<noteq> j \<longrightarrow> key (xs ! parent i) \<le> key (xs ! i)) \<and>
     (\<forall>c. 0 < j \<longrightarrow> 0 < c \<longrightarrow> c < length xs \<longrightarrow> parent c = j \<longrightarrow> key (xs ! parent j) \<le> key (xs ! c))"

definition down_hole :: "('a \<Rightarrow> 'k :: linorder) \<Rightarrow> nat \<Rightarrow> nat \<Rightarrow> 'a list \<Rightarrow> bool" where
  "down_hole key i n xs \<longleftrightarrow>
     (\<forall>c. 0 < c \<longrightarrow> c < n \<longrightarrow> parent c \<noteq> i \<longrightarrow> key (xs ! parent c) \<le> key (xs ! c)) \<and>
     (\<forall>c. 0 < i \<longrightarrow> 0 < c \<longrightarrow> c < n \<longrightarrow> parent c = i \<longrightarrow> key (xs ! parent i) \<le> key (xs ! c))"

locale heap_order =
  fixes lt :: "'a \<Rightarrow> 'a \<Rightarrow> bool" and key :: "'a \<Rightarrow> 'k :: linorder"
  assumes lt_key: "lt x y \<longleftrightarrow> key x < key y"
begin

lemma up_step:
  assumes "up_hole key j xs" "j < length xs" "0 < j" "key (xs ! j) < key (xs ! parent j)"
  shows "up_hole key (parent j) (heap_Swap (parent j) j xs)"
proof -
  have pj: "parent j < j" using assms(3) by (rule parent_less)
  have nth: "heap_Swap (parent j) j xs ! k =
      (if k = j then xs ! parent j else if k = parent j then xs ! j else xs ! k)"
    if "k < length xs" for k
    using that assms(2) pj by (auto simp: heap_Swap_def nth_list_update)
  have lt: "parent c < length xs" if "0 < c" "c < length xs" for c
    using parent_less [OF that(1)] that(2) by simp
  have A: "\<And>i. 0 < i \<Longrightarrow> i < length xs \<Longrightarrow> i \<noteq> j \<Longrightarrow> key (xs ! parent i) \<le> key (xs ! i)"
    and B: "\<And>c. 0 < c \<Longrightarrow> c < length xs \<Longrightarrow> parent c = j \<Longrightarrow> key (xs ! parent j) \<le> key (xs ! c)"
    using assms(1,3) by (auto simp: up_hole_def)
  have sib: "key (xs ! j) \<le> key (xs ! c)" if "0 < c" "c < length xs" "parent c = parent j" for c
    using A [OF that(1,2)] that(3) assms(4) by (cases "c = j") auto
  show ?thesis
    unfolding up_hole_def
  proof (intro conjI allI impI)
    fix i assume i: "0 < i" "i < length (heap_Swap (parent j) j xs)" "i \<noteq> parent j"
    show "key (heap_Swap (parent j) j xs ! parent i) \<le> key (heap_Swap (parent j) j xs ! i)"
      using i A [of i] B [of i] sib [of i] lt [of i] assms(3,4)
      by (cases "i = j"; cases "parent i = j"; cases "parent i = parent j")
        (auto simp: nth dest: parent_less)
  next
    fix c assume c: "0 < parent j" "0 < c" "c < length (heap_Swap (parent j) j xs)"
      "parent c = parent j"
    have pp: "parent (parent j) < parent j" "parent (parent j) < length xs"
      using parent_less [OF c(1)] pj assms(2) by auto
    have "key (xs ! parent (parent j)) \<le> key (xs ! parent j)"
      using A [OF c(1)] pj assms(2) by auto
    then show "key (heap_Swap (parent j) j xs ! parent (parent j)) \<le> key (heap_Swap (parent j) j xs ! c)"
      using c A [of c] pp pj parent_less [OF c(2)] by (cases "c = j") (auto simp: nth)
  qed
qed

lemma up_done: "up_hole key j xs \<Longrightarrow> j = 0 \<or> key (xs ! parent j) \<le> key (xs ! j) \<Longrightarrow> is_heap key xs"
  unfolding up_hole_def heap_upto_def by (metis less_irrefl)

lemma heap_up_heap: "j < length xs \<Longrightarrow> up_hole key j xs \<Longrightarrow> is_heap key (heap_up lt j xs)"
proof (induction j arbitrary: xs rule: less_induct)
  case (less j)
  show ?case
  proof (cases "0 < j \<and> key (xs ! j) < key (xs ! parent j)")
    case True
    then have p: "parent j < j" by (simp add: parent_less)
    have "is_heap key (heap_up lt (parent j) (heap_Swap (parent j) j xs))"
      using less.prems True p by (intro less.IH up_step) auto
    moreover have "heap_up lt j xs = heap_up lt (parent j) (heap_Swap (parent j) j xs)"
      using True p by (subst heap_up.simps) (auto simp: Let_def lt_key parent_def)
    ultimately show ?thesis by simp
  next
    case False
    then have "heap_up lt j xs = xs"
      by (subst heap_up.simps) (auto simp: Let_def lt_key parent_def)
    with False less.prems(2) up_done show ?thesis by (metis not_gr0 not_less)
  qed
qed

text \<open>One round of sifting down: the smaller child moves up.\<close>

lemma down_step:
  assumes "down_hole key i n xs" "n \<le> length xs" "j < n" "0 < j" "parent j = i"
    "\<And>c. 0 < c \<Longrightarrow> c < n \<Longrightarrow> parent c = i \<Longrightarrow> key (xs ! j) \<le> key (xs ! c)"
    "key (xs ! j) < key (xs ! i)"
  shows "down_hole key j n (heap_Swap i j xs)"
proof -
  have ij: "i < j" using assms(4,5) parent_less by blast
  have nth: "heap_Swap i j xs ! k = (if k = j then xs ! i else if k = i then xs ! j else xs ! k)"
    if "k < n" for k
    using that assms(2,3) ij by (auto simp: heap_Swap_def nth_list_update)
  have lt: "parent c < n" if "0 < c" "c < n" for c using parent_less [OF that(1)] that(2) by simp
  have A: "\<And>c. 0 < c \<Longrightarrow> c < n \<Longrightarrow> parent c \<noteq> i \<Longrightarrow> key (xs ! parent c) \<le> key (xs ! c)"
    and B: "\<And>c. 0 < i \<Longrightarrow> 0 < c \<Longrightarrow> c < n \<Longrightarrow> parent c = i \<Longrightarrow> key (xs ! parent i) \<le> key (xs ! c)"
    using assms(1) by (auto simp: down_hole_def)
  show ?thesis
    unfolding down_hole_def
  proof (intro conjI allI impI)
    fix c assume c: "0 < c" "c < n" "parent c \<noteq> j"
    show "key (heap_Swap i j xs ! parent c) \<le> key (heap_Swap i j xs ! c)"
      using c A [of c] B [of j] assms(3-7) lt [of c]
      by (cases "c = i"; cases "c = j"; cases "parent c = i")
        (auto simp: nth dest: parent_less)
  next
    fix c assume c: "0 < j" "0 < c" "c < n" "parent c = j"
    then have "c \<noteq> i" "c \<noteq> j" using ij parent_less [of c] by auto
    with c A [of c] assms(3,5) ij show "key (heap_Swap i j xs ! parent j) \<le> key (heap_Swap i j xs ! c)"
      by (auto simp: nth)
  qed
qed

lemma down_done:
  assumes "down_hole key i n xs"
    "\<And>c. 0 < c \<Longrightarrow> c < n \<Longrightarrow> parent c = i \<Longrightarrow> key (xs ! i) \<le> key (xs ! c)"
  shows "heap_upto key n xs"
  using assms unfolding down_hole_def heap_upto_def by metis

lemma heap_down_heap: "n \<le> length xs \<Longrightarrow> down_hole key i n xs \<Longrightarrow> heap_upto key n (heap_down lt i n xs)"
proof (induction "n - i" arbitrary: i xs rule: less_induct)
  case less
  let ?j1 = "2 * i + 1" and ?j2 = "2 * i + 2"
  define j where "j = (if ?j2 < n \<and> lt (xs ! ?j2) (xs ! ?j1) then ?j2 else ?j1)"
  have child: "parent c = i \<Longrightarrow> 0 < c \<Longrightarrow> c = ?j1 \<or> c = ?j2" for c
    using parent_child by blast
  have jc: "0 < j" "parent j = i" "i < j" by (auto simp: j_def parent_def)
  have min: "key (xs ! j) \<le> key (xs ! c)" if "0 < c" "c < n" "parent c = i" for c
    using child [OF that(3,1)] that(2) by (auto simp: j_def lt_key)
  have unf: "heap_down lt i n xs = (if n \<le> ?j1 then xs
      else if \<not> lt (xs ! j) (xs ! i) then xs else heap_down lt j n (heap_Swap i j xs))"
    by (subst heap_down.simps) (simp add: Let_def j_def)
  consider "n \<le> ?j1" | "?j1 < n" "key (xs ! i) \<le> key (xs ! j)"
    | "?j1 < n" "key (xs ! j) < key (xs ! i)"
    by (metis not_le)
  then show ?case
  proof cases
    case 1
    then have "heap_upto key n xs" using less.prems(2) child by (intro down_done) fastforce+
    with 1 unf show ?thesis by simp
  next
    case 2
    then have "heap_upto key n xs" using less.prems(2) min by (intro down_done) (auto intro: order_trans)
    with 2 unf show ?thesis by (auto simp: lt_key)
  next
    case 3
    then have jn: "j < n" by (auto simp: j_def)
    have "heap_upto key n (heap_down lt j n (heap_Swap i j xs))"
      using less.prems jn jc min 3 by (intro less.hyps down_step) auto
    with 3 unf show ?thesis by (simp add: lt_key)
  qed
qed

text \<open>Pushing and popping: the priority queue the array implements.\<close>

lemma Push_heap:
  assumes "is_heap key xs"
  shows "is_heap key (heap_Push lt x xs)" "mset (heap_Push lt x xs) = add_mset x (mset xs)"
proof -
  have "up_hole key (length xs) (xs @ [x])"
    unfolding up_hole_def
  proof (intro conjI allI impI)
    fix i assume i: "0 < i" "i < length (xs @ [x])" "i \<noteq> length xs"
    then show "key ((xs @ [x]) ! parent i) \<le> key ((xs @ [x]) ! i)"
      using assms parent_less [OF i(1)] by (auto simp: nth_append heap_upto_def)
  next
    fix c assume "0 < c" "c < length (xs @ [x])" "parent c = length xs"
    then show "key ((xs @ [x]) ! parent (length xs)) \<le> key ((xs @ [x]) ! c)"
      using parent_less [of c] by simp
  qed
  then show "is_heap key (heap_Push lt x xs)"
    unfolding heap_Push_def by (intro heap_up_heap) auto
  show "mset (heap_Push lt x xs) = add_mset x (mset xs)" by (rule heap_Push_perm)
qed

lemma Pop_heap:
  assumes "is_heap key xs" "xs \<noteq> []"
  obtains ys where "heap_Pop lt xs = Inr (xs ! 0, ys)" "is_heap key ys"
    "mset xs = add_mset (xs ! 0) (mset ys)"
proof -
  define n where "n = length xs - 1"
  have n: "length xs = Suc n" using assms(2) by (cases xs) (auto simp: n_def)
  let ?zs = "heap_Swap 0 n xs"
  let ?ys = "heap_down lt 0 n ?zs"
  have nth: "?zs ! k = (if k = 0 then xs ! n else if k = n then xs ! 0 else xs ! k)" if "k \<le> n" for k
    using that n by (auto simp: heap_Swap_def nth_list_update)
  have "down_hole key 0 n ?zs"
    unfolding down_hole_def
  proof (intro conjI allI impI)
    fix c assume c: "0 < c" "c < n" "parent c \<noteq> 0"
    then show "key (?zs ! parent c) \<le> key (?zs ! c)"
      using assms(1) n parent_less [OF c(1)] by (auto simp: nth heap_upto_def)
  qed auto
  then have h: "heap_upto key n ?ys" using n by (intro heap_down_heap) auto
  note perm = heap_Pop_perm [OF assms(2), of lt, folded n_def]
  have "is_heap key (take n ?ys)"
    unfolding heap_upto_def
  proof (intro allI impI)
    fix i assume i: "0 < i" "i < length (take n ?ys)"
    then have "i < n" "parent i < n" using perm(2) parent_less [OF i(1)] by auto
    with h i(1) show "key (take n ?ys ! parent i) \<le> key (take n ?ys ! i)"
      by (simp add: heap_upto_def)
  qed
  with perm that show thesis by blast
qed

end

end
