(* ===== verification/Kernel.thy ===== *)
theory Kernel
  imports Prelude
begin

text \<open>
  The operating system seen by one event loop. The kernel is not part of the program:
  it is a parameter \<open>K\<close> of every definition that makes a system call, a record of answers
  that may depend on the calls made so far, so that quantifying over \<open>K\<close> covers every
  behaviour of the environment, external input and clock included. The calls themselves are
  recorded, with the answer the program saw, in a history. \<open>registered\<close> reads the epoll
  interest list off a history: what the successful \<^verbatim>\<open>epoll_ctl\<close> calls, and the \<^verbatim>\<open>close\<close> calls,
  have left in it. The named hypotheses at the end state what epoll(7),
  epoll_ctl(2), write(2) and readv(2) document.
\<close>

datatype ctl_op = EPOLL_CTL_ADD | EPOLL_CTL_MOD | EPOLL_CTL_DEL

type_synonym mask = "32 word"
type_synonym sockaddr = "32 word \<times> 16 word"

datatype sys_event =
    SysEpollCtl ctl_op int mask "errno option"
  | SysEpollWait nat "errno + (int \<times> mask) list"
  | SysRead int "errno option"
  | SysReadv int nat "byte list option"
  | SysWrite int "byte list" "errno + nat"
  | SysShutdown int
  | SysClose int
  | SysSetsockopt int int int int
  | SysTimerfdSettime int int int int "errno option"
  | SysNow int
  | SysBind int sockaddr "errno option"
  | SysListen int int "errno option"
  | SysAccept int "errno + (int \<times> sockaddr)"

type_synonym history = "sys_event list"

record kernel =
  k_ctl :: "history \<Rightarrow> ctl_op \<Rightarrow> int \<Rightarrow> mask \<Rightarrow> errno option"
  k_wait :: "history \<Rightarrow> nat \<Rightarrow> errno + (int \<times> mask) list"
  k_read :: "history \<Rightarrow> int \<Rightarrow> errno option"
  k_readv :: "history \<Rightarrow> int \<Rightarrow> nat \<Rightarrow> byte list option"
  k_write :: "history \<Rightarrow> int \<Rightarrow> byte list \<Rightarrow> errno + nat"
  k_settime :: "history \<Rightarrow> int \<Rightarrow> int \<Rightarrow> int \<Rightarrow> int \<Rightarrow> errno option"
  k_now :: "history \<Rightarrow> int"
  k_bind :: "history \<Rightarrow> int \<Rightarrow> sockaddr \<Rightarrow> errno option"
  k_listen :: "history \<Rightarrow> int \<Rightarrow> int \<Rightarrow> errno option"
  k_accept :: "history \<Rightarrow> int \<Rightarrow> errno + (int \<times> sockaddr)"

fun registered_step :: "sys_event \<Rightarrow> (int \<rightharpoonup> mask) \<Rightarrow> (int \<rightharpoonup> mask)" where
  "registered_step (SysEpollCtl EPOLL_CTL_ADD f e None) m = m(f \<mapsto> e)"
| "registered_step (SysEpollCtl EPOLL_CTL_MOD f e None) m = m(f \<mapsto> e)"
| "registered_step (SysEpollCtl EPOLL_CTL_DEL f e None) m = m(f := None)"
| "registered_step (SysClose f) m = m(f := None)"
| "registered_step ev m = m"

definition registered :: "history \<Rightarrow> int \<rightharpoonup> mask" where
  "registered h = fold registered_step h Map.empty"

section \<open>Documented behaviour of epoll\<close>

text \<open>\<^verbatim>\<open>EPOLL_CTL_ADD\<close> fails with \<^verbatim>\<open>EEXIST\<close> on a registered descriptor (and may fail otherwise);
  \<^verbatim>\<open>EPOLL_CTL_MOD\<close> and \<^verbatim>\<open>EPOLL_CTL_DEL\<close> succeed on a registered descriptor and fail with
  \<^verbatim>\<open>ENOENT\<close> on one that is not.\<close>

abbreviation (input) EBADF :: errno where "EBADF \<equiv> 9"
abbreviation (input) ENOENT :: errno where "ENOENT \<equiv> 2"
abbreviation (input) EEXIST :: errno where "EEXIST \<equiv> 17"

definition ctl_documented :: "kernel \<Rightarrow> bool" where
  "ctl_documented K \<longleftrightarrow> (\<forall>h f e.
     (registered h f \<noteq> None \<longrightarrow> k_ctl K h EPOLL_CTL_ADD f e = Some EEXIST) \<and>
     (\<forall>op. op \<noteq> EPOLL_CTL_ADD \<longrightarrow>
       k_ctl K h op f e = (if registered h f = None then Some ENOENT else None)))"

text \<open>\<^verbatim>\<open>epoll_wait\<close> reports at most \<^verbatim>\<open>maxevents\<close> events, each of a registered descriptor and no
  descriptor twice.\<close>

definition wait_documented :: "kernel \<Rightarrow> bool" where
  "wait_documented K \<longleftrightarrow> (\<forall>h n evs. k_wait K h n = Inr evs \<longrightarrow>
     length evs \<le> n \<and> distinct (map fst evs) \<and> fst ` set evs \<subseteq> dom (registered h))"

section \<open>Documented behaviour of reads and writes\<close>

text \<open>write(2) and readv(2) fail, or transfer no more bytes than they were given, possibly none.\<close>

definition write_documented :: "kernel \<Rightarrow> bool" where
  "write_documented K \<longleftrightarrow> (\<forall>h f bs n. k_write K h f bs = Inr n \<longrightarrow> n \<le> length bs)"

definition readv_documented :: "kernel \<Rightarrow> bool" where
  "readv_documented K \<longleftrightarrow> (\<forall>h f n bs. k_readv K h f n = Some bs \<longrightarrow> length bs \<le> n)"

section \<open>Lemmas\<close>

lemma registered_Nil [simp]: "registered [] = Map.empty"
  by (simp add: registered_def)

lemma registered_snoc [simp]: "registered (h @ [ev]) = registered_step ev (registered h)"
  by (simp add: registered_def)

lemma ctl_add_fresh:
  assumes "ctl_documented K" "k_ctl K h EPOLL_CTL_ADD f e = None"
  shows "registered h f = None"
proof (rule ccontr)
  assume "registered h f \<noteq> None"
  with assms(1) have "k_ctl K h EPOLL_CTL_ADD f e = Some EEXIST"
    unfolding ctl_documented_def by blast
  with assms(2) show False by simp
qed

lemma ctl_mod_del:
  "ctl_documented K \<Longrightarrow> op \<noteq> EPOLL_CTL_ADD \<Longrightarrow>
     k_ctl K h op f e = (if registered h f = None then Some ENOENT else None)"
  unfolding ctl_documented_def by blast

text \<open>The calls that leave the interest list alone.\<close>

fun neutral :: "sys_event \<Rightarrow> bool" where
  "neutral (SysEpollCtl op f e r) = (r \<noteq> None)"
| "neutral (SysClose f) = False"
| "neutral ev = True"

lemma registered_neutral [simp]: "neutral ev \<Longrightarrow> registered_step ev m = m"
  by (cases "(ev, m)" rule: registered_step.cases) auto

lemma registered_neutrals: "list_all neutral evs \<Longrightarrow> registered (h @ evs) = registered h"
proof (induction evs rule: rev_induct)
  case (snoc ev evs)
  then show ?case by (simp flip: append_assoc)
qed simp

section \<open>A concrete kernel\<close>

text \<open>An instance of the parameter for concrete runs: \<^verbatim>\<open>epoll_ctl\<close> keeps the interest list of
  the history, \<^verbatim>\<open>epoll_wait\<close> reports those of the given events whose descriptor is registered,
  writes are accepted whole, reads deliver nothing.\<close>

definition sample_kernel :: "(int \<times> mask) list \<Rightarrow> kernel" where
  "sample_kernel evs = \<lparr>
     k_ctl = (\<lambda>h op f e. if op = EPOLL_CTL_ADD
        then (if registered h f = None then None else Some EEXIST)
        else (if registered h f = None then Some ENOENT else None)),
     k_wait = (\<lambda>h n. Inr (take n (filter (\<lambda>(f, e). registered h f \<noteq> None) evs))),
     k_read = (\<lambda>h f. None),
     k_readv = (\<lambda>h f n. Some []),
     k_write = (\<lambda>h f bs. Inr (length bs)),
     k_settime = (\<lambda>h f fl sec nsec. None),
     k_now = (\<lambda>h. int (length h)),
     k_bind = (\<lambda>h f a. None),
     k_listen = (\<lambda>h f n. None),
     k_accept = (\<lambda>h f. Inl EAGAIN)\<rparr>"

lemma sample_ctl: "ctl_documented (sample_kernel evs)"
  by (auto simp: ctl_documented_def sample_kernel_def)

lemma sample_io: "write_documented (sample_kernel evs)" "readv_documented (sample_kernel evs)"
  by (auto simp: write_documented_def readv_documented_def sample_kernel_def)

lemma sample_wait:
  assumes "distinct (map fst evs)"
  shows "wait_documented (sample_kernel evs)"
proof -
  have "fst ` set (take n (filter (\<lambda>(f, e). registered h f \<noteq> None) evs)) \<subseteq> dom (registered h)" for h n
    by (auto dest!: in_set_takeD)
  then show ?thesis
    using assms by (simp add: wait_documented_def sample_kernel_def distinct_map_filter
        flip: take_map)
qed

end
