(* ===== verification/Channel.thy ===== *)
theory Channel
  imports Prelude
begin

text \<open>
  The channel of \<^verbatim>\<open>pkg/event_loop/channel.go\<close>: one file descriptor, the events its owner
  is interested in, the events the last poll reported, and two callbacks. A Go \<^verbatim>\<open>int\<close> read
  bitwise is a 64-bit word. Callbacks are closures over the rest of the program: a field holds
  a name of type \<open>'h\<close>, and \<open>HandleEvent\<close> takes the function that runs a name.
\<close>

unbundle bit_operations_syntax

type_synonym ReactorEvent = "64 word"

definition NoneEvent :: ReactorEvent where "NoneEvent = 0"
definition ReadableEvent :: ReactorEvent where "ReadableEvent = 1"
definition WritableEvent :: ReactorEvent where "WritableEvent = 4"
definition AllEvent :: ReactorEvent where "AllEvent = ReadableEvent OR WritableEvent"

record 'h channel =
  fd :: int
  events :: ReactorEvent
  revents :: ReactorEvent
  index :: int
  readCallback :: "'h option"
  writeCallback :: "'h option"

definition NewChannel :: "int \<Rightarrow> 'h channel" where
  "NewChannel f = \<lparr>fd = f, events = 0, revents = 0, index = -1,
     readCallback = None, writeCallback = None\<rparr>"

definition SetEvent :: "ReactorEvent \<Rightarrow> 'h channel \<Rightarrow> 'h channel" where
  "SetEvent e c = c\<lparr>events := e\<rparr>"

definition SetRevent :: "ReactorEvent \<Rightarrow> 'h channel \<Rightarrow> 'h channel" where
  "SetRevent e c = c\<lparr>revents := e\<rparr>"

definition SetIndex :: "int \<Rightarrow> 'h channel \<Rightarrow> 'h channel" where
  "SetIndex i c = c\<lparr>index := i\<rparr>"

definition SetReadCallback :: "'h \<Rightarrow> 'h channel \<Rightarrow> 'h channel" where
  "SetReadCallback f c = c\<lparr>readCallback := Some f\<rparr>"

definition SetWriteCallback :: "'h \<Rightarrow> 'h channel \<Rightarrow> 'h channel" where
  "SetWriteCallback f c = c\<lparr>writeCallback := Some f\<rparr>"

definition IsWriting :: "'h channel \<Rightarrow> bool" where
  "IsWriting c \<longleftrightarrow> events c AND WritableEvent \<noteq> 0"

definition IsReading :: "'h channel \<Rightarrow> bool" where
  "IsReading c \<longleftrightarrow> events c AND ReadableEvent \<noteq> 0"

definition EnableWrite :: "'h channel \<Rightarrow> bool \<times> 'h channel" where
  "EnableWrite c =
     (if events c AND WritableEvent \<noteq> 0 then (False, c)
      else (True, c\<lparr>events := events c OR WritableEvent\<rparr>))"

definition DisableWrite :: "'h channel \<Rightarrow> bool \<times> 'h channel" where
  "DisableWrite c =
     (if events c AND WritableEvent = 0 then (False, c)
      else (True, c\<lparr>events := events c AND NOT WritableEvent\<rparr>))"

definition EnableRead :: "'h channel \<Rightarrow> bool \<times> 'h channel" where
  "EnableRead c =
     (if events c AND ReadableEvent \<noteq> 0 then (False, c)
      else (True, c\<lparr>events := events c OR ReadableEvent\<rparr>))"

definition DisableRead :: "'h channel \<Rightarrow> bool \<times> 'h channel" where
  "DisableRead c =
     (if events c AND ReadableEvent = 0 then (False, c)
      else (True, c\<lparr>events := events c AND NOT ReadableEvent\<rparr>))"

text \<open>\<^verbatim>\<open>HandleEvent\<close> on the channel \<open>get s\<close> of the state \<open>s\<close>: the channel is read again before the
  second test, since the read callback runs in between and may change anything.\<close>

definition run_opt :: "('h \<Rightarrow> 's \<Rightarrow> 's res) \<Rightarrow> 'h option \<Rightarrow> 's \<Rightarrow> 's res" where
  "run_opt run cb s = (case cb of None \<Rightarrow> Inr s | Some h \<Rightarrow> run h s)"

definition HandleEvent :: "('h \<Rightarrow> 's \<Rightarrow> 's res) \<Rightarrow> ('s \<Rightarrow> 'h channel res) \<Rightarrow> 's \<Rightarrow> 's res" where
  "HandleEvent run get s =
     rbind (get s) (\<lambda>c.
     rbind (if revents c AND ReadableEvent \<noteq> 0 then run_opt run (readCallback c) s else Inr s) (\<lambda>s1.
     rbind (get s1) (\<lambda>c1.
       if revents c1 AND WritableEvent \<noteq> 0 then run_opt run (writeCallback c1) s1 else Inr s1)))"

section \<open>Bit lemmas\<close>

lemma event_eq_iff: "(x :: ReactorEvent) = y \<longleftrightarrow> (\<forall>n. bit x n = bit y n)"
  using bit_eqI [of x y] by auto

lemma event_bit_bound: "bit (x :: ReactorEvent) n \<Longrightarrow> n < 64"
  using bit_imp_le_length by fastforce

lemma bit_WritableEvent: "bit WritableEvent n \<longleftrightarrow> n = 2"
proof -
  have "WritableEvent = 2 ^ 2" by (simp add: WritableEvent_def)
  then have "bit WritableEvent n \<longleftrightarrow> bit ((2 :: 64 word) ^ 2) n" by (rule arg_cong)
  also have "\<dots> \<longleftrightarrow> n = 2" unfolding bit_exp_iff by auto
  finally show ?thesis .
qed

lemma bit_ReadableEvent: "bit ReadableEvent n \<longleftrightarrow> n = 0"
  by (simp add: ReadableEvent_def bit_1_iff)

lemma and_Writable_iff: "(x :: ReactorEvent) AND WritableEvent = 0 \<longleftrightarrow> \<not> bit x 2"
  by (auto simp: event_eq_iff bit_and_iff bit_WritableEvent)

lemma and_Readable_iff: "(x :: ReactorEvent) AND ReadableEvent = 0 \<longleftrightarrow> \<not> bit x 0"
  by (auto simp: event_eq_iff bit_and_iff bit_ReadableEvent intro: gr0I)

lemma Writable_set_iff: "(x :: ReactorEvent) OR WritableEvent = x \<longleftrightarrow> bit x 2"
  by (auto simp: event_eq_iff bit_or_iff bit_WritableEvent)

lemma Readable_set_iff: "(x :: ReactorEvent) OR ReadableEvent = x \<longleftrightarrow> bit x 0"
  by (auto simp: event_eq_iff bit_or_iff bit_ReadableEvent)

lemma Writable_clear_iff: "(x :: ReactorEvent) AND NOT WritableEvent = x \<longleftrightarrow> \<not> bit x 2"
  by (auto simp: event_eq_iff bit_and_iff bit_not_iff bit_WritableEvent
      dest: event_bit_bound)

lemma Readable_clear_iff: "(x :: ReactorEvent) AND NOT ReadableEvent = x \<longleftrightarrow> \<not> bit x 0"
  by (auto simp: event_eq_iff bit_and_iff bit_not_iff bit_ReadableEvent intro: gr0I
      dest: event_bit_bound)

lemmas event_bits = bit_WritableEvent bit_ReadableEvent and_Writable_iff and_Readable_iff
  Writable_set_iff Readable_set_iff Writable_clear_iff Readable_clear_iff
  bit_and_iff bit_or_iff bit_not_iff

lemmas channel_ops = NewChannel_def SetEvent_def SetRevent_def SetIndex_def SetReadCallback_def
  SetWriteCallback_def IsWriting_def IsReading_def EnableWrite_def DisableWrite_def
  EnableRead_def DisableRead_def

section \<open>Properties\<close>

text \<open>Each toggle sets or clears exactly its own bit of the interest mask, and its return
  value tells whether the mask changed: \<^verbatim>\<open>EnableWrite\<close> and \<^verbatim>\<open>DisableWrite\<close> govern \<^verbatim>\<open>IsWriting\<close>
  and leave \<^verbatim>\<open>IsReading\<close> and every other bit alone, and the read toggles do the same for
  reading. So a caller may skip \<^verbatim>\<open>epoll_ctl\<close> when a toggle answers false.\<close>

theorem toggles_exact:
  "let (ew, cew) = EnableWrite c; (dw, cdw) = DisableWrite c;
       (er, cer) = EnableRead c; (dr, cdr) = DisableRead c
   in IsWriting cew \<and> \<not> IsWriting cdw \<and> IsReading cer \<and> \<not> IsReading cdr
    \<and> ew = (events cew \<noteq> events c) \<and> dw = (events cdw \<noteq> events c)
    \<and> er = (events cer \<noteq> events c) \<and> dr = (events cdr \<noteq> events c)
    \<and> (\<forall>n. bit (events cew) n = (n = 2 \<or> bit (events c) n))
    \<and> (\<forall>n. bit (events cdw) n = (n \<noteq> 2 \<and> bit (events c) n))
    \<and> (\<forall>n. bit (events cer) n = (n = 0 \<or> bit (events c) n))
    \<and> (\<forall>n. bit (events cdr) n = (n \<noteq> 0 \<and> bit (events c) n))"
  by (simp add: channel_ops event_bits Let_def split: prod.split)
    (auto simp: event_bits dest: event_bit_bound intro: gr0I)

end
