(* ===== verification/Poller.thy ===== *)
theory Poller
  imports Kernel Channel "HOL-Library.AList"
begin

text \<open>
  The epoll poller of \<^verbatim>\<open>pkg/event_loop/poller.go\<close>. Channels are shared objects, so they
  live in a store of channel pointers; \<^verbatim>\<open>channelMap\<close> maps a descriptor to a pointer. The
  operations are defined on every extension of the base state, so that the event loop and
  the connections use them on their own state unchanged. \<^verbatim>\<open>eventList\<close> is an output array
  that each poll overwrites before reading it: only its length is state.
\<close>

record poller =
  epollFD :: int
  channelMap :: "(int \<times> nat) list"
  eventListLen :: nat
  idxCounter :: int

record 'h base =
  hist :: history
  chans :: "nat \<rightharpoonup> 'h channel"
  the_poller :: poller

definition NewPoller :: "int \<Rightarrow> poller" where
  "NewPoller epfd = \<lparr>epollFD = epfd, channelMap = [], eventListLen = 128, idxCounter = 0\<rparr>"

definition deref_chan :: "nat \<Rightarrow> ('h, 'z) base_scheme \<Rightarrow> 'h channel res" where
  "deref_chan p s = (case chans s p of None \<Rightarrow> Inl NilDeref | Some c \<Rightarrow> Inr c)"

definition upd_chan :: "nat \<Rightarrow> 'h channel \<Rightarrow> ('h, 'z) base_scheme \<Rightarrow> ('h, 'z) base_scheme" where
  "upd_chan p c s = s\<lparr>chans := (chans s)(p \<mapsto> c)\<rparr>"

text \<open>\<^verbatim>\<open>syscall.EpollCtl\<close> on the poller's descriptor, recorded in the history.\<close>

definition EpollCtl :: "kernel \<Rightarrow> ctl_op \<Rightarrow> int \<Rightarrow> mask \<Rightarrow> ('h, 'z) base_scheme
    \<Rightarrow> errno option \<times> ('h, 'z) base_scheme" where
  "EpollCtl K op f e s =
     (let r = k_ctl K (hist s) op f e
      in (r, s\<lparr>hist := hist s @ [SysEpollCtl op f e r]\<rparr>))"

definition UpdateChannel :: "kernel \<Rightarrow> nat \<Rightarrow> ('h, 'z) base_scheme \<Rightarrow> ('h, 'z) base_scheme res" where
  "UpdateChannel K p s =
     rbind (deref_chan p s) (\<lambda>c.
       if index c < 0 then
         (case EpollCtl K EPOLL_CTL_ADD (fd c) (ucast (events c)) s of
            (Some err, s1) \<Rightarrow> Inl (PanicErr err)
          | (None, s1) \<Rightarrow>
              (let P = the_poller s1; i = idxCounter P + 1;
                   P' = P\<lparr>idxCounter := i, channelMap := AList.update (fd c) p (channelMap P)\<rparr>
               in Inr (upd_chan p (SetIndex i c) (s1\<lparr>the_poller := P'\<rparr>))))
       else
         (case EpollCtl K EPOLL_CTL_MOD (fd c) (ucast (events c)) s of
            (Some err, s1) \<Rightarrow> Inl (PanicErr err)
          | (None, s1) \<Rightarrow> Inr s1))"

definition RemoveChannel :: "kernel \<Rightarrow> nat \<Rightarrow> ('h, 'z) base_scheme \<Rightarrow> ('h, 'z) base_scheme res" where
  "RemoveChannel K p s =
     rbind (deref_chan p s) (\<lambda>c.
       if index c < 0 then Inl (PanicMsg ''remove non-exist channel'')
       else
         (case EpollCtl K EPOLL_CTL_DEL (fd c) 0 s of
            (Some err, s1) \<Rightarrow> Inl (PanicErr err)
          | (None, s1) \<Rightarrow>
              (let P = the_poller s1
               in Inr (s1\<lparr>the_poller := P\<lparr>channelMap := AList.delete (fd c) (channelMap P)\<rparr>\<rparr>))))"

definition GetChannelCount :: "('h, 'z) base_scheme \<Rightarrow> int" where
  "GetChannelCount s = int (length (channelMap (the_poller s)))"

text \<open>The retry loop around \<^verbatim>\<open>epoll_wait\<close>: it continues on \<^verbatim>\<open>EINTR\<close>, without a bound, so the
  result is an option.\<close>

partial_function (option) epoll_wait_loop :: "kernel \<Rightarrow> ('h, 'z) base_scheme
    \<Rightarrow> ((int \<times> mask) list \<times> ('h, 'z) base_scheme) res option" where
  "epoll_wait_loop K s =
     (let n = eventListLen (the_poller s); r = k_wait K (hist s) n;
          s1 = s\<lparr>hist := hist s @ [SysEpollWait n r]\<rparr>
      in case r of
           Inl e \<Rightarrow> if e = EINTR then epoll_wait_loop K s1 else Some (Inl (PanicErr e))
         | Inr evs \<Rightarrow> Some (Inr (evs, s1)))"

fun fill_active :: "(int \<times> mask) list \<Rightarrow> ('h, 'z) base_scheme
    \<Rightarrow> (nat list \<times> ('h, 'z) base_scheme) res" where
  "fill_active [] s = Inr ([], s)"
| "fill_active ((f, e) # evs) s =
     (case map_of (channelMap (the_poller s)) f of
        None \<Rightarrow> Inl NilDeref
      | Some p \<Rightarrow> rbind (deref_chan p s) (\<lambda>c.
          rbind (fill_active evs (upd_chan p (SetRevent (ucast e) c) s))
            (\<lambda>(ps, s2). Inr (p # ps, s2))))"

definition Poll :: "kernel \<Rightarrow> ('h, 'z) base_scheme \<Rightarrow> (nat list \<times> ('h, 'z) base_scheme) res option" where
  "Poll K s = map_option (\<lambda>r.
     rbind r (\<lambda>(evs, s1).
     rbind (fill_active evs s1) (\<lambda>(ps, s2).
       let P = the_poller s2
       in Inr (ps, if length evs = eventListLen P
                   then s2\<lparr>the_poller := P\<lparr>eventListLen := 2 * eventListLen P\<rparr>\<rparr> else s2))))
     (epoll_wait_loop K s)"

section \<open>Invariant\<close>

text \<open>\<open>poller_inv\<close>: the map has one entry per descriptor, exactly the descriptors the kernel
  watches, each pointing to a live channel for that descriptor with a positive index that the
  counter has already issued. \<open>in_sync\<close>: the kernel watches each of them for the events its
  channel asks for (\<open>in_sync_but A\<close>: except the channels in \<open>A\<close>, whose mask was just changed).\<close>

definition poller_inv :: "('h, 'z) base_scheme \<Rightarrow> bool" where
  "poller_inv s \<longleftrightarrow> (let P = the_poller s; cm = map_of (channelMap P)
     in distinct (map fst (channelMap P)) \<and> 0 \<le> idxCounter P \<and> 0 < eventListLen P
      \<and> dom cm = dom (registered (hist s))
      \<and> (\<forall>f p. cm f = Some p \<longrightarrow>
           (\<exists>c. chans s p = Some c \<and> fd c = f \<and> 0 < index c \<and> index c \<le> idxCounter P)))"

definition in_sync_but :: "nat set \<Rightarrow> ('h, 'z) base_scheme \<Rightarrow> bool" where
  "in_sync_but A s \<longleftrightarrow> (\<forall>f p c. p \<notin> A \<longrightarrow> map_of (channelMap (the_poller s)) f = Some p \<longrightarrow>
     chans s p = Some c \<longrightarrow> registered (hist s) f = Some (ucast (events c)))"

abbreviation in_sync :: "('h, 'z) base_scheme \<Rightarrow> bool" where
  "in_sync \<equiv> in_sync_but {}"

lemma poller_invD:
  assumes "poller_inv s"
  shows "distinct (map fst (channelMap (the_poller s)))" "0 \<le> idxCounter (the_poller s)"
    "0 < eventListLen (the_poller s)"
    "dom (map_of (channelMap (the_poller s))) = dom (registered (hist s))"
    "map_of (channelMap (the_poller s)) f = Some p \<Longrightarrow>
      \<exists>c. chans s p = Some c \<and> fd c = f \<and> 0 < index c \<and> index c \<le> idxCounter (the_poller s)"
  using assms by (auto simp: poller_inv_def Let_def)

lemmas base_frame = deref_chan_def upd_chan_def EpollCtl_def Let_def SetIndex_def SetRevent_def

text \<open>Two pointers of the map never share a channel, since the channel names its descriptor.\<close>

lemma channelMap_inj:
  "poller_inv s \<Longrightarrow> map_of (channelMap (the_poller s)) f = Some p \<Longrightarrow>
   map_of (channelMap (the_poller s)) g = Some p \<Longrightarrow> f = g"
  by (metis option.inject poller_invD(5))

lemma channelMap_other:
  "poller_inv s \<Longrightarrow> map_of (channelMap (the_poller s)) f = Some p \<Longrightarrow> g \<noteq> f \<Longrightarrow>
   map_of (channelMap (the_poller s)) g = Some q \<Longrightarrow> q \<noteq> p"
  using channelMap_inj by blast

lemma count_card: "poller_inv s \<Longrightarrow>
  GetChannelCount s = int (card (dom (registered (hist s))))"
  using poller_invD(1,4) [of s] distinct_card [of "map fst (channelMap (the_poller s))"]
  by (simp add: GetChannelCount_def dom_map_of_conv_image_fst flip: set_map)

lemma card_dom_remove:
  assumes "finite (dom m)" "k \<in> dom m"
  shows "int (card (dom (m(k := None)))) = int (card (dom m)) - 1"
proof -
  have "dom m = insert k (dom (m(k := None)))" using assms(2) by auto
  then have "card (dom m) = Suc (card (dom (m(k := None))))"
    using assms(1) card_insert_disjoint [of "dom (m(k := None))" k] by simp
  then show ?thesis by simp
qed

section \<open>Updating and removing\<close>

lemma UpdateChannel_new:
  assumes "poller_inv s" "ctl_documented K" "chans s p = Some c" "index c < 0"
    "UpdateChannel K p s = Inr s'"
  shows "poller_inv s'" "map_of (channelMap (the_poller s')) = (map_of (channelMap (the_poller s)))(fd c \<mapsto> p)"
    "registered (hist s') = (registered (hist s))(fd c \<mapsto> ucast (events c))"
    "registered (hist s) (fd c) = None"
    "chans s' = (chans s)(p \<mapsto> c\<lparr>index := idxCounter (the_poller s) + 1\<rparr>)"
    "in_sync_but {p} s \<Longrightarrow> in_sync s'"
proof -
  let ?e = "ucast (events c) :: mask"
  let ?i = "idxCounter (the_poller s) + 1"
  have ok: "k_ctl K (hist s) EPOLL_CTL_ADD (fd c) ?e = None"
    and s': "s' = s\<lparr>hist := hist s @ [SysEpollCtl EPOLL_CTL_ADD (fd c) ?e None],
      the_poller := (the_poller s)\<lparr>idxCounter := ?i,
         channelMap := AList.update (fd c) p (channelMap (the_poller s))\<rparr>,
      chans := (chans s)(p \<mapsto> c\<lparr>index := ?i\<rparr>)\<rparr>"
    using assms(3,4,5) by (auto simp: UpdateChannel_def base_frame split: option.splits)
  show fresh: "registered (hist s) (fd c) = None"
    using assms(2) ok by (rule ctl_add_fresh)
  have np: "map_of (channelMap (the_poller s)) f \<noteq> Some p" for f
    using poller_invD(5) [OF assms(1), of f p] assms(3,4) by auto
  show "map_of (channelMap (the_poller s')) = (map_of (channelMap (the_poller s)))(fd c \<mapsto> p)"
    "registered (hist s') = (registered (hist s))(fd c \<mapsto> ?e)"
    "chans s' = (chans s)(p \<mapsto> c\<lparr>index := ?i\<rparr>)"
    by (simp_all add: s' update_conv')
  note poller_invD [OF assms(1)]
  then show "poller_inv s'"
    unfolding poller_inv_def Let_def s' using np
    by (auto simp: update_conv' distinct_update zle_add1_eq_le) force
  show "in_sync_but {p} s \<Longrightarrow> in_sync s'"
    unfolding in_sync_but_def s' using np by (auto simp: update_conv')
qed

lemma UpdateChannel_old:
  assumes "poller_inv s" "ctl_documented K" "chans s p = Some c" "0 \<le> index c"
    "map_of (channelMap (the_poller s)) (fd c) = Some p"
  obtains s' where "UpdateChannel K p s = Inr s'" "poller_inv s'"
    "the_poller s' = the_poller s" "chans s' = chans s"
    "registered (hist s') = (registered (hist s))(fd c \<mapsto> ucast (events c))"
    "s' = s\<lparr>hist := hist s'\<rparr>"
    "in_sync_but {p} s \<Longrightarrow> in_sync s'"
proof -
  let ?e = "ucast (events c) :: mask"
  let ?s = "s\<lparr>hist := hist s @ [SysEpollCtl EPOLL_CTL_MOD (fd c) ?e None]\<rparr>"
  have reg: "registered (hist s) (fd c) \<noteq> None"
    using poller_invD(4) [OF assms(1)] assms(5) by auto
  then have "k_ctl K (hist s) EPOLL_CTL_MOD (fd c) ?e = None"
    using ctl_mod_del [OF assms(2)] by simp
  then have 1: "UpdateChannel K p s = Inr ?s"
    using assms(3,4) by (simp add: UpdateChannel_def base_frame)
  have 2: "poller_inv ?s"
    using assms(1) reg unfolding poller_inv_def Let_def by auto
  have "in_sync ?s" if "in_sync_but {p} s"
    unfolding in_sync_but_def
  proof (intro allI impI)
    fix f q d
    assume "map_of (channelMap (the_poller ?s)) f = Some q" "chans ?s q = Some d"
    with that assms(3,5) channelMap_other [OF assms(1,5), of f q]
    show "registered (hist ?s) f = Some (ucast (events d))"
      by (cases "f = fd c") (auto simp: in_sync_but_def)
  qed
  with 1 2 that [of ?s] show thesis by simp
qed

lemma RemoveChannel_mapped:
  assumes "poller_inv s" "ctl_documented K" "chans s p = Some c"
    "map_of (channelMap (the_poller s)) (fd c) = Some p"
  obtains s' where "RemoveChannel K p s = Inr s'" "poller_inv s'" "chans s' = chans s"
    "map_of (channelMap (the_poller s')) = (map_of (channelMap (the_poller s)))(fd c := None)"
    "registered (hist s') = (registered (hist s))(fd c := None)"
    "in_sync_but {p} s \<Longrightarrow> in_sync s'"
    "s' = s\<lparr>hist := hist s', the_poller := the_poller s'\<rparr>"
proof -
  let ?P = "the_poller s"
  let ?s = "s\<lparr>hist := hist s @ [SysEpollCtl EPOLL_CTL_DEL (fd c) 0 None],
      the_poller := ?P\<lparr>channelMap := AList.delete (fd c) (channelMap ?P)\<rparr>\<rparr>"
  note inv = poller_invD [OF assms(1)]
  have reg: "registered (hist s) (fd c) \<noteq> None" using inv(4) assms(4) by auto
  then have "k_ctl K (hist s) EPOLL_CTL_DEL (fd c) 0 = None"
    using ctl_mod_del [OF assms(2)] by simp
  moreover have "\<not> index c < 0" using inv(5) [OF assms(4)] assms(3) by auto
  ultimately have 1: "RemoveChannel K p s = Inr ?s"
    using assms(3) by (simp add: RemoveChannel_def base_frame)
  have 2: "poller_inv ?s"
    unfolding poller_inv_def Let_def using inv by (auto simp: delete_conv' distinct_delete)
  have 3: "in_sync_but {p} s \<Longrightarrow> in_sync ?s"
    unfolding in_sync_but_def using channelMap_other [OF assms(1,4)]
    by (force simp: delete_conv' split: if_splits)
  show thesis
    by (rule that [OF 1 2]) (simp_all add: delete_conv' 3)
qed

section \<open>Polling\<close>

lemma poller_inv_chan:
  assumes "poller_inv s" "chans s p = Some c" "fd c' = fd c" "index c' = index c"
  shows "poller_inv (upd_chan p c' s)"
  using assms unfolding poller_inv_def Let_def upd_chan_def by fastforce

lemma in_sync_chan:
  assumes "in_sync_but A s" "chans s p = Some c" "events c' = events c"
  shows "in_sync_but A (upd_chan p c' s)"
  using assms unfolding in_sync_but_def upd_chan_def by auto

lemma epoll_wait_loop_retry:
  fixes s :: "('h, 'z) base_scheme"
  assumes "n = eventListLen (the_poller s)"
    "\<And>j. j < k \<Longrightarrow> k_wait K (hist s @ replicate j (SysEpollWait n (Inl EINTR))) n = Inl EINTR"
    "k_wait K (hist s @ replicate k (SysEpollWait n (Inl EINTR))) n = Inr evs"
  shows "epoll_wait_loop K s = Some (Inr (evs, s\<lparr>hist := hist s @
      replicate k (SysEpollWait n (Inl EINTR)) @ [SysEpollWait n (Inr evs)]\<rparr>))"
  using assms
proof (induction k arbitrary: s)
  case 0
  then show ?case by (subst epoll_wait_loop.simps) simp
next
  case (Suc k)
  let ?s = "s\<lparr>hist := hist s @ [SysEpollWait n (Inl EINTR)]\<rparr>"
  have "epoll_wait_loop K ?s = Some (Inr (evs, ?s\<lparr>hist := hist ?s @
      replicate k (SysEpollWait n (Inl EINTR)) @ [SysEpollWait n (Inr evs)]\<rparr>))"
    using Suc.prems(1) Suc.prems(2) [of "Suc _"] Suc.prems(3) by (intro Suc.IH) simp_all
  moreover have "k_wait K (hist s) n = Inl EINTR" using Suc.prems(2) [of 0] by simp
  ultimately show ?case
    using Suc.prems(1) by (subst epoll_wait_loop.simps) (simp add: Let_def)
qed

lemma fill_active_ok:
  fixes s :: "('h, 'z) base_scheme"
  assumes "poller_inv s" "in_sync s" "fst ` set evs \<subseteq> dom (map_of (channelMap (the_poller s)))"
    "distinct (map fst evs)"
  shows "\<exists>s'. fill_active evs s = Inr (map (\<lambda>(f, e). the (map_of (channelMap (the_poller s)) f)) evs, s')
    \<and> poller_inv s' \<and> in_sync s' \<and> s' = s\<lparr>chans := chans s'\<rparr>
    \<and> (\<forall>(f, e) \<in> set evs. chans s' (the (map_of (channelMap (the_poller s)) f)) =
         map_option (SetRevent (ucast e)) (chans s (the (map_of (channelMap (the_poller s)) f))))
    \<and> (\<forall>p. p \<notin> (\<lambda>(f, e). the (map_of (channelMap (the_poller s)) f)) ` set evs \<longrightarrow> chans s' p = chans s p)"
  using assms
proof (induction evs arbitrary: s)
  case Nil
  then show ?case by simp
next
  case (Cons ev evs)
  obtain f e where ev: "ev = (f, e)" by (cases ev)
  let ?cm = "map_of (channelMap (the_poller s))"
  obtain p where p: "?cm f = Some p" using Cons.prems(3) ev by auto
  obtain c where c: "chans s p = Some c" using poller_invD(5) [OF Cons.prems(1) p] by auto
  let ?s = "upd_chan p (SetRevent (ucast e) c) s"
  have s1: "poller_inv ?s" "in_sync ?s"
    using Cons.prems(1,2) c
    by (auto intro: poller_inv_chan in_sync_chan simp: SetRevent_def)
  have np: "p \<noteq> the (?cm g)" if "(g, d) \<in> set evs" for g d
  proof -
    have "g \<in> dom ?cm" "g \<noteq> f" using Cons.prems(3,4) ev that by (auto simp: image_subset_iff) force
    then show ?thesis using channelMap_inj [OF Cons.prems(1) p, of g] by auto
  qed
  have frame: "the_poller ?s = the_poller s" "hist ?s = hist s" "chans ?s = (chans s)(p \<mapsto> SetRevent (ucast e) c)"
    by (auto simp: upd_chan_def)
  obtain s' where s': "fill_active evs ?s = Inr (map (\<lambda>(f, e). the (?cm f)) evs, s')"
      "poller_inv s'" "in_sync s'" "s' = ?s\<lparr>chans := chans s'\<rparr>"
      "\<forall>(f, e) \<in> set evs. chans s' (the (?cm f)) = map_option (SetRevent (ucast e)) (chans ?s (the (?cm f)))"
      "\<forall>q. q \<notin> (\<lambda>(f, e). the (?cm f)) ` set evs \<longrightarrow> chans s' q = chans ?s q"
    using Cons.IH [OF s1] Cons.prems(3,4) frame by auto
  have hd: "chans s' p = Some (SetRevent (ucast e) c)" using s'(6) np frame by fastforce
  have tl: "\<forall>(f, e) \<in> set evs. chans s' (the (?cm f)) = map_option (SetRevent (ucast e)) (chans s (the (?cm f)))"
    using s'(5) np frame by fastforce
  have eq: "s' = s\<lparr>chans := chans s'\<rparr>" using s'(4) by (simp add: upd_chan_def)
  show ?case
    using p c s' hd tl eq frame by (auto simp: ev deref_chan_def intro!: exI [of _ s'])
qed

section \<open>Properties\<close>

text \<open>C7. A poll delivers what the kernel reported: when \<^verbatim>\<open>epoll_wait\<close> is interrupted any finite
  number of times and then reports events, the retry loop ends, no lookup in \<^verbatim>\<open>channelMap\<close>
  yields \<^verbatim>\<open>nil\<close>, the result lists one channel per event, in order, each with its reported
  events recorded and otherwise unchanged, no other channel changes, and the event array
  doubles exactly when the kernel filled it.\<close>

theorem Poll_delivers:
  fixes s :: "('h, 'z) base_scheme"
  assumes "poller_inv s" "in_sync s" "wait_documented K" "n = eventListLen (the_poller s)"
    "\<And>j. j < k \<Longrightarrow> k_wait K (hist s @ replicate j (SysEpollWait n (Inl EINTR))) n = Inl EINTR"
    "k_wait K (hist s @ replicate k (SysEpollWait n (Inl EINTR))) n = Inr evs"
  shows "\<exists>ps s'. Poll K s = Some (Inr (ps, s')) \<and> poller_inv s' \<and> in_sync s'
    \<and> map Some ps = map (\<lambda>(f, e). map_of (channelMap (the_poller s)) f) evs
    \<and> (\<forall>(p, f, e) \<in> set (zip ps evs). chans s p \<noteq> None \<and>
         chans s' p = map_option (SetRevent (ucast e)) (chans s p))
    \<and> (\<forall>p. p \<notin> set ps \<longrightarrow> chans s' p = chans s p)
    \<and> eventListLen (the_poller s') = (if length evs = n then 2 * n else n)"
proof -
  let ?cm = "map_of (channelMap (the_poller s))"
  let ?h = "hist s @ replicate k (SysEpollWait n (Inl EINTR)) @ [SysEpollWait n (Inr evs)]"
  let ?s = "s\<lparr>hist := ?h\<rparr>"
  have reg: "registered ?h = registered (hist s)"
    by (intro registered_neutrals) (simp add: list_all_iff)
  have wait: "epoll_wait_loop K s = Some (Inr (evs, ?s))"
    by (rule epoll_wait_loop_retry [OF assms(4-6)])
  have s1: "poller_inv ?s" "in_sync ?s"
    using assms(1,2) reg by (auto simp: poller_inv_def in_sync_but_def)
  have "fst ` set evs \<subseteq> dom (registered (hist s @ replicate k (SysEpollWait n (Inl EINTR))))"
    and dist: "distinct (map fst evs)"
    using assms(3,6) unfolding wait_documented_def by blast+
  then have ev: "fst ` set evs \<subseteq> dom ?cm"
    by (simp add: registered_neutrals list_all_iff poller_invD(4) [OF assms(1)])
  obtain s2 where s2: "fill_active evs ?s = Inr (map (\<lambda>(f, e). the (?cm f)) evs, s2)"
      "poller_inv s2" "in_sync s2" "s2 = ?s\<lparr>chans := chans s2\<rparr>"
      "\<forall>(f, e) \<in> set evs. chans s2 (the (?cm f)) = map_option (SetRevent (ucast e)) (chans s (the (?cm f)))"
      "\<forall>p. p \<notin> (\<lambda>(f, e). the (?cm f)) ` set evs \<longrightarrow> chans s2 p = chans s p"
    using fill_active_ok [OF s1, of evs] ev dist by auto
  define s' where "s' = (if length evs = n
      then s2\<lparr>the_poller := (the_poller s2)\<lparr>eventListLen := 2 * n\<rparr>\<rparr> else s2)"
  have P: "the_poller s2 = the_poller s" using s2(4) by (metis base.select_convs(3) base.update_convs(1,2) base.surjective)
  have Pn: "eventListLen (the_poller s2) = n" using P assms(4) by simp
  have "Poll K s = Some (Inr (map (\<lambda>(f, e). the (?cm f)) evs, s'))"
    by (simp add: Poll_def wait s2(1) Let_def s'_def Pn)
  moreover have "poller_inv s'" "in_sync s'" "chans s' = chans s2"
    using s2(2,3) Pn by (auto simp: s'_def poller_inv_def in_sync_but_def Let_def)
  moreover have "eventListLen (the_poller s') = (if length evs = n then 2 * n else n)"
    using Pn by (simp add: s'_def)
  moreover have "map Some (map (\<lambda>(f, e). the (?cm f)) evs) = map (\<lambda>(f, e). ?cm f) evs"
    using ev by (force simp: image_subset_iff)
  moreover have "\<forall>(p, f, e) \<in> set (zip (map (\<lambda>(f, e). the (?cm f)) evs) evs). chans s p \<noteq> None \<and>
         chans s2 p = map_option (SetRevent (ucast e)) (chans s p)"
    using s2(5) ev poller_invD(5) [OF assms(1)]
    by (fastforce simp: zip_map1 zip_same_conv_map image_subset_iff)
  ultimately show ?thesis using s2(6) by (intro exI conjI) auto
qed

text \<open>A state with one registered channel, for concrete runs.\<close>

definition sample_base :: "unit base" where
  "sample_base = \<lparr>hist = [SysEpollCtl EPOLL_CTL_ADD 5 1 None],
     chans = [0 \<mapsto> \<lparr>fd = 5, events = 1, revents = 0, index = 1,
        readCallback = None, writeCallback = None\<rparr>],
     the_poller = \<lparr>epollFD = 3, channelMap = [(5, 0)], eventListLen = 128, idxCounter = 1\<rparr>\<rparr>"

lemma sample_base_inv: "poller_inv sample_base" "in_sync sample_base"
  by (auto simp: sample_base_def poller_inv_def in_sync_but_def registered_def Let_def)

text \<open>Concrete run: one uninterrupted wait that reports the registered descriptor readable.\<close>

theorem Poll_delivers_witness:
  "\<exists>ps s'. Poll (sample_kernel [(5, 1)]) sample_base = Some (Inr (ps, s')) \<and> ps = [0]
     \<and> map_option revents (chans s' 0) = Some 1"
proof -
  have w: "wait_documented (sample_kernel [(5, 1)])" by (rule sample_wait) simp
  have k: "k_wait (sample_kernel [(5, 1)]) (hist sample_base @ replicate 0 (SysEpollWait 128 (Inl EINTR))) 128
      = Inr [(5, 1)]"
    by (simp add: sample_kernel_def sample_base_def registered_def)
  have n: "128 = eventListLen (the_poller sample_base)" by (simp add: sample_base_def)
  show ?thesis
    using Poll_delivers [OF sample_base_inv w n _ k]
    by (auto simp: sample_base_def SetRevent_def)
qed

text \<open>C8. Registration keeps \<^verbatim>\<open>channelMap\<close>, the channels and the kernel's interest list in
  agreement. For a channel that is new or is the one mapped under its descriptor, and all other
  channels in sync: a successful \<^verbatim>\<open>UpdateChannel\<close> keeps the invariant, makes the kernel watch
  exactly the channel's mask, and adds one to the channel count only for a new channel; neither
  \<^verbatim>\<open>UpdateChannel\<close> nor \<^verbatim>\<open>RemoveChannel\<close> panics on a mapped channel; \<^verbatim>\<open>RemoveChannel\<close> keeps the
  invariant, ends the kernel's interest in the descriptor and subtracts one.\<close>

theorem registration_agrees:
  fixes s :: "('h, 'z) base_scheme"
  assumes "poller_inv s" "in_sync_but {p} s" "ctl_documented K" "chans s p = Some c"
    "0 \<le> index c \<longrightarrow> map_of (channelMap (the_poller s)) (fd c) = Some p"
  shows "(\<forall>s'. UpdateChannel K p s = Inr s' \<longrightarrow> poller_inv s' \<and> in_sync s' \<and>
        registered (hist s') = (registered (hist s))(fd c \<mapsto> ucast (events c)) \<and>
        GetChannelCount s' = GetChannelCount s + (if index c < 0 then 1 else 0))
    \<and> (0 \<le> index c \<longrightarrow> is_ok (UpdateChannel K p s) \<and>
        (\<exists>s'. RemoveChannel K p s = Inr s' \<and> poller_inv s' \<and> in_sync s' \<and>
          registered (hist s') = (registered (hist s))(fd c := None) \<and>
          GetChannelCount s' = GetChannelCount s - 1))
    \<and> (index c < 0 \<longrightarrow> RemoveChannel K p s = Inl (PanicMsg ''remove non-exist channel''))"
proof (cases "index c < 0")
  case True
  have "poller_inv s' \<and> in_sync s' \<and>
      registered (hist s') = (registered (hist s))(fd c \<mapsto> ucast (events c)) \<and>
      GetChannelCount s' = GetChannelCount s + 1" if "UpdateChannel K p s = Inr s'" for s'
  proof -
    note new = UpdateChannel_new [OF assms(1,3,4) True that]
    have fin: "finite (dom (registered (hist s)))"
      using poller_invD(4) [OF assms(1)] by (metis finite_dom_map_of)
    have "GetChannelCount s' = GetChannelCount s + 1"
        using new(4) fin unfolding count_card [OF new(1)] count_card [OF assms(1)] new(3)
      by (simp add: domIff)
    with new(1,3) new(6) [OF assms(2)] show ?thesis by simp
  qed
  with True assms(4) show ?thesis by (auto simp: RemoveChannel_def deref_chan_def)
next
  case False
  then have m: "map_of (channelMap (the_poller s)) (fd c) = Some p" "0 \<le> index c"
    using assms(5) by auto
  have d: "fd c \<in> dom (registered (hist s))" "finite (dom (registered (hist s)))"
    using poller_invD(4) [OF assms(1)] m(1) by (metis domI, metis finite_dom_map_of)
  obtain s1 where u: "UpdateChannel K p s = Inr s1" "poller_inv s1" "in_sync s1"
      "registered (hist s1) = (registered (hist s))(fd c \<mapsto> ucast (events c))"
      "the_poller s1 = the_poller s"
    using UpdateChannel_old [OF assms(1,3,4) m(2,1)] assms(2) by metis
  obtain s2 where r: "RemoveChannel K p s = Inr s2" "poller_inv s2" "in_sync s2"
      "registered (hist s2) = (registered (hist s))(fd c := None)"
    using RemoveChannel_mapped [OF assms(1,3,4) m(1)] assms(2) by metis
  have "GetChannelCount s2 = GetChannelCount s - 1"
    unfolding count_card [OF r(2)] count_card [OF assms(1)] r(4)
    by (rule card_dom_remove [OF d(2,1)])
  with u r False show ?thesis by (simp add: GetChannelCount_def)
qed

text \<open>Concrete run: the registered channel of the sample state is updated and removed.\<close>

theorem registration_agrees_witness:
  "is_ok (UpdateChannel (sample_kernel []) 0 sample_base)
   \<and> (\<exists>s'. RemoveChannel (sample_kernel []) 0 sample_base = Inr s' \<and> GetChannelCount s' = 0
        \<and> registered (hist s') 5 = None)"
proof -
  let ?c = "\<lparr>fd = 5, events = 1, revents = 0, index = 1, readCallback = None, writeCallback = None\<rparr>"
  have c: "chans sample_base 0 = Some ?c" and n: "GetChannelCount sample_base = 1"
    by (simp_all add: sample_base_def GetChannelCount_def)
  have y: "in_sync_but {0} sample_base"
    using sample_base_inv(2) by (simp add: in_sync_but_def)
  have m: "0 \<le> index ?c \<longrightarrow> map_of (channelMap (the_poller sample_base)) (fd ?c) = Some 0"
    by (simp add: sample_base_def)
  show ?thesis
    using registration_agrees [OF sample_base_inv(1) y sample_ctl [of "[]"] c m] n by auto
qed

end
