(* ===== verification/Timer_Queue.thy ===== *)
theory Timer_Queue
  imports Heap_Array Poller
begin

text \<open>
  The timer queue of \<^verbatim>\<open>pkg/event_loop/timer_queue.go\<close>: a heap of entries ordered by deadline
  and identifier, and one timerfd armed for the earliest. A \<^verbatim>\<open>time.Time\<close> is an instant in
  nanoseconds, a \<^verbatim>\<open>time.Duration\<close> a number of nanoseconds; \<^verbatim>\<open>Time.Sub\<close> saturates at the
  64-bit range. A callback is a name of type \<open>'f\<close>.
\<close>

section \<open>State\<close>

record 'f timerHeapEntry =
  timerId :: int
  TimeStamp :: int
  onTimer :: 'f
  interval :: int

definition th_Less :: "'f timerHeapEntry \<Rightarrow> 'f timerHeapEntry \<Rightarrow> bool" where
  "th_Less x y =
     (if TimeStamp x = TimeStamp y then timerId x < timerId y else TimeStamp x < TimeStamp y)"

record 'f timerQueue =
  timerChannel :: nat
  timerIdCounter :: int
  theap :: "'f timerHeapEntry list"

record ('h, 'f) tbase = "'h base" +
  timerQ :: "'f timerQueue"

definition tkey :: "'f timerHeapEntry \<Rightarrow> int \<times> int" where
  "tkey x = (TimeStamp x, timerId x)"

interpretation th: heap_order th_Less tkey
  by unfold_locales (auto simp: th_Less_def tkey_def)

section \<open>Operations\<close>

definition time_Sub :: "int \<Rightarrow> int \<Rightarrow> int" where
  "time_Sub t u = max (- (2 ^ 63)) (min (2 ^ 63 - 1) (t - u))"

definition set_heap :: "'f timerHeapEntry list \<Rightarrow> ('h, 'f, 'z) tbase_scheme \<Rightarrow> ('h, 'f, 'z) tbase_scheme" where
  "set_heap xs s = s\<lparr>timerQ := (timerQ s)\<lparr>theap := xs\<rparr>\<rparr>"

definition time_Now :: "kernel \<Rightarrow> ('h, 'z) base_scheme \<Rightarrow> int \<times> ('h, 'z) base_scheme" where
  "time_Now K s = (let t = k_now K (hist s) in (t, s\<lparr>hist := hist s @ [SysNow t]\<rparr>))"

text \<open>\<^verbatim>\<open>timerfd_settime\<close> with the flags the source passes (2) and the relative time \<open>nsec\<close>,
  split into seconds and nanoseconds; a failure panics.\<close>

definition timerfd_settime :: "kernel \<Rightarrow> int \<Rightarrow> ('h, 'f, 'z) tbase_scheme \<Rightarrow> ('h, 'f, 'z) tbase_scheme res" where
  "timerfd_settime K nsec s =
     rbind (deref_chan (timerChannel (timerQ s)) s) (\<lambda>c.
       let sec = nsec div 1000000000; ns = nsec mod 1000000000;
           r = k_settime K (hist s) (fd c) 2 sec ns;
           s1 = s\<lparr>hist := hist s @ [SysTimerfdSettime (fd c) 2 sec ns r]\<rparr>
       in case r of Some e \<Rightarrow> Inl (PanicErr e) | None \<Rightarrow> Inr s1)"

definition AddTimer :: "kernel \<Rightarrow> int \<Rightarrow> int \<Rightarrow> 'f \<Rightarrow> ('h, 'f, 'z) tbase_scheme
    \<Rightarrow> (int \<times> ('h, 'f, 'z) tbase_scheme) res" where
  "AddTimer K triggerAt itv f s =
     (let tq = timerQ s; i = timerIdCounter tq + 1;
          hp = heap_Push th_Less
            \<lparr>timerId = i, TimeStamp = triggerAt, onTimer = f, interval = itv\<rparr> (theap tq);
          s1 = s\<lparr>timerQ := tq\<lparr>timerIdCounter := i, theap := hp\<rparr>\<rparr>
      in case time_Now K s1 of (now, s2) \<Rightarrow>
           let earliest = TimeStamp (hp ! 0);
               nsec = (if now < earliest then time_Sub earliest now else 1)
           in rbind (timerfd_settime K nsec s2) (\<lambda>s3. Inr (i, s3)))"

definition CancelTimer :: "int \<Rightarrow> ('h, 'f, 'z) tbase_scheme \<Rightarrow> bool \<times> ('h, 'f, 'z) tbase_scheme" where
  "CancelTimer i s =
     (list_ex (\<lambda>v. timerId v = i) (theap (timerQ s)),
      set_heap (filter (\<lambda>v. timerId v \<noteq> i) (theap (timerQ s))) s)"

text \<open>The loop of \<^verbatim>\<open>getExpired\<close>. It need not end (a negative interval keeps an entry in the
  past), so the result is an option; the inner result is a panic of \<^verbatim>\<open>heap.Pop\<close>.\<close>

partial_function (option) expire_loop :: "int \<Rightarrow> 'f timerHeapEntry list \<Rightarrow> 'f timerHeapEntry list
    \<Rightarrow> ('f timerHeapEntry list \<times> 'f timerHeapEntry list) res option" where
  "expire_loop now te hp =
     (if hp = [] then Some (Inr (te, hp))
      else let minOne = hp ! 0
           in if TimeStamp minOne < now then
                (case heap_Pop th_Less hp of
                   Inl e \<Rightarrow> Some (Inl e)
                 | Inr (x, hp1) \<Rightarrow>
                     expire_loop now (te @ [minOne])
                       (if interval minOne \<noteq> 0
                        then heap_Push th_Less (minOne\<lparr>TimeStamp := TimeStamp minOne + interval minOne\<rparr>) hp1
                        else hp1))
              else Some (Inr (te, hp)))"

definition getExpired :: "kernel \<Rightarrow> ('h, 'f, 'z) tbase_scheme
    \<Rightarrow> ('f timerHeapEntry list \<times> ('h, 'f, 'z) tbase_scheme) res option" where
  "getExpired K s =
     (case time_Now K s of (now, s1) \<Rightarrow>
      map_option (\<lambda>r. rbind r (\<lambda>(te, hp).
        let s2 = set_heap hp s1
        in if hp = [] then Inr (te, s2)
           else case time_Now K s2 of (now2, s3) \<Rightarrow>
             let earliest = TimeStamp (hp ! 0);
                 nsec = (if now2 < earliest then time_Sub earliest now2 else 0)
             in rbind (timerfd_settime K nsec s3) (\<lambda>s4. Inr (te, s4))))
      (expire_loop now [] (theap (timerQ s1))))"

section \<open>What the timers owe: an abstract account\<close>

text \<open>The expirations an entry is due by \<open>now\<close>, oldest first, and the entry left afterwards.\<close>

function firings :: "int \<Rightarrow> 'f timerHeapEntry \<Rightarrow> 'f timerHeapEntry list" where
  "firings now e =
     (if TimeStamp e < now
      then e # (if 0 < interval e then firings now (e\<lparr>TimeStamp := TimeStamp e + interval e\<rparr>) else [])
      else [])"
  by pat_completeness auto
termination by (relation "measure (\<lambda>(now, e). nat (now - TimeStamp e))") auto

function remains :: "int \<Rightarrow> 'f timerHeapEntry \<Rightarrow> 'f timerHeapEntry list" where
  "remains now e =
     (if TimeStamp e < now
      then (if 0 < interval e then remains now (e\<lparr>TimeStamp := TimeStamp e + interval e\<rparr>) else [])
      else [e])"
  by pat_completeness auto
termination by (relation "measure (\<lambda>(now, e). nat (now - TimeStamp e))") auto

declare firings.simps [simp del] remains.simps [simp del]

definition all_due :: "int \<Rightarrow> 'f timerHeapEntry multiset \<Rightarrow> 'f timerHeapEntry multiset" where
  "all_due now M = (\<Sum>e\<in>#M. mset (firings now e))"

definition all_left :: "int \<Rightarrow> 'f timerHeapEntry multiset \<Rightarrow> 'f timerHeapEntry multiset" where
  "all_left now M = (\<Sum>e\<in>#M. mset (remains now e))"

definition wait_weight :: "int \<Rightarrow> 'f timerHeapEntry multiset \<Rightarrow> nat" where
  "wait_weight now M = (\<Sum>e\<in>#M. nat (now - TimeStamp e))"

lemmas due_defs = all_due_def all_left_def wait_weight_def

lemma due_add [simp]:
  "all_due now (add_mset e M) = mset (firings now e) + all_due now M"
  "all_left now (add_mset e M) = mset (remains now e) + all_left now M"
  "wait_weight now (add_mset e M) = nat (now - TimeStamp e) + wait_weight now M"
  by (auto simp: due_defs)

lemma firings_cases:
  "now \<le> TimeStamp e \<Longrightarrow> firings now e = []"
  "TimeStamp e < now \<Longrightarrow> interval e \<le> 0 \<Longrightarrow> firings now e = [e]"
  "TimeStamp e < now \<Longrightarrow> 0 < interval e \<Longrightarrow>
     firings now e = e # firings now (e\<lparr>TimeStamp := TimeStamp e + interval e\<rparr>)"
  by (subst firings.simps; simp)+

lemma remains_cases:
  "now \<le> TimeStamp e \<Longrightarrow> remains now e = [e]"
  "TimeStamp e < now \<Longrightarrow> interval e \<le> 0 \<Longrightarrow> remains now e = []"
  "TimeStamp e < now \<Longrightarrow> 0 < interval e \<Longrightarrow>
     remains now e = remains now (e\<lparr>TimeStamp := TimeStamp e + interval e\<rparr>)"
  by (subst remains.simps; simp)+

lemma due_none:
  assumes "\<forall>e \<in># M. now \<le> TimeStamp e"
  shows "all_due now M = {#}" "all_left now M = M"
  using assms
  by (induction M) (auto simp: firings_cases remains_cases simp: all_due_def all_left_def)

text \<open>Every expiration is due, belongs to its timer, and comes no earlier than its first.\<close>

lemma firings_sound:
  "x \<in> set (firings now e) \<Longrightarrow>
     TimeStamp x < now \<and> timerId x = timerId e \<and> onTimer x = onTimer e \<and> tkey e \<le> tkey x"
proof (induction now e rule: firings.induct)
  case (1 now e)
  let ?e = "e\<lparr>TimeStamp := TimeStamp e + interval e\<rparr>"
  consider "now \<le> TimeStamp e" | "TimeStamp e < now" "interval e \<le> 0"
    | "TimeStamp e < now" "0 < interval e"
    by linarith
  then show ?case
  proof cases
    case 3
    then have "x = e \<or> x \<in> set (firings now ?e)" using "1.prems" by (simp add: firings_cases)
    then show ?thesis
    proof
      assume "x \<in> set (firings now ?e)"
      with "1.IH" 3 have "TimeStamp x < now \<and> timerId x = timerId e \<and> onTimer x = onTimer e \<and> tkey ?e \<le> tkey x"
        by simp
      moreover have "tkey e \<le> tkey ?e" using 3 by (simp add: tkey_def)
      ultimately show ?thesis by auto
    qed (use 3 in auto)
  qed (use "1.prems" in \<open>auto simp: firings_cases\<close>)
qed

lemma all_due_iff: "x \<in># all_due now M \<longleftrightarrow> (\<exists>e \<in># M. x \<in> set (firings now e))"
  by (auto simp: all_due_def)

section \<open>Draining the heap\<close>

text \<open>One round of the loop: the root fires, and goes back later if it is periodic.\<close>

definition next_heap :: "'f timerHeapEntry \<Rightarrow> 'f timerHeapEntry list \<Rightarrow> 'f timerHeapEntry list" where
  "next_heap m hp1 = (if interval m \<noteq> 0
     then heap_Push th_Less (m\<lparr>TimeStamp := TimeStamp m + interval m\<rparr>) hp1 else hp1)"

lemma expire_round:
  assumes "is_heap tkey hp" "hp \<noteq> []" "TimeStamp (hp ! 0) < now" "\<forall>e \<in> set hp. 0 \<le> interval e"
  obtains hp2 where "expire_loop now te hp = expire_loop now (te @ [hp ! 0]) hp2"
    "is_heap tkey hp2" "\<forall>e \<in> set hp2. 0 \<le> interval e \<and> tkey (hp ! 0) \<le> tkey e"
    "wait_weight now (mset hp2) < wait_weight now (mset hp)"
    "all_due now (mset hp) = add_mset (hp ! 0) (all_due now (mset hp2))"
    "all_left now (mset hp) = all_left now (mset hp2)"
proof -
  let ?m = "hp ! 0"
  let ?m' = "?m\<lparr>TimeStamp := TimeStamp ?m + interval ?m\<rparr>"
  obtain hp1 where p: "heap_Pop th_Less hp = Inr (?m, hp1)" "is_heap tkey hp1"
      "mset hp = add_mset ?m (mset hp1)"
    using th.Pop_heap [OF assms(1,2)] by blast
  have m: "?m \<in> set hp" using assms(2) by (cases hp) auto
  have sub: "set hp1 \<subseteq> set hp" using p(3) by (metis set_mset_add_mset_insert set_mset_mset subset_insertI)
  have root: "\<forall>e \<in> set hp. tkey ?m \<le> tkey e" using is_heap_root [OF assms(1)] by blast
  let ?hp2 = "next_heap ?m hp1"
  have run: "expire_loop now te hp = expire_loop now (te @ [?m]) ?hp2"
    using assms(2,3) p(1) by (subst expire_loop.simps) (simp add: Let_def next_heap_def)
  show thesis
  proof (cases "interval ?m = 0")
    case True
    then have "?hp2 = hp1" by (simp add: next_heap_def)
    with run p sub root assms(3,4) True m show thesis
      by (intro that [of ?hp2]) (auto simp: firings_cases remains_cases)
  next
    case False
    with assms(4) m have itv: "0 < interval ?m" by fastforce
    have hp2: "is_heap tkey ?hp2" "mset ?hp2 = add_mset ?m' (mset hp1)"
      using th.Push_heap [OF p(2)] False by (auto simp: next_heap_def)
    have set2: "set ?hp2 = insert ?m' (set hp1)"
      using hp2(2) by (metis set_mset_add_mset_insert set_mset_mset)
    have w: "nat (now - TimeStamp ?m') < nat (now - TimeStamp ?m)" using itv assms(3) by auto
    have "tkey ?m \<le> tkey ?m'" using itv by (simp add: tkey_def)
    with run hp2 set2 sub root assms(3,4) itv m p(3) w show thesis
      by (intro that [of ?hp2]) (auto simp: firings_cases remains_cases)
  qed
qed

lemma expire_loop_spec:
  assumes "is_heap tkey hp" "\<forall>e \<in> set hp. 0 \<le> interval e"
  shows "\<exists>due left. expire_loop now te hp = Some (Inr (te @ due, left))
    \<and> is_heap tkey left \<and> mset due = all_due now (mset hp) \<and> mset left = all_left now (mset hp)
    \<and> sorted_wrt (\<lambda>x y. tkey x \<le> tkey y) due \<and> (\<forall>e \<in> set left. now \<le> TimeStamp e)"
  using assms
proof (induction "wait_weight now (mset hp)" arbitrary: te hp rule: less_induct)
  case less
  show ?case
  proof (cases "hp \<noteq> [] \<and> TimeStamp (hp ! 0) < now")
    case True
    then obtain hp2 where r: "expire_loop now te hp = expire_loop now (te @ [hp ! 0]) hp2"
        "is_heap tkey hp2" "\<forall>e \<in> set hp2. 0 \<le> interval e \<and> tkey (hp ! 0) \<le> tkey e"
        "wait_weight now (mset hp2) < wait_weight now (mset hp)"
        "all_due now (mset hp) = add_mset (hp ! 0) (all_due now (mset hp2))"
        "all_left now (mset hp) = all_left now (mset hp2)"
      using expire_round [OF less.prems(1) _ _ less.prems(2), of now te] by metis
    from less.hyps [OF r(4,2), of "te @ [hp ! 0]"] r(3)
    obtain due left where d: "expire_loop now (te @ [hp ! 0]) hp2 = Some (Inr ((te @ [hp ! 0]) @ due, left))"
        "is_heap tkey left" "mset due = all_due now (mset hp2)" "mset left = all_left now (mset hp2)"
        "sorted_wrt (\<lambda>x y. tkey x \<le> tkey y) due" "\<forall>e \<in> set left. now \<le> TimeStamp e"
      by blast
    have "\<forall>x \<in> set due. tkey (hp ! 0) \<le> tkey x"
    proof
      fix x assume "x \<in> set due"
      then have "x \<in># all_due now (mset hp2)" by (simp flip: d(3))
      then obtain e where "e \<in> set hp2" "tkey e \<le> tkey x"
        using firings_sound by (auto simp: all_due_iff)
      with r(3) show "tkey (hp ! 0) \<le> tkey x" by (auto intro: order_trans)
    qed
    with r d show ?thesis by (intro exI [of _ "hp ! 0 # due"] exI [of _ left]) auto
  next
    case False
    then have stop: "expire_loop now te hp = Some (Inr (te, hp))"
      by (subst expire_loop.simps) (auto simp: Let_def)
    have late: "\<forall>e \<in> set hp. now \<le> TimeStamp e"
    proof
      fix e assume e: "e \<in> set hp"
      then have "tkey (hp ! 0) \<le> tkey e" "now \<le> TimeStamp (hp ! 0)"
        using is_heap_root [OF less.prems(1) e] False by (cases hp; auto)+
      then show "now \<le> TimeStamp e" by (auto simp: tkey_def less_eq_prod_def)
    qed
    then show ?thesis
      using stop less.prems(1) due_none [of "mset hp" now] by auto
  qed
qed

text \<open>Without any assumption on the order, as after a cancellation: the loop still ends, and what
  it fires is due.\<close>

lemma expire_loop_total:
  assumes "\<forall>e \<in> set hp. 0 \<le> interval e"
  shows "\<exists>due left. expire_loop now te hp = Some (Inr (te @ due, left))
    \<and> (\<forall>x \<in> set due. x \<in># all_due now (mset hp))
    \<and> mset due + all_due now (mset left) = all_due now (mset hp)
    \<and> all_left now (mset left) = all_left now (mset hp)"
  using assms
proof (induction "wait_weight now (mset hp)" arbitrary: te hp rule: less_induct)
  case less
  show ?case
  proof (cases "hp \<noteq> [] \<and> TimeStamp (hp ! 0) < now")
    case True
    let ?m = "hp ! 0"
    let ?m' = "?m\<lparr>TimeStamp := TimeStamp ?m + interval ?m\<rparr>"
    obtain hp1 where p: "heap_Pop th_Less hp = Inr (?m, hp1)" "mset hp = add_mset ?m (mset hp1)"
      using heap_Pop_perm(1,3) True by blast
    define hp2 where "hp2 = next_heap ?m hp1"
    have m: "0 \<le> interval ?m" using True less.prems by (cases hp) auto
    have step: "wait_weight now (mset hp2) < wait_weight now (mset hp)"
        "all_due now (mset hp) = add_mset ?m (all_due now (mset hp2))"
        "all_left now (mset hp) = all_left now (mset hp2)"
      using True m p(2)
      by (cases "interval ?m = 0";
          auto simp: hp2_def next_heap_def heap_Push_perm firings_cases remains_cases)+
    have "set_mset (mset hp2) \<subseteq> insert ?m' (set_mset (mset hp))"
      unfolding p(2) by (auto simp: hp2_def next_heap_def heap_Push_perm simp flip: set_mset_mset)
    then have "\<forall>e \<in> set hp2. 0 \<le> interval e" using less.prems m by auto
    from less.hyps [OF step(1) this, of "te @ [?m]"]
    obtain due left where d: "expire_loop now (te @ [?m]) hp2 = Some (Inr ((te @ [?m]) @ due, left))"
        "\<forall>x \<in> set due. x \<in># all_due now (mset hp2)"
        "mset due + all_due now (mset left) = all_due now (mset hp2)"
        "all_left now (mset left) = all_left now (mset hp2)"
      by blast
    have "expire_loop now te hp = expire_loop now (te @ [?m]) hp2"
      using True p(1) by (subst expire_loop.simps) (simp add: Let_def next_heap_def hp2_def)
    with d step show ?thesis by (intro exI [of _ "?m # due"] exI [of _ left]) auto
  next
    case False
    then have "expire_loop now te hp = Some (Inr (te, hp))"
      by (subst expire_loop.simps) (auto simp: Let_def)
    then show ?thesis by (intro exI [of _ "[]"] exI [of _ hp]) auto
  qed
qed

section \<open>Arming the timerfd\<close>

text \<open>\<^verbatim>\<open>timerfd_settime\<close> is documented to fail only for a bad descriptor, bad flags or a
  nanosecond field outside its range.\<close>

definition settime_documented :: "kernel \<Rightarrow> bool" where
  "settime_documented K \<longleftrightarrow>
     (\<forall>h f sec ns. 0 \<le> sec \<longrightarrow> 0 \<le> ns \<longrightarrow> ns < 1000000000 \<longrightarrow> k_settime K h f 2 sec ns = None)"

text \<open>The time, in nanoseconds, that the last successful call left on the timer of a history:
  0 means that the call disarmed it.\<close>

fun armed_step :: "sys_event \<Rightarrow> int option \<Rightarrow> int option" where
  "armed_step (SysTimerfdSettime f fl sec ns None) a = Some (sec * 1000000000 + ns)"
| "armed_step ev a = a"

definition armed :: "history \<Rightarrow> int option" where
  "armed h = fold armed_step h None"

definition timer_inv :: "('h, 'f, 'z) tbase_scheme \<Rightarrow> bool" where
  "timer_inv s \<longleftrightarrow> (let q = timerQ s in
     0 \<le> timerIdCounter q \<and> distinct (map timerId (theap q)) \<and>
     (\<forall>e \<in> set (theap q). 0 < timerId e \<and> timerId e \<le> timerIdCounter q) \<and>
     chans s (timerChannel q) \<noteq> None)"

lemma armed_snoc [simp]: "armed (h @ [ev]) = armed_step ev (armed h)"
  by (simp add: armed_def)

lemma timerfd_settime_ok:
  fixes s :: "('h, 'f, 'z) tbase_scheme"
  assumes "settime_documented K" "chans s (timerChannel (timerQ s)) \<noteq> None" "0 \<le> nsec"
  obtains s' where "timerfd_settime K nsec s = Inr s'" "armed (hist s') = Some nsec"
    "timerQ s' = timerQ s" "chans s' = chans s" "the_poller s' = the_poller s"
    "registered (hist s') = registered (hist s)"
proof -
  obtain c where c: "chans s (timerChannel (timerQ s)) = Some c" using assms(2) by auto
  let ?sec = "nsec div 1000000000" and ?ns = "nsec mod 1000000000"
  have "k_settime K (hist s) (fd c) 2 ?sec ?ns = None"
    using assms(1,3) unfolding settime_documented_def by (simp add: pos_imp_zdiv_nonneg_iff)
  then have "timerfd_settime K nsec s =
      Inr (s\<lparr>hist := hist s @ [SysTimerfdSettime (fd c) 2 ?sec ?ns None]\<rparr>)"
    using c by (simp add: timerfd_settime_def deref_chan_def Let_def)
  then show thesis by (rule that) simp_all
qed

lemma time_Sub_pos: "u < t \<Longrightarrow> time_Sub t u = min (t - u) (2 ^ 63 - 1) \<and> 0 < time_Sub t u"
  by (auto simp: time_Sub_def)

lemma length_filter_key:
  "distinct (map f xs) \<Longrightarrow> length (filter (\<lambda>v. f v = k) xs) = (if k \<in> f ` set xs then 1 else 0)"
  by (induction xs) (auto simp: filter_empty_conv)

lemma root_earliest:
  assumes "is_heap tkey hp" "hp \<noteq> []"
  shows "TimeStamp (hp ! 0) = Min (TimeStamp ` set hp)"
proof (rule Min_eqI [symmetric])
  show "TimeStamp (hp ! 0) \<in> TimeStamp ` set hp" using assms(2) by (cases hp) auto
  fix t assume "t \<in> TimeStamp ` set hp"
  then obtain e where "e \<in> set hp" "t = TimeStamp e" by blast
  with is_heap_root [OF assms(1)] show "TimeStamp (hp ! 0) \<le> t"
    by (fastforce simp: tkey_def less_eq_prod_def)
qed simp

section \<open>Properties\<close>

text \<open>C6. Adding a timer: from a heap-ordered queue with issued identifiers, the call does not
  panic, returns an identifier no pending timer has, stores exactly the new entry in
  addition, keeps the heap order and the identifier invariant, and leaves the timerfd
  armed, never disarmed, for the time until the earliest of all pending deadlines (capped
  at the 64-bit duration), or for one nanosecond when that deadline has passed.\<close>

theorem AddTimer_arms_earliest:
  fixes s :: "('h, 'f, 'z) tbase_scheme"
  assumes "timer_inv s" "is_heap tkey (theap (timerQ s))" "settime_documented K"
  defines "now \<equiv> k_now K (hist s)"
  shows "\<exists>i s'. AddTimer K t itv f s = Inr (i, s') \<and> i \<notin> timerId ` set (theap (timerQ s))
    \<and> mset (theap (timerQ s')) = add_mset
        \<lparr>timerId = i, TimeStamp = t, onTimer = f, interval = itv\<rparr> (mset (theap (timerQ s)))
    \<and> timer_inv s' \<and> is_heap tkey (theap (timerQ s'))
    \<and> (let earliest = Min (TimeStamp ` set (theap (timerQ s'))) in
        armed (hist s') = Some (if now < earliest then min (earliest - now) (2 ^ 63 - 1) else 1))"
proof -
  let ?q = "timerQ s"
  define i where "i = timerIdCounter ?q + 1"
  define e where "e = \<lparr>timerId = i, TimeStamp = t, onTimer = f, interval = itv\<rparr>"
  define hp where "hp = heap_Push th_Less e (theap ?q)"
  have hp: "is_heap tkey hp" "mset hp = add_mset e (mset (theap ?q))"
    using th.Push_heap [OF assms(2)] by (auto simp: hp_def)
  then have ne: "hp \<noteq> []" and set_hp: "set hp = insert e (set (theap ?q))"
    by (metis empty_not_add_mset mset.simps(1), metis set_mset_add_mset_insert set_mset_mset)
  define s1 where "s1 = s\<lparr>timerQ := ?q\<lparr>timerIdCounter := i, theap := hp\<rparr>, hist := hist s @ [SysNow now]\<rparr>"
  define w where "w = (if now < TimeStamp (hp ! 0) then time_Sub (TimeStamp (hp ! 0)) now else 1)"
  have "chans s1 (timerChannel (timerQ s1)) \<noteq> None" "0 \<le> w"
    using assms(1) time_Sub_pos by (auto simp: timer_inv_def Let_def s1_def w_def less_imp_le)
  then obtain s2 where s2: "timerfd_settime K w s1 = Inr s2" "armed (hist s2) = Some w"
      "timerQ s2 = timerQ s1" "chans s2 = chans s1"
    using timerfd_settime_ok [OF assms(3), of s1 w] by metis
  have "AddTimer K t itv f s = rbind (timerfd_settime K w s1) (\<lambda>s3. Inr (i, s3))"
    unfolding AddTimer_def Let_def time_Now_def i_def [symmetric] e_def [symmetric] hp_def [symmetric]
    by (simp add: s1_def w_def now_def)
  then have run: "AddTimer K t itv f s = Inr (i, s2)" by (simp add: s2(1))
  have fresh: "i \<notin> timerId ` set (theap ?q)"
    using assms(1) by (force simp: timer_inv_def Let_def i_def)
  have "distinct (map timerId hp)"
  proof -
    have "mset (map timerId hp) = mset (map timerId (e # theap ?q))" using hp(2) by simp
    moreover have "distinct (map timerId (e # theap ?q))"
      using assms(1) fresh by (auto simp: timer_inv_def Let_def e_def)
    ultimately show ?thesis using mset_eq_imp_distinct_iff by blast
  qed
  then have "timer_inv s2"
    using assms(1) set_hp s2(3,4) unfolding timer_inv_def Let_def by (auto simp: s1_def e_def i_def)
  with run fresh hp s2 show ?thesis
    using root_earliest [OF hp(1) ne] time_Sub_pos
    by (intro exI [of _ i] exI [of _ s2]) (auto simp: s1_def e_def w_def Let_def)
qed

text \<open>A loop with one channel, used as the timerfd's, and a given heap, for concrete runs.\<close>

definition sample_timers :: "nat timerHeapEntry list \<Rightarrow> (unit, nat) tbase" where
  "sample_timers hp = base.extend sample_base
     \<lparr>timerQ = \<lparr>timerChannel = 0, timerIdCounter = 3, theap = hp\<rparr>\<rparr>"

lemma sample_settime: "settime_documented (sample_kernel evs)"
  by (simp add: settime_documented_def sample_kernel_def)

lemmas sample_timer_simps = sample_timers_def sample_base_def base.defs

text \<open>Concrete run: the first timer of an empty queue, due in 99 nanoseconds.\<close>

theorem AddTimer_arms_earliest_witness:
  "\<exists>i s'. AddTimer (sample_kernel []) 100 0 7 (sample_timers []) = Inr (i, s')
     \<and> armed (hist s') = Some 99"
proof -
  let ?s = "sample_timers []"
  have "timer_inv ?s" "is_heap tkey (theap (timerQ ?s))" "k_now (sample_kernel []) (hist ?s) = 1"
      "mset (theap (timerQ ?s)) = {#}"
    by (simp_all add: sample_timer_simps timer_inv_def heap_upto_def sample_kernel_def)
  then obtain i s' where r: "AddTimer (sample_kernel []) 100 0 7 ?s = Inr (i, s')"
      "mset (theap (timerQ s')) = {#\<lparr>timerId = i, TimeStamp = 100, onTimer = 7, interval = 0\<rparr>#}"
      "let earliest = Min (TimeStamp ` set (theap (timerQ s'))) in
        armed (hist s') = Some (if 1 < earliest then min (earliest - 1) (2 ^ 63 - 1) else 1)"
    using AddTimer_arms_earliest [of ?s "sample_kernel []" 100 0 7, OF _ _ sample_settime] by auto
  from r(2) have "theap (timerQ s') = [\<lparr>timerId = i, TimeStamp = 100, onTimer = 7, interval = 0\<rparr>]"
    by simp
  with r(1,3) show ?thesis by (simp add: Let_def)
qed

text \<open>On a heap-ordered queue without negative intervals it
  terminates without a panic; the returned entries are, as a multiset, exactly the
  expirations due before the clock reading (a periodic timer contributes one per elapsed
  period), in chronological order; the queue keeps exactly the entries still ahead, heap
  ordered; and if any is left the timerfd is set to the time until the earliest of them, or
  disarmed (0) when the second clock reading has already reached it.\<close>

theorem getExpired_exact:
  fixes s :: "('h, 'f, 'z) tbase_scheme"
  assumes "chans s (timerChannel (timerQ s)) \<noteq> None" "is_heap tkey (theap (timerQ s))"
    "\<forall>e \<in> set (theap (timerQ s)). 0 \<le> interval e" "settime_documented K"
  defines "now \<equiv> k_now K (hist s)"
  defines "now2 \<equiv> k_now K (hist s @ [SysNow now])"
  shows "\<exists>te s'. getExpired K s = Some (Inr (te, s'))
    \<and> mset te = all_due now (mset (theap (timerQ s)))
    \<and> sorted_wrt (\<lambda>x y. tkey x \<le> tkey y) te
    \<and> mset (theap (timerQ s')) = all_left now (mset (theap (timerQ s)))
    \<and> is_heap tkey (theap (timerQ s')) \<and> (\<forall>e \<in> set (theap (timerQ s')). now \<le> TimeStamp e)
    \<and> (theap (timerQ s') \<noteq> [] \<longrightarrow>
        (let earliest = Min (TimeStamp ` set (theap (timerQ s'))) in armed (hist s') =
          Some (if now2 < earliest then min (earliest - now2) (2 ^ 63 - 1) else 0)))"
proof -
  obtain te hp where l: "expire_loop now [] (theap (timerQ s)) = Some (Inr (te, hp))"
      "is_heap tkey hp" "mset te = all_due now (mset (theap (timerQ s)))"
      "mset hp = all_left now (mset (theap (timerQ s)))"
      "sorted_wrt (\<lambda>x y. tkey x \<le> tkey y) te" "\<forall>e \<in> set hp. now \<le> TimeStamp e"
    using expire_loop_spec [OF assms(2,3), of now "[]"] by auto
  define s1 where "s1 = set_heap hp (s\<lparr>hist := hist s @ [SysNow now]\<rparr>)"
  show ?thesis
  proof (cases "hp = []")
    case True
    then have "getExpired K s = Some (Inr (te, s1))"
      using l(1) by (simp add: getExpired_def time_Now_def Let_def s1_def flip: now_def)
    with True l show ?thesis by (intro exI [of _ te] exI [of _ s1]) (simp add: s1_def set_heap_def)
  next
    case False
    define w where "w = (if now2 < TimeStamp (hp ! 0) then time_Sub (TimeStamp (hp ! 0)) now2 else 0)"
    define s2 where "s2 = s1\<lparr>hist := hist s1 @ [SysNow now2]\<rparr>"
    have "chans s2 (timerChannel (timerQ s2)) \<noteq> None" "0 \<le> w"
      using assms(1) time_Sub_pos
      by (auto simp: s2_def s1_def set_heap_def w_def less_imp_le)
    then obtain s3 where s3: "timerfd_settime K w s2 = Inr s3" "armed (hist s3) = Some w"
        "timerQ s3 = timerQ s2"
      using timerfd_settime_ok [OF assms(4), of s2 w] by metis
    have h1: "hist s1 = hist s @ [SysNow now]" by (simp add: s1_def set_heap_def)
    have "getExpired K s = Some (rbind (timerfd_settime K w s2) (\<lambda>s4. Inr (te, s4)))"
      using l(1) False
      by (simp add: getExpired_def time_Now_def Let_def flip: now_def s1_def)
        (simp add: h1 s2_def w_def now2_def)
    then have "getExpired K s = Some (Inr (te, s3))" by (simp add: s3(1))
    moreover have "theap (timerQ s3) = hp" by (simp add: s3(3) s2_def s1_def set_heap_def)
    ultimately show ?thesis
      using l s3(2) root_earliest [OF l(2) False] time_Sub_pos
      by (intro exI [of _ te] exI [of _ s3]) (auto simp: w_def Let_def)
  qed
qed

text \<open>Safety and termination of \<^verbatim>\<open>getExpired\<close> with no assumption on the order of the heap, so
  also after cancellations: without negative intervals the call returns and does not panic;
  every returned entry is an expiration that was due before the clock reading, of a timer that was
  pending, with its callback; and nothing is lost: the returned entries together with
  what the remaining queue still owes are exactly what was owed.\<close>

theorem getExpired_never_early:
  fixes s :: "('h, 'f, 'z) tbase_scheme"
  assumes "chans s (timerChannel (timerQ s)) \<noteq> None"
    "\<forall>e \<in> set (theap (timerQ s)). 0 \<le> interval e" "settime_documented K"
  defines "now \<equiv> k_now K (hist s)"
  shows "\<exists>te s'. getExpired K s = Some (Inr (te, s'))
    \<and> (\<forall>x \<in> set te. TimeStamp x < now \<and>
        (\<exists>e \<in> set (theap (timerQ s)). timerId x = timerId e \<and> onTimer x = onTimer e))
    \<and> mset te + all_due now (mset (theap (timerQ s'))) = all_due now (mset (theap (timerQ s)))
    \<and> all_left now (mset (theap (timerQ s'))) = all_left now (mset (theap (timerQ s)))"
proof -
  obtain te hp where l: "expire_loop now [] (theap (timerQ s)) = Some (Inr (te, hp))"
      "\<forall>x \<in> set te. x \<in># all_due now (mset (theap (timerQ s)))"
      "mset te + all_due now (mset hp) = all_due now (mset (theap (timerQ s)))"
      "all_left now (mset hp) = all_left now (mset (theap (timerQ s)))"
    using expire_loop_total [OF assms(2), of now "[]"] by auto
  define s1 where "s1 = set_heap hp (s\<lparr>hist := hist s @ [SysNow now]\<rparr>)"
  have sound: "\<forall>x \<in> set te. TimeStamp x < now \<and>
      (\<exists>e \<in> set (theap (timerQ s)). timerId x = timerId e \<and> onTimer x = onTimer e)"
    using l(2) firings_sound by (fastforce simp: all_due_iff)
  have "\<exists>s'. getExpired K s = Some (Inr (te, s')) \<and> theap (timerQ s') = hp"
  proof (cases "hp = []")
    case True
    then show ?thesis
      using l(1) by (simp add: getExpired_def time_Now_def Let_def set_heap_def flip: now_def)
  next
    case False
    define now2 s2 where "now2 = k_now K (hist s1)" and "s2 = s1\<lparr>hist := hist s1 @ [SysNow now2]\<rparr>"
    define w where "w = (if now2 < TimeStamp (hp ! 0) then time_Sub (TimeStamp (hp ! 0)) now2 else 0)"
    have "chans s2 (timerChannel (timerQ s2)) \<noteq> None" "0 \<le> w"
      using assms(1) time_Sub_pos
      by (auto simp: s2_def s1_def set_heap_def w_def less_imp_le)
    then obtain s3 where s3: "timerfd_settime K w s2 = Inr s3" "timerQ s3 = timerQ s2"
      using timerfd_settime_ok [OF assms(3), of s2 w] by metis
    have "getExpired K s = Some (rbind (timerfd_settime K w s2) (\<lambda>s4. Inr (te, s4)))"
      using l(1) False
      by (simp add: getExpired_def time_Now_def Let_def flip: now_def s1_def)
        (simp add: s2_def w_def now2_def)
    with s3 show ?thesis by (simp add: s2_def s1_def set_heap_def)
  qed
  with l sound show ?thesis by auto
qed

text \<open>C5. What \<^verbatim>\<open>getExpired\<close> returns, on every queue without negative intervals: it terminates without a panic; every returned
  entry is an expiration that was due before the clock reading, of a timer that was pending, with its callback; and nothing is lost:
  the returned entries together with what the remaining queue still owes are exactly what was owed. When the queue is in heap order,
  as the calls of \<^verbatim>\<open>AddTimer\<close> and of \<^verbatim>\<open>getExpired\<close> leave it (\<^verbatim>\<open>CancelTimer\<close> may not), the returned
  entries are, as a multiset, exactly the expirations due before the clock reading (a periodic timer contributes one per elapsed
  period), in chronological order; the queue keeps exactly the entries still ahead, heap ordered; and if any is left the timerfd is set
  to the time until the earliest of them, or disarmed (0) when the second clock reading has already reached it.\<close>

theorem getExpired_fires_due:
  fixes s :: "('h, 'f, 'z) tbase_scheme"
  assumes "chans s (timerChannel (timerQ s)) \<noteq> None"
    "\<forall>e \<in> set (theap (timerQ s)). 0 \<le> interval e" "settime_documented K"
  defines "now \<equiv> k_now K (hist s)"
  defines "now2 \<equiv> k_now K (hist s @ [SysNow now])"
  shows "\<exists>te s'. getExpired K s = Some (Inr (te, s'))
    \<and> (\<forall>x \<in> set te. TimeStamp x < now \<and>
        (\<exists>e \<in> set (theap (timerQ s)). timerId x = timerId e \<and> onTimer x = onTimer e))
    \<and> mset te + all_due now (mset (theap (timerQ s'))) = all_due now (mset (theap (timerQ s)))
    \<and> all_left now (mset (theap (timerQ s'))) = all_left now (mset (theap (timerQ s)))
    \<and> (is_heap tkey (theap (timerQ s)) \<longrightarrow>
        mset te = all_due now (mset (theap (timerQ s)))
      \<and> sorted_wrt (\<lambda>x y. tkey x \<le> tkey y) te
      \<and> mset (theap (timerQ s')) = all_left now (mset (theap (timerQ s)))
      \<and> is_heap tkey (theap (timerQ s')) \<and> (\<forall>e \<in> set (theap (timerQ s')). now \<le> TimeStamp e)
      \<and> (theap (timerQ s') \<noteq> [] \<longrightarrow>
          (let earliest = Min (TimeStamp ` set (theap (timerQ s'))) in armed (hist s') =
            Some (if now2 < earliest then min (earliest - now2) (2 ^ 63 - 1) else 0))))"
proof -
  obtain te s' where g: "getExpired K s = Some (Inr (te, s'))"
    and rest: "(\<forall>x \<in> set te. TimeStamp x < now \<and>
        (\<exists>e \<in> set (theap (timerQ s)). timerId x = timerId e \<and> onTimer x = onTimer e))
    \<and> mset te + all_due now (mset (theap (timerQ s'))) = all_due now (mset (theap (timerQ s)))
    \<and> all_left now (mset (theap (timerQ s'))) = all_left now (mset (theap (timerQ s)))"
    using getExpired_never_early [OF assms(1-3)] unfolding now_def by blast
  show ?thesis
  proof (cases "is_heap tkey (theap (timerQ s))")
    case True
    from getExpired_exact [OF assms(1) True assms(2,3), folded now_def, folded now2_def] g rest show ?thesis by fastforce
  qed (use g rest in blast)
qed

text \<open>Concrete run: one timer whose deadline equals the first clock reading and lies before the
  second. It does not fire, stays pending, and the timerfd is left disarmed.\<close>

theorem getExpired_fires_due_witness:
  "\<exists>s'. getExpired (sample_kernel [])
       (sample_timers [\<lparr>timerId = 1, TimeStamp = 1, onTimer = 7, interval = 0\<rparr>]) = Some (Inr ([], s'))
     \<and> size (mset (theap (timerQ s'))) = 1 \<and> armed (hist s') = Some 0"
proof -
  let ?e = "\<lparr>timerId = 1, TimeStamp = 1, onTimer = 7, interval = 0\<rparr>"
  let ?s = "sample_timers [?e]" and ?K = "sample_kernel []"
  have h: "chans ?s (timerChannel (timerQ ?s)) \<noteq> None" "is_heap tkey (theap (timerQ ?s))"
      "\<forall>e \<in> set (theap (timerQ ?s)). 0 \<le> interval e"
      "k_now ?K (hist ?s) = 1" "k_now ?K (hist ?s @ [SysNow 1]) = 2" "mset (theap (timerQ ?s)) = {#?e#}"
    by (simp_all add: sample_timer_simps heap_upto_def sample_kernel_def)
  have d: "all_due 1 {#?e#} = {#}" "all_left 1 {#?e#} = {#?e#}" by (rule due_none; simp)+
  obtain te s' where r: "getExpired ?K ?s = Some (Inr (te, s'))" "mset te = {#}"
      "mset (theap (timerQ s')) = {#?e#}"
      "theap (timerQ s') \<noteq> [] \<longrightarrow> (let earliest = Min (TimeStamp ` set (theap (timerQ s'))) in
        armed (hist s') = Some (if 2 < earliest then min (earliest - 2) (2 ^ 63 - 1) else 0))"
    using getExpired_fires_due [OF h(1,3) sample_settime, of "[]"] h(2) unfolding h d by auto
  from r(3) have "theap (timerQ s') = [?e]" by simp
  with r show ?thesis by (auto simp: Let_def)
qed

text \<open>Concrete run, and the cost of a cancellation that reorders the array: the timer due at 0
  sits behind one due at 50, and is not fired although its deadline has passed.\<close>

theorem getExpired_never_early_witness:
  "\<exists>te s'. getExpired (sample_kernel []) (sample_timers
       [\<lparr>timerId = 2, TimeStamp = 50, onTimer = 7, interval = 0\<rparr>,
        \<lparr>timerId = 3, TimeStamp = 0, onTimer = 8, interval = 0\<rparr>]) = Some (Inr (te, s'))
     \<and> (\<forall>x \<in> set te. TimeStamp x < 1)"
proof -
  let ?s = "sample_timers [\<lparr>timerId = 2, TimeStamp = 50, onTimer = 7, interval = 0\<rparr>,
        \<lparr>timerId = 3, TimeStamp = 0, onTimer = 8, interval = 0\<rparr>]"
  have h: "chans ?s (timerChannel (timerQ ?s)) \<noteq> None" "\<forall>e \<in> set (theap (timerQ ?s)). 0 \<le> interval e"
      "k_now (sample_kernel []) (hist ?s) = 1"
    by (simp_all add: sample_timer_simps sample_kernel_def)
  show ?thesis using getExpired_never_early [OF h(1,2) sample_settime, of "[]"] unfolding h(3) by blast
qed

text \<open>Cancelling removes the timer with the given identifier and nothing else, keeps the others
  in their order, answers true exactly when there was one, and keeps the identifier
  invariant.\<close>

theorem CancelTimer_exact:
  assumes "timer_inv s" "CancelTimer i s = (ok, s')"
  shows "ok = (i \<in> timerId ` set (theap (timerQ s)))
    \<and> mset (theap (timerQ s')) = filter_mset (\<lambda>e. timerId e \<noteq> i) (mset (theap (timerQ s)))
    \<and> length (theap (timerQ s')) = length (theap (timerQ s)) - (if ok then 1 else 0)
    \<and> timer_inv s' \<and> hist s' = hist s"
proof -
  let ?h = "theap (timerQ s)"
  have s': "ok = (i \<in> timerId ` set ?h)" "s' = set_heap (filter (\<lambda>v. timerId v \<noteq> i) ?h) s"
    using assms(2) by (auto simp: CancelTimer_def list_ex_iff)
  have d: "distinct (map timerId ?h)" using assms(1) by (simp add: timer_inv_def Let_def)
  have "length (filter (\<lambda>v. timerId v = i) ?h) = (if ok then 1 else 0)"
    using length_filter_key [OF d, of i] s'(1) by simp
  then have "length (filter (\<lambda>v. timerId v \<noteq> i) ?h) = length ?h - (if ok then 1 else 0)"
    using sum_length_filter_compl [of "\<lambda>v. timerId v = i" ?h] by simp
  then show ?thesis
    using s' assms(1) by (auto simp: set_heap_def timer_inv_def Let_def distinct_map_filter)
qed

text \<open>Concrete run: the root of a three-element heap is cancelled.\<close>

abbreviation (input) "timer_at i t \<equiv> \<lparr>timerId = i, TimeStamp = t, onTimer = 7 :: nat, interval = 0\<rparr>"

theorem CancelTimer_exact_witness:
  "\<exists>s'. CancelTimer 1 (sample_timers [timer_at 1 (-5), timer_at 2 50, timer_at 3 0]) = (True, s')
     \<and> length (theap (timerQ s')) = 2 \<and> timer_inv s'"
proof -
  let ?s = "sample_timers [timer_at 1 (-5), timer_at 2 50, timer_at 3 0]"
  have i: "timer_inv ?s" and l: "length (theap (timerQ ?s)) = 3"
      "1 \<in> timerId ` set (theap (timerQ ?s))"
    by (simp_all add: sample_timer_simps timer_inv_def)
  obtain ok s' where c: "CancelTimer 1 ?s = (ok, s')" by fastforce
  show ?thesis using CancelTimer_exact [OF i c] c l by auto
qed

text \<open>Cancelling does not restore the heap order, and a timer can be passed over because of it:
  with three pending timers in heap order, after the root is cancelled the array is not a heap
  any more, and \<^verbatim>\<open>getExpired\<close> returns nothing although one of the remaining deadlines has passed.\<close>

theorem CancelTimer_passes_over_due:
  "\<exists>(s :: (unit, nat) tbase) s1 s2.
     is_heap tkey (theap (timerQ s)) \<and> CancelTimer 1 s = (True, s1)
   \<and> \<not> is_heap tkey (theap (timerQ s1))
   \<and> getExpired (sample_kernel []) s1 = Some (Inr ([], s2))
   \<and> (\<exists>e \<in> set (theap (timerQ s1)). TimeStamp e < k_now (sample_kernel []) (hist s1))"
proof -
  let ?s = "sample_timers [timer_at 1 (-5), timer_at 2 50, timer_at 3 0]"
  let ?s1 = "sample_timers [timer_at 2 50, timer_at 3 0]"
  have heap: "is_heap tkey (theap (timerQ ?s))"
    by (auto simp: sample_timer_simps heap_upto_def parent_def tkey_def less_Suc_eq numeral_eq_Suc)
  have cancel: "CancelTimer 1 ?s = (True, ?s1)"
    by (simp add: CancelTimer_def set_heap_def sample_timer_simps)
  have broken: "\<not> is_heap tkey (theap (timerQ ?s1))"
    by (auto simp: sample_timer_simps heap_upto_def parent_def tkey_def intro!: exI [of _ 1])
  have stop: "expire_loop 1 [] (theap (timerQ ?s1)) = Some (Inr ([], theap (timerQ ?s1)))"
    by (subst expire_loop.simps) (simp add: sample_timer_simps)
  have "\<exists>s2. getExpired (sample_kernel []) ?s1 = Some (Inr ([], s2))"
    using stop by (simp add: getExpired_def time_Now_def timerfd_settime_def deref_chan_def
        set_heap_def sample_timer_simps sample_kernel_def Let_def)
  moreover have "\<exists>e \<in> set (theap (timerQ ?s1)). TimeStamp e < k_now (sample_kernel []) (hist ?s1)"
    by (simp add: sample_timer_simps sample_kernel_def)
  ultimately show ?thesis using heap cancel broken by blast
qed

end
