(* ===== verification/Event_Loop.thy ===== *)
theory Event_Loop
  imports Timer_Queue KV_Context
begin

text \<open>
  The event loop of \<^verbatim>\<open>pkg/event_loop/evloop.go\<close>, as seen by the goroutine that runs it, and its
  public methods, as called by any goroutine (goroutine ids are arguments). Closures
  are data: \<open>loop_functor\<close> lists the closures the loop itself passes to \<^verbatim>\<open>RunInLoop\<close>, with
  \<open>FExt\<close> for those of its clients, and \<open>handler\<close> the callbacks it installs in its
  channels, with \<open>HExt\<close> for the others; client closures and user callbacks are run by
  functions passed as arguments. A reply channel \<^verbatim>\<open>make(chan T, 1)\<close> is a place in \<open>replies\<close>; a
  method that reads it back returns \<open>Await\<close> and is blocked until the place is filled.
  The mutex around \<^verbatim>\<open>functors\<close> makes the append and the take atomic.
\<close>

section \<open>State\<close>

datatype reply = RInt int | RBool bool

datatype ('u, 'c) loop_functor =
    FStop
  | FGetChannelCount nat
  | FAddTimer int int 'u nat
  | FCancelTimer int nat
  | FExt 'c

datatype 'd handler = HWakeup | HTimer | HExt 'd

record ('d, 'u, 'c) evloop = "('d handler, 'u) tbase" +
  wakeupEventChannel :: nat
  functors :: "('u, 'c) loop_functor list"
  running :: int
  gid :: int
  loop_id :: int
  loop_ctx :: "'u keyValueContext"
  doOnLoop :: "'u option"
  doOnStop :: "'u option"
  extraForReadFD :: "byte list"
  nextPtr :: nat
  replies :: "nat \<rightharpoonup> reply"
  nextReply :: nat

datatype 'a call = Ret 'a | Await nat

section \<open>Construction\<close>

definition alloc_chan :: "'d handler channel \<Rightarrow> ('d, 'u, 'c, 'z) evloop_scheme
    \<Rightarrow> nat \<times> ('d, 'u, 'c, 'z) evloop_scheme" where
  "alloc_chan c s = (nextPtr s, upd_chan (nextPtr s) c (s\<lparr>nextPtr := nextPtr s + 1\<rparr>))"

definition check_errno :: "errno option \<Rightarrow> unit res" where
  "check_errno e = (case e of None \<Rightarrow> Inr () | Some err \<Rightarrow> Inl (PanicErr err))"

text \<open>\<open>mk\<close> is the answer of \<^verbatim>\<open>timerfd_create\<close>, \<open>nb\<close> that of \<^verbatim>\<open>SetNonblock\<close>. The read callback is
  installed after the registration, as in the source.\<close>

definition newTimerQueue :: "kernel \<Rightarrow> errno + int \<Rightarrow> errno option \<Rightarrow> ('d, 'u, 'c, 'z) evloop_scheme
    \<Rightarrow> ('d, 'u, 'c, 'z) evloop_scheme res" where
  "newTimerQueue K mk nb s =
     (case mk of
        Inl e \<Rightarrow> Inl (PanicErr e)
      | Inr tfd \<Rightarrow>
          rbind (check_errno nb) (\<lambda>_.
            case alloc_chan (SetEvent ReadableEvent (NewChannel tfd)) s of (p, s1) \<Rightarrow>
            rbind (UpdateChannel K p
                (s1\<lparr>timerQ := \<lparr>timerChannel = p, timerIdCounter = 0, theap = []\<rparr>\<rparr>)) (\<lambda>s2.
            rbind (deref_chan p s2) (\<lambda>c.
              Inr (upd_chan p (SetReadCallback HTimer c) s2)))))"

text \<open>The answers of \<^verbatim>\<open>eventfd\<close>, \<^verbatim>\<open>SetNonblock\<close> and \<^verbatim>\<open>epoll_create\<close>, then those of the timer queue;
  \<open>idGen\<close> is the process-wide counter.\<close>

definition NewEventLoop :: "kernel \<Rightarrow> errno + int \<Rightarrow> errno option \<Rightarrow> errno + int \<Rightarrow> errno + int
    \<Rightarrow> errno option \<Rightarrow> int \<Rightarrow> (('d, 'u, 'c) evloop \<times> int) res" where
  "NewEventLoop K mk_eventfd nb1 mk_epoll mk_timerfd nb2 idGen =
     (case mk_eventfd of
        Inl e \<Rightarrow> Inl (PanicErr e)
      | Inr r1 \<Rightarrow>
          rbind (check_errno nb1) (\<lambda>_.
          case mk_epoll of
            Inl e \<Rightarrow> Inl (PanicErr e)
          | Inr epfd \<Rightarrow>
              (let c = SetReadCallback HWakeup (SetEvent ReadableEvent (NewChannel r1));
                   ev = \<lparr>hist = [], chans = [0 \<mapsto> c], the_poller = NewPoller epfd,
                     timerQ = \<lparr>timerChannel = 0, timerIdCounter = 0, theap = []\<rparr>,
                     wakeupEventChannel = 0, functors = [], running = 0, gid = 0,
                     loop_id = idGen + 1, loop_ctx = NewContext, doOnLoop = None, doOnStop = None,
                     extraForReadFD = replicate 65536 0, nextPtr = 1,
                     replies = Map.empty, nextReply = 0\<rparr>
               in rbind (UpdateChannel K (wakeupEventChannel ev) ev) (\<lambda>ev1.
                  rbind (newTimerQueue K mk_timerfd nb2 ev1) (\<lambda>ev2. Inr (ev2, idGen + 1))))))"

section \<open>Waking up and queueing\<close>

definition wakeup :: "kernel \<Rightarrow> ('d, 'u, 'c, 'z) evloop_scheme \<Rightarrow> ('d, 'u, 'c, 'z) evloop_scheme res" where
  "wakeup K s =
     rbind (deref_chan (wakeupEventChannel s) s) (\<lambda>c.
       let bs = [0, 0, 0, 0, 0, 0, 0, 1]; r = k_write K (hist s) (fd c) bs;
           s1 = s\<lparr>hist := hist s @ [SysWrite (fd c) bs r]\<rparr>
       in case r of Inl e \<Rightarrow> if e = EAGAIN then Inr s1 else Inl (PanicErr e) | Inr n \<Rightarrow> Inr s1)"

definition run_functor :: "('c \<Rightarrow> ('d, 'u, 'c, 'z) evloop_scheme \<Rightarrow> ('d, 'u, 'c, 'z) evloop_scheme res)
    \<Rightarrow> kernel \<Rightarrow> ('u, 'c) loop_functor \<Rightarrow> ('d, 'u, 'c, 'z) evloop_scheme
    \<Rightarrow> ('d, 'u, 'c, 'z) evloop_scheme res" where
  "run_functor runC K f s =
     (case f of
        FStop \<Rightarrow> Inr (s\<lparr>running := 0\<rparr>)
      | FGetChannelCount r \<Rightarrow> Inr (s\<lparr>replies := (replies s)(r \<mapsto> RInt (GetChannelCount s))\<rparr>)
      | FAddTimer t itv u r \<Rightarrow>
          rbind (AddTimer K t itv u s) (\<lambda>(i, s1). Inr (s1\<lparr>replies := (replies s1)(r \<mapsto> RInt i)\<rparr>))
      | FCancelTimer i r \<Rightarrow>
          (case CancelTimer i s of (ok, s1) \<Rightarrow> Inr (s1\<lparr>replies := (replies s1)(r \<mapsto> RBool ok)\<rparr>))
      | FExt c \<Rightarrow> runC c s)"

text \<open>\<open>RunInLoop\<close> called by goroutine \<open>g\<close>.\<close>

definition RunInLoop :: "('c \<Rightarrow> ('d, 'u, 'c, 'z) evloop_scheme \<Rightarrow> ('d, 'u, 'c, 'z) evloop_scheme res)
    \<Rightarrow> kernel \<Rightarrow> int \<Rightarrow> ('u, 'c) loop_functor \<Rightarrow> ('d, 'u, 'c, 'z) evloop_scheme
    \<Rightarrow> ('d, 'u, 'c, 'z) evloop_scheme res" where
  "RunInLoop runC K g f s =
     (if running s = 1 \<and> gid s = g then run_functor runC K f s
      else wakeup K (s\<lparr>functors := functors s @ [f]\<rparr>))"

definition Stop :: "('c \<Rightarrow> ('d, 'u, 'c, 'z) evloop_scheme \<Rightarrow> ('d, 'u, 'c, 'z) evloop_scheme res)
    \<Rightarrow> kernel \<Rightarrow> int \<Rightarrow> ('d, 'u, 'c, 'z) evloop_scheme \<Rightarrow> ('d, 'u, 'c, 'z) evloop_scheme res" where
  "Stop runC K g s = RunInLoop runC K g FStop s"

text \<open>The three methods that answer through a reply channel when called from outside.\<close>

definition ask :: "('c \<Rightarrow> ('d, 'u, 'c, 'z) evloop_scheme \<Rightarrow> ('d, 'u, 'c, 'z) evloop_scheme res)
    \<Rightarrow> kernel \<Rightarrow> int \<Rightarrow> (nat \<Rightarrow> ('u, 'c) loop_functor) \<Rightarrow> ('d, 'u, 'c, 'z) evloop_scheme
    \<Rightarrow> ('a call \<times> ('d, 'u, 'c, 'z) evloop_scheme) res" where
  "ask runC K g f s =
     (let r = nextReply s
      in rbind (RunInLoop runC K g (f r) (s\<lparr>nextReply := r + 1\<rparr>)) (\<lambda>s1. Inr (Await r, s1)))"

definition ev_GetChannelCount where
  "ev_GetChannelCount runC K g s =
     (if g = gid s then Inr (Ret (GetChannelCount s), s) else ask runC K g FGetChannelCount s)"

definition RunAt where
  "RunAt runC K g triggerAt itv u s =
     (if g = gid s then rbind (AddTimer K triggerAt itv u s) (\<lambda>(i, s1). Inr (Ret i, s1))
      else ask runC K g (FAddTimer triggerAt itv u) s)"

definition ev_CancelTimer where
  "ev_CancelTimer runC K g i s =
     (if g = gid s then (case CancelTimer i s of (ok, s1) \<Rightarrow> Inr (Ret ok, s1))
      else ask runC K g (FCancelTimer i) s)"

definition DoOnLoop :: "'u \<Rightarrow> ('d, 'u, 'c, 'z) evloop_scheme \<Rightarrow> ('d, 'u, 'c, 'z) evloop_scheme" where
  "DoOnLoop u s = s\<lparr>doOnLoop := Some u\<rparr>"

definition DoOnStop :: "'u \<Rightarrow> ('d, 'u, 'c, 'z) evloop_scheme \<Rightarrow> ('d, 'u, 'c, 'z) evloop_scheme" where
  "DoOnStop u s = s\<lparr>doOnStop := Some u\<rparr>"

text \<open>The values of the loop's context.\<close>

definition ev_GetContext :: "string \<Rightarrow> ('d, 'u, 'c, 'z) evloop_scheme \<Rightarrow> 'u iface \<times> bool" where
  "ev_GetContext key s = ctx_Get key (loop_ctx s)"

definition ev_MustGetContext :: "string \<Rightarrow> ('d, 'u, 'c, 'z) evloop_scheme \<Rightarrow> 'u iface res" where
  "ev_MustGetContext key s = MustGetContext key (loop_ctx s)"

definition ev_SetContext :: "string \<Rightarrow> 'u iface \<Rightarrow> ('d, 'u, 'c, 'z) evloop_scheme \<Rightarrow> ('d, 'u, 'c, 'z) evloop_scheme" where
  "ev_SetContext key v s = s\<lparr>loop_ctx := ctx_Set key v (loop_ctx s)\<rparr>"

definition ev_DeleteContext :: "string \<Rightarrow> ('d, 'u, 'c, 'z) evloop_scheme \<Rightarrow> ('d, 'u, 'c, 'z) evloop_scheme" where
  "ev_DeleteContext key s = s\<lparr>loop_ctx := ctx_Delete key (loop_ctx s)\<rparr>"

section \<open>The loop\<close>

text \<open>The callback of the eventfd channel and that of the timerfd channel: each consumes
  the descriptor, and a failed read panics.\<close>

definition read_fd :: "kernel \<Rightarrow> nat \<Rightarrow> ('h, 'z) base_scheme \<Rightarrow> ('h, 'z) base_scheme res" where
  "read_fd K p s =
     rbind (deref_chan p s) (\<lambda>c.
       let r = k_read K (hist s) (fd c); s1 = s\<lparr>hist := hist s @ [SysRead (fd c) r]\<rparr>
       in rbind (check_errno r) (\<lambda>_. Inr s1))"

definition run_handler where
  "run_handler runD onT K h s =
     (case h of
        HWakeup \<Rightarrow> read_fd K (wakeupEventChannel s) s
      | HTimer \<Rightarrow>
          rbind (read_fd K (timerChannel (timerQ s)) s) (\<lambda>s1.
          rbind (or_hang (getExpired K s1)) (\<lambda>(te, s2).
            rfold (\<lambda>v. onT (onTimer v) (timerId v)) te s2))
      | HExt d \<Rightarrow> runD d s)"

text \<open>One turn of the \<^verbatim>\<open>for\<close> loop of \<^verbatim>\<open>Loop\<close>: poll, handle the active channels, take all functors,
  execute them, without calls of \<^verbatim>\<open>RunInLoop\<close> by other goroutines in between; \<^verbatim>\<open>Loop_Wakeup\<close> models the
  same lines as separate steps with such calls anywhere.\<close>

definition loop_turn where
  "loop_turn runH runF K s =
     rbind (or_hang (Poll K s)) (\<lambda>(ps, s1).
     rbind (rfold (\<lambda>p. HandleEvent runH (deref_chan p)) ps s1) (\<lambda>s2.
       rfold runF (functors s2) (s2\<lparr>functors := []\<rparr>)))"

partial_function (option) loop_while where
  "loop_while turn s =
     (if running s = 1
      then (case turn s of Inl e \<Rightarrow> Some (Inl e) | Inr s1 \<Rightarrow> loop_while turn s1)
      else Some (Inr s))"

text \<open>\<^verbatim>\<open>Loop\<close> called by goroutine \<open>g\<close>; \<open>onD\<close> runs the \<^verbatim>\<open>DoOnLoop\<close> and \<^verbatim>\<open>DoOnStop\<close> callbacks.
  The latter is called without a \<^verbatim>\<open>nil\<close> check, as in the source.\<close>

definition Loop where
  "Loop runH runF onD K g s =
     (if running s \<noteq> 0 then Inl (PanicMsg ''it is already running? don't run it again'')
      else
        rbind (run_opt onD (doOnLoop s) (s\<lparr>running := 1, gid := g\<rparr>)) (\<lambda>s1.
        rbind (or_hang (loop_while (loop_turn runH runF K) s1)) (\<lambda>s2.
          case doOnStop s2 of None \<Rightarrow> Inl NilDeref | Some u \<Rightarrow> onD u s2)))"

section \<open>Lemmas\<close>

text \<open>Registration touches the history, the channels and the poller only.\<close>

lemma UpdateChannel_frame:
  "UpdateChannel K p s = Inr s' \<Longrightarrow>
     s' = s\<lparr>hist := hist s', chans := chans s', the_poller := the_poller s'\<rparr>"
  by (auto simp: UpdateChannel_def base_frame rbind_eq_Inr split: option.splits if_splits)

lemma UpdateChannel_fields:
  assumes "UpdateChannel K p s = Inr s'"
  shows "wakeupEventChannel s' = wakeupEventChannel s" "timerQ s' = timerQ s" "functors s' = functors s"
    "running s' = running s" "gid s' = gid s" "loop_id s' = loop_id s" "nextPtr s' = nextPtr s"
    "loop_ctx s' = loop_ctx s" "doOnLoop s' = doOnLoop s" "doOnStop s' = doOnStop s"
    "replies s' = replies s"
  by (subst UpdateChannel_frame [OF assms], simp)+

lemma UpdateChannel_dom: "UpdateChannel K p s = Inr s' \<Longrightarrow> dom (chans s') = dom (chans s)"
  by (auto simp: UpdateChannel_def base_frame rbind_eq_Inr split: option.splits if_splits)

lemma check_errno_ok [simp]: "check_errno e = Inr u \<longleftrightarrow> e = None"
  by (auto simp: check_errno_def split: option.splits)

lemma wakeup_spec:
  assumes "chans s (wakeupEventChannel s) = Some c"
    "k_write K (hist s) (fd c) [0, 0, 0, 0, 0, 0, 0, 1] \<in> insert (Inl EAGAIN) (range Inr)"
  shows "\<exists>h. wakeup K s = Inr (s\<lparr>hist := h\<rparr>) \<and> registered h = registered (hist s)"
  using assms by (auto simp: wakeup_def deref_chan_def Let_def)

lemma wakeup_frame:
  assumes "wakeup K s = Inr s'"
  shows "\<exists>h. s' = s\<lparr>hist := h\<rparr> \<and> registered h = registered (hist s)"
proof -
  obtain c where c: "deref_chan (wakeupEventChannel s) s = Inr c" using assms by (auto simp: wakeup_def rbind_eq_Inr)
  with assms show ?thesis
    by (cases "k_write K (hist s) (fd c) [0, 0, 0, 0, 0, 0, 0, 1]") (auto simp: wakeup_def Let_def split: if_splits)
qed

text \<open>Once \<^verbatim>\<open>running\<close> is 0, no closure of the loop sets it again.\<close>

lemma run_functor_stopped:
  assumes "\<And>c s s'. runC c s = Inr s' \<Longrightarrow> running s = 0 \<Longrightarrow> running s' = 0"
    "run_functor runC K f s = Inr s'" "running s = 0 \<or> f = FStop"
  shows "running s' = 0"
proof (cases f)
  case (FAddTimer t itv u r)
  then obtain i s1 where a: "AddTimer K t itv u s = Inr (i, s1)" "s' = s1\<lparr>replies := (replies s1)(r \<mapsto> RInt i)\<rparr>"
    using assms(2) by (auto simp: run_functor_def rbind_eq_Inr)
  have "running s1 = running s"
    using a(1) by (auto simp: AddTimer_def timerfd_settime_def time_Now_def Let_def rbind_eq_Inr
        deref_chan_def split: option.splits)
  with a assms(3) FAddTimer show ?thesis by simp
qed (use assms in \<open>auto simp: run_functor_def CancelTimer_def set_heap_def\<close>)

lemma rfold_stopped:
  assumes "\<And>c s s'. runC c s = Inr s' \<Longrightarrow> running s = 0 \<Longrightarrow> running s' = 0"
    "rfold (run_functor runC K) fs s = Inr s'" "running s = 0 \<or> FStop \<in> set fs"
  shows "running s' = 0"
  using assms(2,3)
proof (induction fs arbitrary: s)
  case (Cons f fs)
  then obtain s1 where s1: "run_functor runC K f s = Inr s1" "rfold (run_functor runC K) fs s1 = Inr s'"
    by (auto simp: rbind_eq_Inr)
  have "running s1 = 0 \<or> FStop \<in> set fs"
    using run_functor_stopped [OF assms(1) s1(1)] Cons.prems(2) by auto
  with s1(2) show ?case by (rule Cons.IH)
qed auto

lemma loop_while_stop: "running s \<noteq> 1 \<Longrightarrow> loop_while turn s = Some (Inr s)"
  by (subst loop_while.simps) simp

lemma loop_while_turn:
  "running s = 1 \<Longrightarrow> turn s = Inr s1 \<Longrightarrow> loop_while turn s = loop_while turn s1"
  by (subst loop_while.simps) simp

text \<open>The functor queue across a turn: polling and the two callbacks of the loop leave it
  alone, whatever the timers and the other callbacks do to it being their own business.\<close>

lemma epoll_wait_loop_frame:
  assumes "epoll_wait_loop K s = Some (Inr (evs, s'))"
  shows "s' = s\<lparr>hist := hist s'\<rparr>"
proof -
  have "\<forall>evs s'. y = Inr (evs, s') \<longrightarrow> s' = s\<lparr>hist := hist s'\<rparr>" if "epoll_wait_loop K s = Some y" for y
    using that
  proof (rule epoll_wait_loop.raw_induct [rotated])
    fix f K s y
    assume ih: "\<And>K s y. f K s = Some y \<Longrightarrow> \<forall>evs s'. y = Inr (evs, s') \<longrightarrow> s' = s\<lparr>hist := hist s'\<rparr>"
      and st: "(let n = eventListLen (the_poller s); r = k_wait K (hist s) n;
          s1 = s\<lparr>hist := hist s @ [SysEpollWait n r]\<rparr>
        in case r of
           Inl e \<Rightarrow> if e = EINTR then f K s1 else Some (Inl (PanicErr e))
         | Inr evs \<Rightarrow> Some (Inr (evs, s1))) = Some y"
    show "\<forall>evs s'. y = Inr (evs, s') \<longrightarrow> s' = s\<lparr>hist := hist s'\<rparr>"
      using st by (auto simp: Let_def split: sum.splits if_splits dest!: ih)
  qed
  with assms show ?thesis by blast
qed

lemma fill_active_frame:
  "fill_active evs s = Inr (ps, s') \<Longrightarrow> s' = s\<lparr>chans := chans s'\<rparr>"
proof (induction evs s arbitrary: ps s' rule: fill_active.induct)
  case (2 f e evs s)
  then show ?case
    by (auto simp: rbind_eq_Inr upd_chan_def split: option.splits)
qed simp

lemma Poll_frame:
  assumes "Poll K s = Some (Inr (ps, s'))"
  shows "s' = s\<lparr>hist := hist s', chans := chans s', the_poller := the_poller s'\<rparr>"
proof -
  obtain evs s1 s2 where a: "epoll_wait_loop K s = Some (Inr (evs, s1))"
      "fill_active evs s1 = Inr (ps, s2)" "s' = s2\<lparr>the_poller := the_poller s'\<rparr>"
    using assms by (auto simp: Poll_def rbind_eq_Inr Let_def split: if_splits)
  have "s' = (s\<lparr>hist := hist s1\<rparr>\<lparr>chans := chans s2\<rparr>)\<lparr>the_poller := the_poller s'\<rparr>"
    using a(3) fill_active_frame [OF a(2)] epoll_wait_loop_frame [OF a(1)] by metis
  then obtain h c P where "s' = s\<lparr>hist := h, chans := c, the_poller := P\<rparr>" by blast
  then show ?thesis by simp
qed

text \<open>A piece of code that leaves the queued functors queued (it may queue more).\<close>

definition keeps_queue :: "(('d, 'u, 'c, 'z) evloop_scheme \<Rightarrow> ('d, 'u, 'c, 'z) evloop_scheme res) \<Rightarrow> bool" where
  "keeps_queue f \<longleftrightarrow> (\<forall>s s'. f s = Inr s' \<longrightarrow> set (functors s) \<subseteq> set (functors s'))"

lemma keeps_queueD: "keeps_queue f \<Longrightarrow> f s = Inr s' \<Longrightarrow> set (functors s) \<subseteq> set (functors s')"
  by (auto simp: keeps_queue_def)

lemma rfold_keeps_queue: "(\<And>x. keeps_queue (f x)) \<Longrightarrow> keeps_queue (rfold f xs)"
  unfolding keeps_queue_def
proof (intro allI impI)
  fix s s' assume f: "\<And>x. \<forall>s s'. f x s = Inr s' \<longrightarrow> set (functors s) \<subseteq> set (functors s')"
    and r: "rfold f xs s = Inr s'"
  from r show "set (functors s) \<subseteq> set (functors s')"
  proof (induction xs arbitrary: s)
    case (Cons x xs)
    then obtain s1 where "f x s = Inr s1" "rfold f xs s1 = Inr s'" by (auto simp: rbind_eq_Inr)
    then show ?case using f Cons.IH by blast
  qed simp
qed

lemma read_fd_queue: "read_fd K p s = Inr s' \<Longrightarrow> functors s' = functors s"
  by (auto simp: read_fd_def rbind_eq_Inr Let_def)

lemma getExpired_queue: "getExpired K s = Some (Inr (te, s')) \<Longrightarrow> functors s' = functors s"
  by (auto simp: getExpired_def time_Now_def Let_def rbind_eq_Inr timerfd_settime_def set_heap_def
      split: if_splits option.splits)

lemma or_hang_Inr: "or_hang x = Inr y \<longleftrightarrow> x = Some (Inr y)"
  by (auto simp: or_hang_def split: option.splits)

lemma run_handler_keeps_queue:
  assumes "\<And>d. keeps_queue (runD d)" "\<And>u i. keeps_queue (onT u i)"
  shows "keeps_queue (run_handler runD onT K h)"
proof (cases h)
  case HTimer
  have "set (functors s) \<subseteq> set (functors s')" if r: "run_handler runD onT K h s = Inr s'" for s s'
  proof -
    obtain s1 te s2 where "read_fd K (timerChannel (timerQ s)) s = Inr s1"
        "getExpired K s1 = Some (Inr (te, s2))" "rfold (\<lambda>v. onT (onTimer v) (timerId v)) te s2 = Inr s'"
      using r HTimer by (auto simp: run_handler_def rbind_eq_Inr or_hang_Inr)
    then show ?thesis
      using rfold_keeps_queue [of "\<lambda>v. onT (onTimer v) (timerId v)" te, OF assms(2)]
      by (auto dest!: read_fd_queue getExpired_queue keeps_queueD)
  qed
  then show ?thesis by (simp add: keeps_queue_def)
next
  case HWakeup
  then show ?thesis by (auto simp: keeps_queue_def run_handler_def dest: read_fd_queue)
next
  case (HExt d)
  then show ?thesis using assms(1) [of d] by (simp add: keeps_queue_def run_handler_def)
qed

lemma HandleEvent_keeps_queue:
  assumes "\<And>h. keeps_queue (run h)"
  shows "keeps_queue (HandleEvent run get)"
proof -
  have opt: "set (functors s) \<subseteq> set (functors s')"
    if "(if b then run_opt run cb s else Inr s) = Inr s'" for b cb s s'
    using that assms by (auto simp: run_opt_def keeps_queue_def split: if_splits option.splits)
  have "set (functors s) \<subseteq> set (functors s')" if "HandleEvent run get s = Inr s'" for s s'
    using that unfolding HandleEvent_def rbind_eq_Inr
    by (elim exE conjE) (rule order_trans; erule opt)
  then show ?thesis by (simp add: keeps_queue_def)
qed

section \<open>Properties\<close>

text \<open>A constructed loop is ready: whenever \<^verbatim>\<open>NewEventLoop\<close> returns, the poller invariant holds, the
  kernel watches exactly the eventfd and the timerfd, both for reading, in agreement with their
  two channels, whose read callbacks are installed; the timer queue satisfies its
  invariant, no functor is queued, the loop is not running and belongs to no goroutine yet,
  and its identifier is the next one of the process.\<close>

theorem NewEventLoop_ready:
  assumes "ctl_documented K"
    "NewEventLoop K mk_eventfd nb1 mk_epoll mk_timerfd nb2 idGen = Inr (ev :: ('d, 'u, 'c) evloop, j)"
  shows "\<exists>efd tfd. mk_eventfd = Inr efd \<and> mk_timerfd = Inr tfd \<and> efd \<noteq> tfd
    \<and> registered (hist ev) = [efd \<mapsto> 1, tfd \<mapsto> 1]
    \<and> poller_inv ev \<and> in_sync ev \<and> GetChannelCount ev = 2
    \<and> map_option readCallback (chans ev (wakeupEventChannel ev)) = Some (Some HWakeup)
    \<and> map_option readCallback (chans ev (timerChannel (timerQ ev))) = Some (Some HTimer)
    \<and> timer_inv ev \<and> theap (timerQ ev) = [] \<and> functors ev = [] \<and> running ev = 0 \<and> gid ev = 0
    \<and> loop_id ev = idGen + 1 \<and> j = idGen + 1"
proof -
  define c0 :: "'d handler channel" where
    "c0 = \<lparr>fd = 0, events = ReadableEvent, revents = 0, index = -1, readCallback = None, writeCallback = None\<rparr>"
  obtain efd epfd where e: "mk_eventfd = Inr efd" "mk_epoll = Inr epfd"
    using assms(2) by (auto simp: NewEventLoop_def rbind_eq_Inr split: sum.splits)
  define ev0 :: "('d, 'u, 'c) evloop" where
    "ev0 = \<lparr>hist = [], chans = [0 \<mapsto> c0\<lparr>fd := efd, readCallback := Some HWakeup\<rparr>],
       the_poller = NewPoller epfd, timerQ = \<lparr>timerChannel = 0, timerIdCounter = 0, theap = []\<rparr>,
       wakeupEventChannel = 0, functors = [], running = 0, gid = 0, loop_id = idGen + 1,
       loop_ctx = NewContext, doOnLoop = None, doOnStop = None, extraForReadFD = replicate 65536 0,
       nextPtr = 1, replies = Map.empty, nextReply = 0\<rparr>"
  obtain ev1 where u1: "UpdateChannel K 0 ev0 = Inr ev1" and n: "newTimerQueue K mk_timerfd nb2 ev1 = Inr ev"
      "j = idGen + 1"
    using assms(2) e by (auto simp: NewEventLoop_def rbind_eq_Inr Let_def ev0_def c0_def channel_ops)
  have i0: "poller_inv ev0" "in_sync_but {0} ev0" "chans ev0 0 = Some (c0\<lparr>fd := efd, readCallback := Some HWakeup\<rparr>)"
    by (simp_all add: poller_inv_def in_sync_but_def ev0_def NewPoller_def)
  have idx: "index (c0\<lparr>fd := efd, readCallback := Some HWakeup\<rparr>) < 0" by (simp add: c0_def)
  note r1 = UpdateChannel_new [OF i0(1) assms(1) i0(3) idx u1]
  obtain tfd where t: "mk_timerfd = Inr tfd" using n(1) by (auto simp: newTimerQueue_def split: sum.splits)
  have np1: "nextPtr ev1 = 1" by (simp add: UpdateChannel_fields [OF u1] ev0_def)
  define ev2 where "ev2 = ev1\<lparr>nextPtr := 2, chans := (chans ev1)(1 \<mapsto> c0\<lparr>fd := tfd\<rparr>),
      timerQ := \<lparr>timerChannel = 1, timerIdCounter = 0, theap = []\<rparr>\<rparr>"
  have a: "(alloc_chan (SetEvent ReadableEvent (NewChannel tfd)) ev1 :: nat \<times> ('d, 'u, 'c) evloop)
      = (1, upd_chan 1 (c0\<lparr>fd := tfd\<rparr>) (ev1\<lparr>nextPtr := 2\<rparr>))"
    unfolding alloc_chan_def np1 by (simp add: c0_def channel_ops numeral_2_eq_2)
  have b: "(upd_chan 1 (c0\<lparr>fd := tfd\<rparr>) (ev1\<lparr>nextPtr := 2\<rparr>))
      \<lparr>timerQ := \<lparr>timerChannel = 1, timerIdCounter = 0, theap = []\<rparr>\<rparr> = ev2"
    by (simp add: ev2_def upd_chan_def)
  obtain ev3 c3 where u3: "UpdateChannel K 1 ev2 = Inr ev3" and c3: "chans ev3 1 = Some c3"
      "ev = upd_chan 1 (c3\<lparr>readCallback := Some HTimer\<rparr>) ev3"
    using n(1) unfolding newTimerQueue_def t sum.case a prod.case b
    by (auto simp: rbind_eq_Inr deref_chan_def SetReadCallback_def split: option.splits)
  have cm1: "map_of (channelMap (the_poller ev1)) = [efd \<mapsto> 0]"
    using r1(2) by (simp add: ev0_def NewPoller_def c0_def)
  have i2: "poller_inv ev2" "in_sync_but {1} ev2" "chans ev2 1 = Some (c0\<lparr>fd := tfd\<rparr>)"
    using r1(1) r1(6) [OF i0(2)] cm1
    by (auto simp: poller_inv_def in_sync_but_def ev2_def Let_def split: if_splits)
  have idx2: "index (c0\<lparr>fd := tfd\<rparr>) < 0" by (simp add: c0_def)
  note r3 = UpdateChannel_new [OF i2(1) assms(1) i2(3) idx2 u3]
  have fin: "poller_inv ev" "in_sync ev"
    using r3(1) r3(6) [OF i2(2)] c3
    by (auto intro!: poller_inv_chan in_sync_chan)
  have reg: "registered (hist ev) = [efd \<mapsto> 1, tfd \<mapsto> 1]" "efd \<noteq> tfd"
    using r3(3,4) r1(3) c3(2)
    by (auto simp: upd_chan_def ev2_def ev0_def c0_def ReadableEvent_def split: if_splits)
  have cnt: "GetChannelCount ev = 2" using count_card [OF fin(1)] reg by simp
  have ch: "chans ev 0 \<noteq> None \<and> map_option readCallback (chans ev 0) = Some (Some HWakeup)"
    using r3(5) r1(5) c3(2) by (simp add: upd_chan_def ev2_def c0_def)
  have fields: "wakeupEventChannel ev = 0" "timerQ ev = \<lparr>timerChannel = 1, timerIdCounter = 0, theap = []\<rparr>"
      "functors ev = []" "running ev = 0" "gid ev = 0" "loop_id ev = idGen + 1"
    by (simp_all add: c3(2) upd_chan_def UpdateChannel_fields [OF u3] ev2_def
        UpdateChannel_fields [OF u1] ev0_def)
  show ?thesis
    using e t reg fin cnt ch fields n(2) c3(2)
    by (auto simp: timer_inv_def upd_chan_def)
qed

text \<open>Concrete run: eventfd 4, epoll descriptor 3, timerfd 5.\<close>

theorem NewEventLoop_ready_witness:
  "\<exists>ev :: (unit, unit, unit) evloop. NewEventLoop (sample_kernel []) (Inr 4) None (Inr 3) (Inr 5) None 0 = Inr (ev, 1)
     \<and> GetChannelCount ev = 2 \<and> registered (hist ev) = [4 \<mapsto> 1, 5 \<mapsto> 1]"
proof -
  obtain ev :: "(unit, unit, unit) evloop" and j where
    "NewEventLoop (sample_kernel []) (Inr 4) None (Inr 3) (Inr 5) None 0 = Inr (ev, j)"
    by (simp add: NewEventLoop_def newTimerQueue_def UpdateChannel_def base_frame alloc_chan_def
        sample_kernel_def channel_ops check_errno_def registered_def NewPoller_def)
  with NewEventLoop_ready [OF sample_ctl this] show ?thesis by auto
qed

text \<open>Stopping, seen from the head of a turn: when another goroutine calls \<^verbatim>\<open>Stop\<close> while the loop is about to wait or waits in
  \<^verbatim>\<open>epoll_wait\<close> (calls in the middle of a turn are the subject of \<^verbatim>\<open>Loop_Wakeup\<close>) and the wakeup is accepted
  (written, or \<^verbatim>\<open>EAGAIN\<close>), the closure is queued last and nothing else changes but the recorded
  write; if no callback empties the queue and no closure restarts the loop, then whatever the turn that begins does, it is the
  last one: the \<^verbatim>\<open>for\<close> loop ends with that turn's result, a panic in it included, and after a normal
  turn the loop is no longer running.\<close>

theorem Stop_ends_turns:
  fixes s :: "('d, 'u, 'c, 'z) evloop_scheme"
  assumes "running s = 1" "gid s \<noteq> g" "chans s (wakeupEventChannel s) = Some c"
    "k_write K (hist s) (fd c) [0, 0, 0, 0, 0, 0, 0, 1] \<in> insert (Inl EAGAIN) (range Inr)"
    "\<And>d. keeps_queue (runD d)" "\<And>u i. keeps_queue (onT u i)"
    "\<And>x s s'. runC x s = Inr s' \<Longrightarrow> running s = 0 \<Longrightarrow> running s' = 0"
    "turn = loop_turn (run_handler runD onT K) (run_functor runC K) K"
  shows "\<exists>s1. Stop runC K g s = Inr s1 \<and> functors s1 = functors s @ [FStop]
    \<and> s1 = s\<lparr>functors := functors s1, hist := hist s1\<rparr>
    \<and> loop_while turn s1 = Some (turn s1)
    \<and> (\<forall>s'. turn s1 = Inr s' \<longrightarrow> running s' = 0)"
proof -
  let ?q = "s\<lparr>functors := functors s @ [FStop]\<rparr>"
  obtain h where w: "wakeup K ?q = Inr (?q\<lparr>hist := h\<rparr>)"
    using wakeup_spec [of ?q c K] assms(3,4) by auto
  let ?s1 = "?q\<lparr>hist := h\<rparr>"
  have stop: "Stop runC K g s = Inr ?s1" using assms(2) w by (simp add: Stop_def RunInLoop_def)
  have last: "running s' = 0" if t: "turn ?s1 = Inr s'" for s'
  proof -
    obtain ps s2 s3 where p: "Poll K ?s1 = Some (Inr (ps, s2))"
        "rfold (\<lambda>p. HandleEvent (run_handler runD onT K) (deref_chan p)) ps s2 = Inr s3"
        "rfold (run_functor runC K) (functors s3) (s3\<lparr>functors := []\<rparr>) = Inr s'"
      using t by (auto simp: assms(8) loop_turn_def rbind_eq_Inr or_hang_Inr)
    have "functors s2 = functors ?s1" by (subst Poll_frame [OF p(1)]) simp
    moreover have "keeps_queue (HandleEvent (run_handler runD onT K) (deref_chan p))" for p
      by (rule HandleEvent_keeps_queue [OF run_handler_keeps_queue [OF assms(5,6)]])
    ultimately have "FStop \<in> set (functors s3)"
      using keeps_queueD [OF rfold_keeps_queue p(2)] by auto
    then show ?thesis by (intro rfold_stopped [OF _ p(3)] disjI2) (rule assms(7))
  qed
  have "loop_while turn ?s1 = Some (turn ?s1)"
  proof (cases "turn ?s1")
    case (Inr s')
    then show ?thesis using last [OF Inr] assms(1)
      by (simp add: loop_while_turn [of ?s1 turn] loop_while_stop)
  qed (use assms(1) in \<open>subst loop_while.simps, simp\<close>)
  with stop last show ?thesis by (intro exI [of _ ?s1]) simp
qed

text \<open>Concrete run: a loop with its eventfd channel, stopped by goroutine 7.\<close>

definition sample_loop :: "(unit, unit, unit) evloop" where
  "sample_loop = \<lparr>hist = [SysEpollCtl EPOLL_CTL_ADD 5 1 None],
     chans = [0 \<mapsto> \<lparr>fd = 5, events = 1, revents = 0, index = 1, readCallback = Some HWakeup, writeCallback = None\<rparr>],
     the_poller = \<lparr>epollFD = 3, channelMap = [(5, 0)], eventListLen = 128, idxCounter = 1\<rparr>,
     timerQ = \<lparr>timerChannel = 0, timerIdCounter = 0, theap = []\<rparr>,
     wakeupEventChannel = 0, functors = [FGetChannelCount 0], running = 1, gid = 1, loop_id = 1,
     loop_ctx = NewContext, doOnLoop = None, doOnStop = None, extraForReadFD = [], nextPtr = 1,
     replies = Map.empty, nextReply = 1\<rparr>"

theorem Stop_ends_turns_witness:
  "\<exists>s1. Stop (\<lambda>_. Inr) (sample_kernel []) 7 sample_loop = Inr s1
     \<and> functors s1 = [FGetChannelCount 0, FStop]
     \<and> loop_while (loop_turn (run_handler (\<lambda>_. Inr) (\<lambda>_ _. Inr) (sample_kernel []))
           (run_functor (\<lambda>_. Inr) (sample_kernel [])) (sample_kernel [])) s1
       = Some (loop_turn (run_handler (\<lambda>_. Inr) (\<lambda>_ _. Inr) (sample_kernel []))
           (run_functor (\<lambda>_. Inr) (sample_kernel [])) (sample_kernel []) s1)"
proof -
  have c: "chans sample_loop (wakeupEventChannel sample_loop) =
      Some \<lparr>fd = 5, events = 1, revents = 0, index = 1, readCallback = Some HWakeup, writeCallback = None\<rparr>"
    by (simp add: sample_loop_def)
  show ?thesis
    using Stop_ends_turns [OF _ _ c, of 7 "sample_kernel []" "\<lambda>_. Inr" "\<lambda>_ _. Inr" "\<lambda>_. Inr", OF _ _ _ _ _ _ refl]
    by (fastforce simp: keeps_queue_def sample_kernel_def sample_loop_def)
qed

text \<open>\<^verbatim>\<open>examples/timer/main.go\<close>, run by its only goroutine \<open>g\<close>: \<open>recv\<close> is the receive \<^verbatim>\<open><-c\<close>, which
  never ends on an empty reply channel when no other goroutine exists.\<close>

definition recv :: "('d, 'u, 'c, 'z) evloop_scheme \<Rightarrow> int call \<Rightarrow> int res" where
  "recv s a = (case a of Ret v \<Rightarrow> Inr v
     | Await r \<Rightarrow> (case replies s r of Some (RInt v) \<Rightarrow> Inr v | _ \<Rightarrow> Inl Hang))"

definition timer_main where
  "timer_main K mk_eventfd nb1 mk_epoll mk_timerfd nb2 runH runC onD onTimeout g =
     rbind (NewEventLoop K mk_eventfd nb1 mk_epoll mk_timerfd nb2 0) (\<lambda>(loop, idGen).
     case time_Now K loop of (now, loop1) \<Rightarrow>
     rbind (RunAt runC K g now 3000000000 onTimeout loop1) (\<lambda>(a, loop2).
     rbind (recv loop2 a) (\<lambda>_.
       Loop runH (run_functor runC K) onD K g loop2)))"

lemma newTimerQueue_fields:
  assumes "newTimerQueue K mk nb s = Inr s'"
  shows "loop_id s' = loop_id s \<and> gid s' = gid s \<and> running s' = running s \<and> functors s' = functors s \<and> replies s' = replies s
    \<and> doOnStop s' = doOnStop s \<and> wakeupEventChannel s' = wakeupEventChannel s \<and> dom (chans s) \<subseteq> dom (chans s')"
proof -
  obtain tfd p s1 s2 c where m: "alloc_chan (SetEvent ReadableEvent (NewChannel tfd)) s = (p, s1)"
      "UpdateChannel K p (s1\<lparr>timerQ := \<lparr>timerChannel = p, timerIdCounter = 0, theap = []\<rparr>\<rparr>) = Inr s2"
      "s' = upd_chan p (SetReadCallback HTimer c) s2"
    using assms by (auto simp: newTimerQueue_def rbind_eq_Inr split: sum.splits prod.splits)
  show ?thesis
    using m(1,3) UpdateChannel_fields [OF m(2)] UpdateChannel_dom [OF m(2)]
    by (auto simp: alloc_chan_def upd_chan_def)
qed

lemma NewEventLoop_fields:
  assumes "NewEventLoop K mk_eventfd nb1 mk_epoll mk_timerfd nb2 idGen = Inr (ev, j)"
  shows "gid ev = 0" "running ev = 0" "functors ev = []" "replies ev = Map.empty" "doOnStop ev = None"
    "\<exists>c. chans ev (wakeupEventChannel ev) = Some c" "loop_id ev = idGen + 1" "j = idGen + 1"
proof -
  obtain ev0 ev1 where u: "UpdateChannel K (wakeupEventChannel ev0) ev0 = Inr ev1"
      "newTimerQueue K mk_timerfd nb2 ev1 = Inr ev"
    and j: "j = idGen + 1" and f: "loop_id ev0 = idGen + 1 \<and> gid ev0 = 0 \<and> running ev0 = 0 \<and> functors ev0 = [] \<and> replies ev0 = Map.empty \<and> doOnStop ev0 = None
      \<and> dom (chans ev0) = {0} \<and> wakeupEventChannel ev0 = 0"
    using assms by (auto simp: NewEventLoop_def rbind_eq_Inr Let_def split: sum.splits)
  then show "gid ev = 0" "running ev = 0" "functors ev = []" "replies ev = Map.empty" "doOnStop ev = None"
    "\<exists>c. chans ev (wakeupEventChannel ev) = Some c" "loop_id ev = idGen + 1" "j = idGen + 1"
    using newTimerQueue_fields [OF u(2)] UpdateChannel_fields [OF u(1)] UpdateChannel_dom [OF u(1)]
    by auto
qed

text \<open>C40. \<^verbatim>\<open>RunAt\<close> before \<^verbatim>\<open>Loop\<close> deadlocks: in the timer example, once the loop is constructed and whatever
  the clock says, the main goroutine queues the closure that adds the timer, and then waits for
  its answer forever: the loop that would give it has not been started. No timer is ever added.\<close>

theorem timer_example_hangs:
  fixes loop :: "('d, 'u, 'c) evloop" and onTimeout :: 'u
    and runC :: "'c \<Rightarrow> ('d, 'u, 'c) evloop \<Rightarrow> ('d, 'u, 'c) evloop res"
  assumes "NewEventLoop K mk_eventfd nb1 mk_epoll mk_timerfd nb2 0 = Inr (loop, j)" "g > 0"
    "\<And>h f bs. k_write K h f bs \<in> insert (Inl EAGAIN) (range Inr)"
  shows "timer_main K mk_eventfd nb1 mk_epoll mk_timerfd nb2 runH runC onD onTimeout g = Inl Hang"
proof -
  note new = NewEventLoop_fields [OF assms(1)]
  obtain c where c: "chans loop (wakeupEventChannel loop) = Some c" using new(6) by blast
  define now where "now = k_now K (hist loop)"
  define q where "q = loop\<lparr>hist := hist loop @ [SysNow now], nextReply := nextReply loop + 1,
      functors := [FAddTimer now 3000000000 onTimeout (nextReply loop)]\<rparr>"
  obtain h where "wakeup K q = Inr (q\<lparr>hist := h\<rparr>)"
    using wakeup_spec [of q c K] c assms(3) by (auto simp: q_def)
  moreover have "replies q = Map.empty" using new(4) by (simp add: q_def)
  ultimately show ?thesis
    using new assms(1,2)
    by (simp add: timer_main_def time_Now_def Let_def RunAt_def ask_def RunInLoop_def recv_def
        now_def [symmetric] q_def)
qed

text \<open>Concrete run: the example on the sample kernel, in goroutine 1.\<close>

theorem timer_example_hangs_witness:
  "timer_main (sample_kernel []) (Inr 4) None (Inr 3) (Inr 5) None (\<lambda>(_ :: unit handler). Inr) (\<lambda>(_ :: unit). Inr)
     (\<lambda>(_ :: unit). Inr) () 1 = Inl Hang"
proof -
  obtain ev :: "(unit, unit, unit) evloop" and j where e:
    "NewEventLoop (sample_kernel []) (Inr 4) None (Inr 3) (Inr 5) None 0 = Inr (ev, j)"
    by (simp add: NewEventLoop_def newTimerQueue_def UpdateChannel_def base_frame alloc_chan_def
        sample_kernel_def channel_ops check_errno_def registered_def NewPoller_def)
  show ?thesis by (rule timer_example_hangs [OF e]) (simp_all add: sample_kernel_def)
qed

end
