(* ===== verification/Loop_Wakeup.thy ===== *)
theory Loop_Wakeup
  imports Event_Loop
begin

text \<open>
  The protocol between \<^verbatim>\<open>RunInLoop\<close>, called by any number of goroutines, and the goroutine that
  runs \<^verbatim>\<open>Loop\<close>, as a step relation over their interleavings (\<^verbatim>\<open>pkg/event_loop/evloop.go\<close>). The
  steps are the atomic actions of the source: the append under \<^verbatim>\<open>mu\<close>, the write to the
  eventfd that follows it (\<^verbatim>\<open>wakeup\<close>), and, in the loop goroutine, the return of \<^verbatim>\<open>epoll_wait\<close>,
  the callbacks of the active channels (the eventfd one reads the eventfd), the take under
  \<^verbatim>\<open>mu\<close>, each functor, and the test of \<^verbatim>\<open>running\<close>. Whatever the loop goroutine runs (the \<^verbatim>\<open>DoOnLoop\<close> callback, those of
  the channels and timers, functors) may call \<^verbatim>\<open>RunInLoop\<close> itself: such a call runs the functor at once while
  \<^verbatim>\<open>running\<close> is 1, so that \<^verbatim>\<open>Stop\<close> from a callback clears it without any functor queued, and appends and writes
  otherwise (\<open>self_call\<close>). The eventfd belongs to the kernel: its state \<open>'e\<close>,
  write \<open>W\<close>, read \<open>R\<close> and readiness \<open>rd\<close> are parameters. \<open>stp\<close> tells the
  functor of \<^verbatim>\<open>Stop\<close>. \<open>appended\<close>, \<open>executed\<close> (of the appended ones), \<open>inline\<close> (run at once) and \<open>polls\<close> (returns of \<^verbatim>\<open>epoll_wait\<close>)
  are ghosts.
\<close>

datatype 'f loop_pc = AtPoll | Handle bool | Take | Exec "'f list" | Stopped

record ('e, 'f) wakeup_state =
  efd :: 'e
  queue :: "'f list"
  pending :: nat
  pc :: "'f loop_pc"
  is_running :: bool
  appended :: "'f list"
  executed :: "'f list"
  inline :: "'f list"
  polls :: nat

text \<open>\<^verbatim>\<open>Loop\<close> starts with the callback of \<^verbatim>\<open>DoOnLoop\<close> and the test of \<^verbatim>\<open>running\<close>, as after the last functor of a turn.\<close>

definition wk_init :: "'e \<Rightarrow> ('e, 'f) wakeup_state" where
  "wk_init e = \<lparr>efd = e, queue = [], pending = 0, pc = Exec [], is_running = True, appended = [], executed = [], inline = [], polls = 0\<rparr>"

text \<open>\<^verbatim>\<open>RunInLoop\<close> of another goroutine: the append, then the write.\<close>

definition enqueue :: "'f \<Rightarrow> ('e, 'f) wakeup_state \<Rightarrow> ('e, 'f) wakeup_state" where
  "enqueue f s = s\<lparr>queue := queue s @ [f], pending := pending s + 1, appended := appended s @ [f]\<rparr>"

definition write_wakeup :: "('e \<Rightarrow> 'e) \<Rightarrow> ('e, 'f) wakeup_state \<Rightarrow> ('e, 'f) wakeup_state" where
  "write_wakeup W s = s\<lparr>pending := pending s - 1, efd := W (efd s)\<rparr>"

text \<open>\<^verbatim>\<open>RunInLoop\<close> called by what the loop goroutine runs. Nobody but this goroutine reads the eventfd, so
  the append and the write are one step.\<close>

definition self_call :: "('e \<Rightarrow> 'e) \<Rightarrow> ('f \<Rightarrow> bool) \<Rightarrow> 'f \<Rightarrow> ('e, 'f) wakeup_state \<Rightarrow> ('e, 'f) wakeup_state" where
  "self_call W stp f s =
     (if is_running s then s\<lparr>inline := inline s @ [f], is_running := \<not> stp f\<rparr> else write_wakeup W (enqueue f s))"

text \<open>The next action of the loop goroutine; \<open>None\<close> when it is blocked in \<^verbatim>\<open>epoll_wait\<close> with
  the eventfd not readable, or has left the loop. Reading an eventfd that is not readable would
  fail with \<^verbatim>\<open>EAGAIN\<close>, and the callback would panic.\<close>

fun loop_next :: "('e \<Rightarrow> 'e) \<Rightarrow> ('e \<Rightarrow> bool) \<Rightarrow> ('f \<Rightarrow> bool) \<Rightarrow> ('e, 'f) wakeup_state
    \<Rightarrow> ('e, 'f) wakeup_state res option" where
  "loop_next R rd stp s =
     (case pc s of
        AtPoll \<Rightarrow> if rd (efd s) then Some (Inr (s\<lparr>pc := Handle True, polls := polls s + 1\<rparr>)) else None
      | Handle b \<Rightarrow>
          if b then (if rd (efd s) then Some (Inr (s\<lparr>efd := R (efd s), pc := Take\<rparr>))
                     else Some (Inl (PanicErr EAGAIN)))
          else Some (Inr (s\<lparr>pc := Take\<rparr>))
      | Take \<Rightarrow> Some (Inr (s\<lparr>pc := Exec (queue s), queue := []\<rparr>))
      | Exec [] \<Rightarrow> Some (Inr (s\<lparr>pc := (if is_running s then AtPoll else Stopped)\<rparr>))
      | Exec (f # fs) \<Rightarrow>
          Some (Inr (s\<lparr>pc := Exec fs, executed := executed s @ [f], is_running := is_running s \<and> \<not> stp f\<rparr>))
      | Stopped \<Rightarrow> None)"

declare loop_next.simps [simp del]

text \<open>\<open>wk_other\<close>: \<^verbatim>\<open>epoll_wait\<close> returns other descriptors only; a readable eventfd may be missing when they fill the array.\<close>

inductive wk_step :: "('e \<Rightarrow> 'e) \<Rightarrow> ('e \<Rightarrow> 'e) \<Rightarrow> ('e \<Rightarrow> bool) \<Rightarrow> ('f \<Rightarrow> bool)
    \<Rightarrow> ('e, 'f) wakeup_state \<Rightarrow> ('e, 'f) wakeup_state \<Rightarrow> bool"
  for W R rd stp where
  wk_enqueue: "wk_step W R rd stp s (enqueue f s)"
| wk_write: "0 < pending s \<Longrightarrow> wk_step W R rd stp s (write_wakeup W s)"
| wk_other: "pc s = AtPoll \<Longrightarrow> wk_step W R rd stp s (s\<lparr>pc := Handle False, polls := polls s + 1\<rparr>)"
| wk_call: "pc s \<noteq> AtPoll \<Longrightarrow> wk_step W R rd stp s (self_call W stp f s)"
| wk_loop: "loop_next R rd stp s = Some (Inr s') \<Longrightarrow> wk_step W R rd stp s s'"

inductive wk_reach :: "('e \<Rightarrow> 'e) \<Rightarrow> ('e \<Rightarrow> 'e) \<Rightarrow> ('e \<Rightarrow> bool) \<Rightarrow> ('f \<Rightarrow> bool) \<Rightarrow> 'e
    \<Rightarrow> ('e, 'f) wakeup_state \<Rightarrow> bool"
  for W R rd stp e where
  wk_start: "wk_reach W R rd stp e (wk_init e)"
| wk_next: "wk_reach W R rd stp e s \<Longrightarrow> wk_step W R rd stp s s' \<Longrightarrow> wk_reach W R rd stp e s'"

inductive_cases wk_stepE: "wk_step W R rd stp s s'"

text \<open>eventfd(2): after a write, accepted or refused with \<^verbatim>\<open>EAGAIN\<close> because the counter is full,
  the descriptor is readable.\<close>

definition eventfd_documented :: "('e \<Rightarrow> 'e) \<Rightarrow> ('e \<Rightarrow> bool) \<Rightarrow> bool" where
  "eventfd_documented W rd \<longleftrightarrow> (\<forall>e. rd (W e))"

section \<open>Invariant\<close>

text \<open>The functors taken from the queue and not executed yet.\<close>

definition taken :: "('e, 'f) wakeup_state \<Rightarrow> 'f list" where
  "taken s = (case pc s of Exec fs \<Rightarrow> fs | _ \<Rightarrow> [])"

definition wk_inv :: "('e \<Rightarrow> bool) \<Rightarrow> ('f \<Rightarrow> bool) \<Rightarrow> ('e, 'f) wakeup_state \<Rightarrow> bool" where
  "wk_inv rd stp s \<longleftrightarrow>
     executed s @ taken s @ queue s = appended s
   \<and> (case pc s of
        Handle b \<Rightarrow> b \<longrightarrow> rd (efd s)
      | Take \<Rightarrow> True
      | _ \<Rightarrow> queue s \<noteq> [] \<longrightarrow> rd (efd s) \<or> 0 < pending s)
   \<and> (is_running s \<longleftrightarrow> list_all (\<lambda>f. \<not> stp f) (executed s @ inline s))
   \<and> (pc s = Stopped \<longrightarrow> \<not> is_running s) \<and> (pc s = AtPoll \<longrightarrow> is_running s)"

lemma wk_inv_init: "wk_inv rd stp (wk_init e)"
  by (simp add: wk_inv_def wk_init_def taken_def)

lemma loop_next_inv:
  assumes "wk_inv rd stp s" "loop_next R rd stp s = Some (Inr s')"
  shows "wk_inv rd stp s'"
proof (cases "pc s")
  case (Exec fs)
  then show ?thesis
    using assms by (cases fs) (auto simp: loop_next.simps wk_inv_def taken_def split: if_splits)
qed (use assms in \<open>auto simp: loop_next.simps wk_inv_def taken_def split: if_splits\<close>)

lemma wk_step_inv:
  assumes "wk_step W R rd stp s s'" "eventfd_documented W rd" "wk_inv rd stp s"
  shows "wk_inv rd stp s'"
  using assms
proof cases
  case (wk_enqueue f)
  have "executed s @ taken s @ queue s @ [f] = appended s @ [f]"
    using assms(3) by (metis append_assoc wk_inv_def)
  then show ?thesis using assms(3) wk_enqueue
    by (cases "pc s") (auto simp: wk_inv_def enqueue_def taken_def)
next
  case wk_write
  then show ?thesis using assms(2,3)
    by (auto simp: wk_inv_def write_wakeup_def taken_def eventfd_documented_def split: loop_pc.splits)
next
  case wk_other
  then show ?thesis using assms(3) by (auto simp: wk_inv_def taken_def)
next
  case (wk_call f)
  have a: "executed s @ taken s @ queue s @ [f] = appended s @ [f]"
    using assms(3) by (metis append_assoc wk_inv_def)
  show ?thesis
  proof (cases "is_running s")
    case True
    then show ?thesis using assms(3) wk_call unfolding wk_inv_def by (auto simp: self_call_def taken_def split: loop_pc.splits)
  next
    case False
    then show ?thesis using assms(2,3) wk_call a
      by (cases "pc s") (auto simp: self_call_def wk_inv_def write_wakeup_def enqueue_def taken_def eventfd_documented_def)
  qed
next
  case wk_loop
  then show ?thesis using loop_next_inv assms(3) by blast
qed

lemma wk_reach_inv:
  "wk_reach W R rd stp e s \<Longrightarrow> eventfd_documented W rd \<Longrightarrow> wk_inv rd stp s"
  by (induction rule: wk_reach.induct) (auto intro: wk_inv_init wk_step_inv)

section \<open>Distance to execution\<close>

text \<open>The number of steps of the loop goroutine until the first \<open>k\<close> appended functors have been
  executed.\<close>

definition distance :: "nat \<Rightarrow> ('e, 'f) wakeup_state \<Rightarrow> nat" where
  "distance k s =
     (if k \<le> length (executed s) then 0
      else k - length (executed s) +
        (case pc s of AtPoll \<Rightarrow> 3 | Handle b \<Rightarrow> 2 | Take \<Rightarrow> 1 | Stopped \<Rightarrow> 0
         | Exec fs \<Rightarrow> if k \<le> length (executed s) + length fs then 0 else 4))"

lemma distance_loop:
  assumes "wk_inv rd stp s" "k \<le> length (appended s)" "loop_next R rd stp s = Some (Inr s')"
  shows "distance k s' \<le> distance k s \<and> (length (executed s) < k \<longrightarrow> pc s' = Stopped \<or> distance k s' < distance k s)"
proof -
  have len: "length (executed s) + length (taken s) + length (queue s) = length (appended s)"
    using assms(1) unfolding wk_inv_def by (metis add.assoc length_append)
  show ?thesis
  proof (cases "pc s")
    case (Exec fs)
    then show ?thesis
      using assms(2,3) len by (cases fs) (auto simp: loop_next.simps distance_def taken_def split: if_splits)
  qed (use assms(2,3) len in \<open>auto simp: loop_next.simps distance_def taken_def split: if_splits\<close>)
qed

lemma distance_step:
  assumes "wk_inv rd stp s" "k \<le> length (appended s)" "wk_step W R rd stp s s'"
  shows "distance k s' \<le> distance k s"
  using assms(3)
proof cases
  case wk_loop
  then show ?thesis using distance_loop assms(1,2) by blast
qed (auto simp: distance_def self_call_def enqueue_def write_wakeup_def split: loop_pc.splits)

section \<open>After Stop\<close>

text \<open>A functor of \<^verbatim>\<open>Stop\<close> has been queued or run.\<close>

definition stop_called :: "('f \<Rightarrow> bool) \<Rightarrow> ('e, 'f) wakeup_state \<Rightarrow> bool" where
  "stop_called stp s \<longleftrightarrow> list_ex stp (appended s @ inline s)"

text \<open>How often \<^verbatim>\<open>epoll_wait\<close> can still return then; and where the loop is on its way out.\<close>

definition polls_left :: "('f \<Rightarrow> bool) \<Rightarrow> ('e, 'f) wakeup_state \<Rightarrow> nat" where
  "polls_left stp s = (if \<not> is_running s then 0
     else case pc s of AtPoll \<Rightarrow> 1 | Exec fs \<Rightarrow> if list_ex stp fs then 0 else 1 | _ \<Rightarrow> 0)"

definition way_out :: "('f \<Rightarrow> bool) \<Rightarrow> ('e, 'f) wakeup_state \<Rightarrow> nat \<times> nat" where
  "way_out stp s = (case pc s of AtPoll \<Rightarrow> (4, 0) | Handle b \<Rightarrow> (3, 0) | Take \<Rightarrow> (2, 0) | Stopped \<Rightarrow> (0, 0)
     | Exec fs \<Rightarrow> (if is_running s \<and> \<not> list_ex stp fs then 5 else 1, length fs))"

lemma stop_pending:
  assumes "wk_inv rd stp s" "stop_called stp s" "is_running s"
  shows "list_ex stp (taken s @ queue s)"
proof -
  have "list_ex stp (executed s @ taken s @ queue s @ inline s)" "list_all (\<lambda>f. \<not> stp f) (executed s @ inline s)"
    using assms unfolding wk_inv_def stop_called_def by (metis append_assoc, blast)
  then show ?thesis by (auto simp: list_ex_iff list_all_iff)
qed

lemma loop_next_way_out:
  assumes "wk_inv rd stp s" "stop_called stp s" "loop_next R rd stp s = Some (Inr s')"
  shows "stop_called stp s'" "polls s' + polls_left stp s' \<le> polls s + polls_left stp s"
    "(way_out stp s', way_out stp s) \<in> less_than <*lex*> less_than"
proof -
  have p: "is_running s \<Longrightarrow> list_ex stp (taken s @ queue s)" by (rule stop_pending [OF assms(1,2)])
  have a: "pc s = AtPoll \<Longrightarrow> is_running s" using assms(1) unfolding wk_inv_def by blast
  have "appended s' = appended s \<and> inline s' = inline s"
    using assms(3) by (auto simp: loop_next.simps split: loop_pc.splits list.splits if_splits)
  then show "stop_called stp s'" using assms(2) by (simp add: stop_called_def)
  show "polls s' + polls_left stp s' \<le> polls s + polls_left stp s"
    using assms(3) p a by (cases "is_running s")
      (auto simp: loop_next.simps taken_def polls_left_def split: loop_pc.splits list.splits if_splits)
  show "(way_out stp s', way_out stp s) \<in> less_than <*lex*> less_than"
    using assms(3) p by (cases "is_running s")
      (auto simp: loop_next.simps taken_def way_out_def split: loop_pc.splits list.splits if_splits)
qed

lemma step_way_out:
  assumes "wk_inv rd stp s" "stop_called stp s" "wk_step W R rd stp s s'"
  shows "stop_called stp s'" "polls s' + polls_left stp s' \<le> polls s + polls_left stp s"
    "(way_out stp s', way_out stp s) \<in> less_than <*lex*> less_than \<or> way_out stp s' = way_out stp s \<and> pc s' = pc s"
proof -
  have "stop_called stp s' \<and> polls s' + polls_left stp s' \<le> polls s + polls_left stp s
      \<and> ((way_out stp s', way_out stp s) \<in> less_than <*lex*> less_than \<or> way_out stp s' = way_out stp s \<and> pc s' = pc s)"
    using assms(3)
  proof cases
    case wk_loop
    then show ?thesis using loop_next_way_out assms(1,2) by blast
  next
    case wk_other
    then show ?thesis using assms(1,2) by (auto simp: wk_inv_def stop_called_def polls_left_def way_out_def)
  next
    case (wk_call f)
    then show ?thesis using assms(1,2)
      by (auto simp: self_call_def write_wakeup_def enqueue_def stop_called_def polls_left_def way_out_def split: loop_pc.splits)
  qed (use assms(2) in \<open>auto simp: enqueue_def write_wakeup_def stop_called_def polls_left_def way_out_def split: loop_pc.splits\<close>)
  then show "stop_called stp s'" "polls s' + polls_left stp s' \<le> polls s + polls_left stp s"
    "(way_out stp s', way_out stp s) \<in> less_than <*lex*> less_than \<or> way_out stp s' = way_out stp s \<and> pc s' = pc s" by blast+
qed

lemma steps_polls:
  assumes "(wk_step W R rd stp)\<^sup>*\<^sup>* s s'" "wk_inv rd stp s" "stop_called stp s" "eventfd_documented W rd"
  shows "wk_inv rd stp s' \<and> stop_called stp s' \<and> polls s' + polls_left stp s' \<le> polls s + polls_left stp s"
  using assms
proof (induction rule: rtranclp_induct)
  case (step s1 s2)
  then have ih: "wk_inv rd stp s1" "stop_called stp s1" "polls s1 + polls_left stp s1 \<le> polls s + polls_left stp s" by simp_all
  with step_way_out [OF ih(1,2) step.hyps(2)] wk_step_inv [OF step.hyps(2) step.prems(3) ih(1)] show ?case by auto
qed simp

lemma finite_moves:
  assumes "wk_inv rd stp (\<sigma> 0)" "stop_called stp (\<sigma> 0)" "eventfd_documented W rd" "\<And>i. wk_step W R rd stp (\<sigma> i) (\<sigma> (Suc i))"
  shows "finite {i. pc (\<sigma> (Suc i)) \<noteq> pc (\<sigma> i)}"
  using assms
proof (induction "way_out stp (\<sigma> 0)" arbitrary: \<sigma> rule: wf_induct_rule [OF wf_lex_prod [OF wf_less_than wf_less_than]])
  case (1 \<sigma>)
  have inv: "wk_inv rd stp (\<sigma> i) \<and> stop_called stp (\<sigma> i)" for i
  proof (induction i)
    case (Suc i)
    then show ?case using step_way_out(1) wk_step_inv "1.prems"(3,4) by blast
  qed (use "1.prems" in simp)
  note step = step_way_out(3) [OF inv [THEN conjunct1] inv [THEN conjunct2] "1.prems"(4)]
  let ?M = "{i. pc (\<sigma> (Suc i)) \<noteq> pc (\<sigma> i)}"
  show ?case
  proof (cases "?M = {}")
    case False
    define m where "m = (LEAST i. i \<in> ?M)"
    have "\<exists>i. i \<in> ?M" using False by (simp only: ex_in_conv simp_thms)
    then have m: "m \<in> ?M" unfolding m_def by (rule LeastI_ex [of "\<lambda>i. i \<in> ?M"])
    have tr: "trans (less_than <*lex*> less_than)" by (rule trans_lex_prod [OF trans_less_than trans_less_than])
    have "way_out stp (\<sigma> i) = way_out stp (\<sigma> 0) \<or> (way_out stp (\<sigma> i), way_out stp (\<sigma> 0)) \<in> less_than <*lex*> less_than" for i
    proof (induction i)
      case (Suc i)
      with step [of i] show ?case using transD [OF tr] by metis
    qed simp
    moreover have "(way_out stp (\<sigma> (Suc m)), way_out stp (\<sigma> m)) \<in> less_than <*lex*> less_than" using step [of m] m by blast
    ultimately have "(way_out stp (\<sigma> (Suc m)), way_out stp (\<sigma> 0)) \<in> less_than <*lex*> less_than"
      using transD [OF tr] by metis
    then have "finite {i. pc (\<sigma> (Suc m + Suc i)) \<noteq> pc (\<sigma> (Suc m + i))}"
      using "1.hyps" [of "\<lambda>i. \<sigma> (Suc m + i)"] inv "1.prems"(3,4) by simp
    then have "finite ((\<lambda>i. Suc m + i) ` {i. pc (\<sigma> (Suc m + Suc i)) \<noteq> pc (\<sigma> (Suc m + i))})" by blast
    moreover have "?M \<subseteq> {..m} \<union> (\<lambda>i. Suc m + i) ` {i. pc (\<sigma> (Suc m + Suc i)) \<noteq> pc (\<sigma> (Suc m + i))}"
    proof
      fix i assume i: "i \<in> ?M"
      show "i \<in> {..m} \<union> (\<lambda>i. Suc m + i) ` {i. pc (\<sigma> (Suc m + Suc i)) \<noteq> pc (\<sigma> (Suc m + i))}"
      proof (cases "i \<le> m")
        case False
        then have "i = Suc m + (i - Suc m)" by simp
        with i show ?thesis by (intro UnI2 image_eqI [of _ _ "i - Suc m"]) simp_all
      qed simp
    qed
    ultimately show ?thesis by (meson finite_Un finite_atMost finite_subset)
  qed simp
qed

section \<open>The counter of eventfd(2)\<close>

text \<open>The documented counter, an instance of the parameters: a write adds its 8 bytes, read as
  a little-endian integer, unless the sum would exceed \<open>2 ^ 64 - 2\<close> (then \<^verbatim>\<open>EAGAIN\<close>), and a read
  resets it. The source writes the bytes 0, 0, 0, 0, 0, 0, 0, 1.\<close>

definition ctr_write :: "nat \<Rightarrow> nat" where
  "ctr_write n = (if n + 2 ^ 56 \<le> 2 ^ 64 - 2 then n + 2 ^ 56 else n)"

definition ctr_read :: "nat \<Rightarrow> nat" where
  "ctr_read n = 0"

definition ctr_readable :: "nat \<Rightarrow> bool" where
  "ctr_readable n \<longleftrightarrow> 0 < n"

lemma ctr_documented: "eventfd_documented ctr_write ctr_readable"
  by (auto simp: eventfd_documented_def ctr_write_def ctr_readable_def)

section \<open>Properties\<close>

text \<open>C4. Functors are executed exactly once and in order: in every interleaving of any number of
  \<^verbatim>\<open>RunInLoop\<close> callers with the loop and its callbacks, the queued functors executed so far, then those taken, then those
  still queued, are exactly the functors appended. \<^verbatim>\<open>running\<close> is cleared exactly when a functor of \<^verbatim>\<open>Stop\<close> has been executed,
  from the queue or at once in a call by the loop goroutine itself; the loop waits in \<^verbatim>\<open>epoll_wait\<close> only before that, and has left \<^verbatim>\<open>Loop\<close> only after.\<close>

theorem functors_fifo_once:
  assumes "wk_reach W R rd stp e s" "eventfd_documented W rd"
  shows "executed s @ taken s @ queue s = appended s
    \<and> (is_running s \<longleftrightarrow> list_all (\<lambda>f. \<not> stp f) (executed s @ inline s))
    \<and> (pc s = Stopped \<longrightarrow> \<not> is_running s) \<and> (pc s = AtPoll \<longrightarrow> is_running s)"
  using wk_reach_inv [OF assms] unfolding wk_inv_def by blast

text \<open>C3. No wakeup is lost: in every interleaving, a loop waiting in \<^verbatim>\<open>epoll_wait\<close> with functors
  queued either has a readable eventfd, so that the wait returns, or some caller has yet to
  write to it; and the eventfd callback never panics on \<^verbatim>\<open>EAGAIN\<close>. Moreover every queued functor
  comes to its turn: as long as the \<open>k\<close>-th functor has not been executed and the loop has not
  stopped, either the next step of the loop goroutine is enabled and brings it strictly
  nearer (or is the last, after a \<^verbatim>\<open>Stop\<close>), or a pending write will enable it; and no step of anyone brings it further away.\<close>

theorem no_lost_wakeup:
  assumes "wk_reach W R rd stp e s" "eventfd_documented W rd" "k \<le> length (appended s)"
    "length (executed s) < k" "pc s \<noteq> Stopped"
  shows "((pc s = AtPoll \<and> \<not> rd (efd s) \<and> 0 < pending s)
      \<or> (\<exists>s'. loop_next R rd stp s = Some (Inr s') \<and> (pc s' = Stopped \<or> distance k s' < distance k s)))
    \<and> (\<forall>s'. wk_step W R rd stp s s' \<longrightarrow> distance k s' \<le> distance k s)"
proof (rule conjI)
  note inv = wk_reach_inv [OF assms(1,2)]
  show "(pc s = AtPoll \<and> \<not> rd (efd s) \<and> 0 < pending s)
      \<or> (\<exists>s'. loop_next R rd stp s = Some (Inr s') \<and> (pc s' = Stopped \<or> distance k s' < distance k s))"
  proof (cases "pc s = AtPoll \<and> \<not> rd (efd s)")
    case True
    have "executed s @ queue s = appended s"
      using inv True by (simp add: wk_inv_def taken_def)
    then have "queue s \<noteq> []" using assms(3,4) by auto
    with True inv show ?thesis by (auto simp: wk_inv_def)
  next
    case False
    have "\<exists>s'. loop_next R rd stp s = Some (Inr s')"
      using False inv assms(5) by (auto simp: loop_next.simps wk_inv_def split: loop_pc.splits list.splits)
    then show ?thesis using distance_loop [OF inv assms(3)] assms(4) by blast
  qed
  show "\<forall>s'. wk_step W R rd stp s s' \<longrightarrow> distance k s' \<le> distance k s"
    using distance_step [OF inv assms(3)] by blast
qed

text \<open>C32. \<^verbatim>\<open>Stop\<close> ends \<^verbatim>\<open>Loop\<close>, wherever in a turn it is called and from whichever goroutine. Once its functor has been
  queued, or run at once by a callback: \<^verbatim>\<open>epoll_wait\<close> returns at most once more, and not again if the loop is already handling
  channels, or about to take the functors, or has taken it (a \<^verbatim>\<open>Stop\<close> queued after the take of a turn costs one more turn); until it
  has left \<^verbatim>\<open>Loop\<close>, its next step is enabled, or it waits and some caller has yet to write to the eventfd; and in every infinite
  schedule, whatever is queued or called meanwhile, the loop goroutine takes only finitely many of its steps.\<close>

theorem Stop_ends_Loop:
  assumes "wk_reach W R rd stp e s" "eventfd_documented W rd" "list_ex stp (appended s @ inline s)"
  shows "(pc s = Stopped \<or> (pc s = AtPoll \<and> \<not> rd (efd s) \<and> 0 < pending s) \<or> (\<exists>s'. loop_next R rd stp s = Some (Inr s')))
    \<and> (\<forall>s'. (wk_step W R rd stp)\<^sup>*\<^sup>* s s' \<longrightarrow> polls s' \<le> polls s
         + (if is_running s \<and> (pc s = AtPoll \<or> (\<exists>fs. pc s = Exec fs \<and> \<not> list_ex stp fs)) then 1 else 0))
    \<and> (\<forall>\<sigma>. \<sigma> 0 = s \<and> (\<forall>i. wk_step W R rd stp (\<sigma> i) (\<sigma> (Suc i))) \<longrightarrow> finite {i. pc (\<sigma> (Suc i)) \<noteq> pc (\<sigma> i)})"
proof -
  note inv = wk_reach_inv [OF assms(1,2)]
  have stop: "stop_called stp s" using assms(3) by (simp add: stop_called_def)
  have "pc s = Stopped \<or> (pc s = AtPoll \<and> \<not> rd (efd s) \<and> 0 < pending s) \<or> (\<exists>s'. loop_next R rd stp s = Some (Inr s'))"
  proof (cases "pc s = AtPoll")
    case True
    then have "queue s \<noteq> []" using stop_pending [OF inv stop] inv by (auto simp: wk_inv_def taken_def)
    with True inv show ?thesis by (auto simp: wk_inv_def loop_next.simps)
  next
    case False
    then show ?thesis using inv by (auto simp: loop_next.simps wk_inv_def split: loop_pc.splits list.splits)
  qed
  moreover have "polls_left stp s = (if is_running s \<and> (pc s = AtPoll \<or> (\<exists>fs. pc s = Exec fs \<and> \<not> list_ex stp fs)) then 1 else 0)"
    by (auto simp: polls_left_def split: loop_pc.splits)
  then have "polls s' \<le> polls s + (if is_running s \<and> (pc s = AtPoll \<or> (\<exists>fs. pc s = Exec fs \<and> \<not> list_ex stp fs)) then 1 else 0)"
    if "(wk_step W R rd stp)\<^sup>*\<^sup>* s s'" for s'
    using steps_polls [OF that inv stop assms(2)] by linarith
  moreover have "finite {i. pc (\<sigma> (Suc i)) \<noteq> pc (\<sigma> i)}"
    if "\<sigma> 0 = s \<and> (\<forall>i. wk_step W R rd stp (\<sigma> i) (\<sigma> (Suc i)))" for \<sigma>
    using that inv stop assms(2) by (intro finite_moves [where W = W and R = R and rd = rd and stp = stp]) simp_all
  ultimately show ?thesis by blast
qed

text \<open>Concrete run with the counter: one functor is queued while the loop waits; before the write the
  caller owes a wakeup, after it the loop can go on.\<close>

lemma sample_wk:
  "wk_reach ctr_write ctr_read ctr_readable (\<lambda>b. b) 0 (enqueue False (wk_init 0))"
  "wk_reach ctr_write ctr_read ctr_readable (\<lambda>b. b) 0 (write_wakeup ctr_write (enqueue False (wk_init 0)))"
  by (rule wk_next, rule wk_start, rule wk_enqueue)
    (rule wk_next, rule wk_next, rule wk_start, rule wk_enqueue, rule wk_write, simp add: enqueue_def)

theorem functors_fifo_once_witness:
  "executed (enqueue False (wk_init (0::nat))) @ taken (enqueue False (wk_init (0::nat)))
     @ queue (enqueue False (wk_init (0::nat))) = [False]"
  using functors_fifo_once [OF sample_wk(1) ctr_documented] by (simp add: enqueue_def wk_init_def)

theorem no_lost_wakeup_witness:
  "\<exists>s'. loop_next ctr_read ctr_readable (\<lambda>b. b) (write_wakeup ctr_write (enqueue False (wk_init 0))) = Some (Inr s')
     \<and> distance 1 s' < 5"
  using no_lost_wakeup [OF sample_wk(2) ctr_documented, of 1]
  by (auto simp: enqueue_def wk_init_def write_wakeup_def ctr_write_def ctr_readable_def distance_def loop_next.simps)

theorem Stop_ends_Loop_witness:
  "\<exists>s'. loop_next ctr_read ctr_readable Not (write_wakeup ctr_write (enqueue False (wk_init 0))) = Some (Inr s') \<and> pc s' = AtPoll"
proof -
  have "wk_reach ctr_write ctr_read ctr_readable Not 0 (write_wakeup ctr_write (enqueue False (wk_init 0)))"
    by (rule wk_next, rule wk_next, rule wk_start, rule wk_enqueue, rule wk_write, simp add: enqueue_def)
  from Stop_ends_Loop [OF this ctr_documented] show ?thesis
    by (auto simp: enqueue_def wk_init_def write_wakeup_def loop_next.simps)
qed

text \<open>The counter never overflows: 255 wakeups fit between two reads, and the following ones
  get \<^verbatim>\<open>EAGAIN\<close> with the eventfd still readable; a second write never does.\<close>

lemma wakeups_saturate:
  "(ctr_write ^^ n) 0 = min n 255 * 2 ^ 56"
  by (induction n) (auto simp: ctr_write_def min_def)

end
