(* ===== verification/Wait_Forever.thy ===== *)
theory Wait_Forever
  imports Event_Loop
begin

text \<open>
  \<^verbatim>\<open>examples/wait_forever/main.go\<close>: a loop that nobody gives anything to do. No timer is set, no
  callback is installed and no other goroutine exists, so the callbacks of the user are the
  identity.
\<close>

definition no_callback :: "'x \<Rightarrow> 's \<Rightarrow> 's res" where
  "no_callback x s = Inr s"

definition wait_main :: "kernel \<Rightarrow> errno + int \<Rightarrow> errno option \<Rightarrow> errno + int \<Rightarrow> errno + int \<Rightarrow> errno option \<Rightarrow> int
    \<Rightarrow> (unit, unit, unit) evloop res" where
  "wait_main K mk_eventfd nb1 mk_epoll mk_timerfd nb2 g =
     rbind (NewEventLoop K mk_eventfd nb1 mk_epoll mk_timerfd nb2 0) (\<lambda>(loop, idGen).
       Loop (run_handler no_callback (\<lambda>_. no_callback) K) (run_functor no_callback K) no_callback K g loop)"

text \<open>What a turn does to the two fields that could end the loop.\<close>

definition calm :: "(('d, 'u, 'c, 'z) evloop_scheme \<Rightarrow> ('d, 'u, 'c, 'z) evloop_scheme res) \<Rightarrow> bool" where
  "calm f \<longleftrightarrow> (\<forall>s s'. f s = Inr s' \<longrightarrow> running s' = running s \<and> functors s' = functors s)"

lemma calmD: "calm f \<Longrightarrow> f s = Inr s' \<Longrightarrow> running s' = running s \<and> functors s' = functors s"
  by (simp add: calm_def)

lemma calm_no_callback [simp]: "calm (no_callback x)"
  by (simp add: calm_def no_callback_def)

lemma calm_rfold: "(\<And>x. calm (f x)) \<Longrightarrow> calm (rfold f xs)"
proof (induction xs)
  case (Cons x xs)
  show ?case unfolding calm_def
  proof (intro allI impI)
    fix s s' assume "rfold f (x # xs) s = Inr s'"
    then obtain s1 where "f x s = Inr s1" "rfold f xs s1 = Inr s'" by (auto simp: rbind_eq_Inr)
    with calmD [OF Cons.prems] calmD [OF Cons.IH [OF Cons.prems]]
    show "running s' = running s \<and> functors s' = functors s" by fastforce
  qed
qed (simp add: calm_def)

lemma calm_read_fd: "calm (read_fd K p)"
  by (auto simp: calm_def read_fd_def rbind_eq_Inr Let_def)

lemma getExpired_calm: "getExpired K s = Some (Inr (te, s')) \<Longrightarrow> running s' = running s \<and> functors s' = functors s"
  by (auto simp: getExpired_def time_Now_def Let_def rbind_eq_Inr timerfd_settime_def set_heap_def
      split: if_splits option.splits)

lemma calm_handler: "calm (run_handler no_callback (\<lambda>_. no_callback) K h)"
proof (cases h)
  case HTimer
  show ?thesis unfolding calm_def
  proof (intro allI impI)
    fix s s' assume "run_handler no_callback (\<lambda>_. no_callback) K h s = Inr s'"
    then obtain s1 te s2 where r: "read_fd K (timerChannel (timerQ s)) s = Inr s1"
        "getExpired K s1 = Some (Inr (te, s2))" "rfold (\<lambda>v. no_callback (timerId v)) te s2 = Inr s'"
      using HTimer by (auto simp: run_handler_def rbind_eq_Inr or_hang_Inr)
    show "running s' = running s \<and> functors s' = functors s"
      using calmD [OF calm_read_fd r(1)] getExpired_calm [OF r(2)] calmD [OF calm_rfold r(3)] by simp
  qed
next
  case HWakeup
  then show ?thesis using calm_read_fd by (fastforce simp: calm_def run_handler_def)
qed (simp add: calm_def run_handler_def no_callback_def)

lemma calm_HandleEvent:
  assumes "\<And>h. calm (run h)"
  shows "calm (HandleEvent run get)"
proof -
  have opt: "running s' = running s \<and> functors s' = functors s"
    if "(if b then run_opt run cb s else Inr s) = Inr s'" for b cb s s'
    using that assms by (auto simp: run_opt_def calm_def split: if_splits option.splits)
  show ?thesis unfolding calm_def
  proof (intro allI impI)
    fix s s' assume "HandleEvent run get s = Inr s'"
    then show "running s' = running s \<and> functors s' = functors s"
      unfolding HandleEvent_def rbind_eq_Inr by (elim exE conjE) (auto dest!: opt)
  qed
qed

lemma turn_calm:
  assumes "loop_turn (run_handler no_callback (\<lambda>_. no_callback) K) runF K s = Inr s'" "functors s = []"
  shows "running s' = running s \<and> functors s' = []"
proof -
  obtain ps s1 s2 where p: "Poll K s = Some (Inr (ps, s1))"
      "rfold (\<lambda>p. HandleEvent (run_handler no_callback (\<lambda>_. no_callback) K) (deref_chan p)) ps s1 = Inr s2"
      "rfold runF (functors s2) (s2\<lparr>functors := []\<rparr>) = Inr s'"
    using assms(1) by (auto simp: loop_turn_def rbind_eq_Inr or_hang_Inr)
  have "running s1 = running s \<and> functors s1 = functors s" by (subst (1 2) Poll_frame [OF p(1)]) simp
  moreover have "running s2 = running s1 \<and> functors s2 = functors s1"
    by (rule calmD [OF calm_rfold p(2)]) (rule calm_HandleEvent [OF calm_handler])
  ultimately show ?thesis using p(3) assms(2) by auto
qed

text \<open>A loop whose turns never clear \<^verbatim>\<open>running\<close> does not end.\<close>

definition stays :: "(('d, 'u, 'c, 'z) evloop_scheme \<Rightarrow> bool)
    \<Rightarrow> (('d, 'u, 'c, 'z) evloop_scheme \<Rightarrow> ('d, 'u, 'c, 'z) evloop_scheme res) \<Rightarrow> bool" where
  "stays Q turn \<longleftrightarrow> (\<forall>s s'. Q s \<longrightarrow> running s = 1 \<longrightarrow> turn s = Inr s' \<longrightarrow> Q s' \<and> running s' = 1)"

lemma loop_while_forever:
  assumes "loop_while turn s = Some y" "stays Q turn" "Q s" "running s = 1"
  shows "isl y"
proof -
  have "stays Q turn \<longrightarrow> Q s \<longrightarrow> running s = 1 \<longrightarrow> isl y"
    using assms(1)
  proof (rule loop_while.raw_induct [where P = "\<lambda>turn s y. stays Q turn \<longrightarrow> Q s \<longrightarrow> running s = 1 \<longrightarrow> isl y", rotated])
    fix f turn s y
    assume ih: "\<And>turn s y. f turn s = Some y \<Longrightarrow> stays Q turn \<longrightarrow> Q s \<longrightarrow> running s = 1 \<longrightarrow> isl y"
      and st: "(if running s = 1 then (case turn s of Inl e \<Rightarrow> Some (Inl e) | Inr s1 \<Rightarrow> f turn s1)
        else Some (Inr s)) = Some y"
    show "stays Q turn \<longrightarrow> Q s \<longrightarrow> running s = 1 \<longrightarrow> isl y"
    proof (intro impI)
      assume a: "stays Q turn" "Q s" "running s = 1"
      show "isl y"
      proof (cases "turn s")
        case (Inr s1)
        with st a(3) have "f turn s1 = Some y" by simp
        moreover have "Q s1 \<and> running s1 = 1" using a Inr unfolding stays_def by blast
        ultimately show ?thesis using ih [of turn s1 y] a(1) by simp
      next
        case (Inl e)
        with st a(3) have "y = Inl e" by simp
        then show ?thesis by simp
      qed
    qed
  qed
  with assms show ?thesis by blast
qed

text \<open>The example waits forever: whatever the kernel answers, \<^verbatim>\<open>main\<close> does not return; it goes on
  waiting or a failed system call panics.\<close>

theorem wait_main_never_returns: "wait_main K mk_eventfd nb1 mk_epoll mk_timerfd nb2 g \<noteq> Inr s"
proof
  assume "wait_main K mk_eventfd nb1 mk_epoll mk_timerfd nb2 g = Inr s"
  then obtain loop j where n: "NewEventLoop K mk_eventfd nb1 mk_epoll mk_timerfd nb2 0 = Inr (loop, j)"
      and l: "Loop (run_handler no_callback (\<lambda>_. no_callback) K) (run_functor no_callback K) no_callback K g loop = Inr s"
    by (auto simp: wait_main_def rbind_eq_Inr)
  let ?turn = "loop_turn (run_handler no_callback (\<lambda>_. no_callback) K) (run_functor no_callback K) K"
  note f = NewEventLoop_fields [OF n]
  obtain s1 s2 where s1: "run_opt no_callback (doOnLoop loop) (loop\<lparr>running := 1, gid := g\<rparr>) = Inr s1"
      and s2: "loop_while ?turn s1 = Some (Inr s2)"
    using l f(2) by (auto simp: Loop_def rbind_eq_Inr or_hang_Inr)
  have "running s1 = 1" "functors s1 = []"
    using s1 f(3) by (auto simp: run_opt_def no_callback_def split: option.splits)
  moreover have "stays (\<lambda>s. functors s = []) ?turn" unfolding stays_def
  proof (intro allI impI)
    fix s s' assume a: "functors s = []" "running s = 1" "?turn s = Inr s'"
    from turn_calm [OF a(3,1)] a(2) show "functors s' = [] \<and> running s' = 1" by simp
  qed
  ultimately show False using loop_while_forever [OF s2, of "\<lambda>s. functors s = []"] by simp
qed

end
