(* ===== verification/Tcp_Conn.thy ===== *)
theory Tcp_Conn
  imports Event_Loop Buffer
begin

text \<open>
  The connection of \<^verbatim>\<open>tcp_conn.go\<close> and the default callbacks of \<^verbatim>\<open>callbacks.go\<close>. A connection is a
  shared object: it lives in the store \<open>conns\<close> of the loop that owns it, and its methods are
  closures that run in that loop (\<open>conn_functor\<close>) or handlers of its channel
  (\<open>conn_handler\<close>). User callbacks are arbitrary code: \<open>U\<close> runs the callback of a given
  name on the whole state, so a callback may call any method of any connection, this one
  included. \<^verbatim>\<open>syscall.Write\<close> returns -1 on an error, and \<^verbatim>\<open>handleWrite\<close> uses that value.
\<close>

section \<open>State\<close>

datatype tcpConnectionState = Connecting | Connected | Disconnecting | Disconnected

datatype 'u callback = DefaultCb | UserCb 'u

datatype cb_arg = ArgConnected nat | ArgDisConnected nat | ArgMessage nat | ArgHighWater nat int
  | ArgWriteComplete nat

datatype conn_handler = CRead nat | CWrite nat | CAccept

datatype conn_functor =
    FSend nat "byte list"
  | FShutdownWrite nat
  | FForceClose nat
  | FSetKeepAlive nat bool
  | FSetNoDelay nat bool
  | FIsConnected nat nat
  | FEstablish nat

record 'u tcpConnection =
  tstate :: tcpConnectionState
  socketChannel :: nat
  connectedCallback :: "'u callback option"
  disconnectedCallback :: "'u callback option"
  messageCallback :: "'u callback option"
  highWaterCallback :: "'u callback option"
  writeCompleteCallback :: "'u callback option"
  hignWaterLevel :: int
  remoteAddrPort :: sockaddr
  outputBuffer :: buffer
  inputBuffer :: buffer
  conn_ctx :: "'u keyValueContext"

record 'u world = "(conn_handler, 'u, conn_functor) evloop" +
  conns :: "nat \<rightharpoonup> 'u tcpConnection"
  nextConn :: nat

type_synonym ('u, 'z) user = "'u \<Rightarrow> cb_arg \<Rightarrow> ('u, 'z) world_scheme \<Rightarrow> ('u, 'z) world_scheme res"

definition deref_conn :: "nat \<Rightarrow> ('u, 'z) world_scheme \<Rightarrow> 'u tcpConnection res" where
  "deref_conn q s = (case conns s q of None \<Rightarrow> Inl NilDeref | Some tc \<Rightarrow> Inr tc)"

definition upd_conn :: "nat \<Rightarrow> 'u tcpConnection \<Rightarrow> ('u, 'z) world_scheme \<Rightarrow> ('u, 'z) world_scheme" where
  "upd_conn q tc s = s\<lparr>conns := (conns s)(q \<mapsto> tc)\<rparr>"

definition log_sys :: "sys_event \<Rightarrow> ('h, 'z) base_scheme \<Rightarrow> ('h, 'z) base_scheme" where
  "log_sys e s = s\<lparr>hist := hist s @ [e]\<rparr>"

section \<open>Callbacks\<close>

text \<open>Calling a function value: \<^verbatim>\<open>nil\<close> panics, a default runs its body, a user function runs
  through \<open>U\<close>. All defaults do nothing but \<^verbatim>\<open>defaultMessageCallback\<close>, which empties the input
  buffer.\<close>

definition defaultMessageCallback :: "nat \<Rightarrow> ('u, 'z) world_scheme \<Rightarrow> ('u, 'z) world_scheme res" where
  "defaultMessageCallback q s =
     rbind (deref_conn q s) (\<lambda>tc.
     rbind (RetrieveAsString (inputBuffer tc)) (\<lambda>(str, buf).
       Inr (upd_conn q (tc\<lparr>inputBuffer := buf\<rparr>) s)))"

definition default_callback :: "cb_arg \<Rightarrow> ('u, 'z) world_scheme \<Rightarrow> ('u, 'z) world_scheme res" where
  "default_callback a s = (case a of ArgMessage q \<Rightarrow> defaultMessageCallback q s | _ \<Rightarrow> Inr s)"

definition call_back :: "('u, 'z) user \<Rightarrow> 'u callback option \<Rightarrow> cb_arg
    \<Rightarrow> ('u, 'z) world_scheme \<Rightarrow> ('u, 'z) world_scheme res" where
  "call_back U cb a s =
     (case cb of None \<Rightarrow> Inl NilDeref | Some DefaultCb \<Rightarrow> default_callback a s | Some (UserCb u) \<Rightarrow> U u a s)"

section \<open>Construction and setters\<close>

definition newConnection :: "int \<Rightarrow> sockaddr \<Rightarrow> ('u, 'z) world_scheme \<Rightarrow> nat \<times> ('u, 'z) world_scheme" where
  "newConnection sockFD addr s =
     (let q = nextConn s;
          c = SetEvent (ReadableEvent OR WritableEvent)
            (SetWriteCallback (HExt (CWrite q)) (SetReadCallback (HExt (CRead q)) (NewChannel sockFD)))
      in case alloc_chan c (s\<lparr>nextConn := q + 1\<rparr>) of (p, s1) \<Rightarrow>
         (q, upd_conn q \<lparr>tstate = Connecting, socketChannel = p, connectedCallback = None,
            disconnectedCallback = Some DefaultCb, messageCallback = None,
            highWaterCallback = Some DefaultCb, writeCompleteCallback = Some DefaultCb,
            hignWaterLevel = 0, remoteAddrPort = addr, outputBuffer = NewBuffer,
            inputBuffer = NewBuffer, conn_ctx = NewContext\<rparr> s1))"

definition set_conn :: "('u tcpConnection \<Rightarrow> 'u tcpConnection) \<Rightarrow> nat \<Rightarrow> ('u, 'z) world_scheme
    \<Rightarrow> ('u, 'z) world_scheme res" where
  "set_conn f q s = rbind (deref_conn q s) (\<lambda>tc. Inr (upd_conn q (f tc) s))"

definition setConnectedCallback where
  "setConnectedCallback cb = set_conn (\<lambda>tc. tc\<lparr>connectedCallback := cb\<rparr>)"
definition setMessageCallback where
  "setMessageCallback cb = set_conn (\<lambda>tc. tc\<lparr>messageCallback := cb\<rparr>)"
definition SetHighWaterCallback where
  "SetHighWaterCallback cb = set_conn (\<lambda>tc. tc\<lparr>highWaterCallback := cb\<rparr>)"
definition SetHighWaterLevel where
  "SetHighWaterLevel i = set_conn (\<lambda>tc. tc\<lparr>hignWaterLevel := i\<rparr>)"
definition SetWriteCompleteCallback where
  "SetWriteCompleteCallback cb = set_conn (\<lambda>tc. tc\<lparr>writeCompleteCallback := cb\<rparr>)"
definition SetDisConnectedCallback where
  "SetDisConnectedCallback cb = set_conn (\<lambda>tc. tc\<lparr>disconnectedCallback := cb\<rparr>)"

definition conn_SetContext where
  "conn_SetContext key value = set_conn (\<lambda>tc. tc\<lparr>conn_ctx := ctx_Set key value (conn_ctx tc)\<rparr>)"
definition conn_DeleteContext where
  "conn_DeleteContext key = set_conn (\<lambda>tc. tc\<lparr>conn_ctx := ctx_Delete key (conn_ctx tc)\<rparr>)"
definition conn_GetContext :: "string \<Rightarrow> nat \<Rightarrow> ('u, 'z) world_scheme \<Rightarrow> ('u iface \<times> bool) res" where
  "conn_GetContext key q s = rbind (deref_conn q s) (\<lambda>tc. Inr (ctx_Get key (conn_ctx tc)))"
definition conn_MustGetContext :: "string \<Rightarrow> nat \<Rightarrow> ('u, 'z) world_scheme \<Rightarrow> 'u iface res" where
  "conn_MustGetContext key q s = rbind (deref_conn q s) (\<lambda>tc. MustGetContext key (conn_ctx tc))"

section \<open>Handlers\<close>

definition handleClose :: "kernel \<Rightarrow> ('u, 'z) user \<Rightarrow> nat \<Rightarrow> ('u, 'z) world_scheme \<Rightarrow> ('u, 'z) world_scheme res" where
  "handleClose K U q s =
     rbind (deref_conn q s) (\<lambda>tc.
     if tstate tc \<noteq> Disconnecting \<and> tstate tc \<noteq> Connected then Inl (PanicMsg ''checkme'')
     else
       rbind (RemoveChannel K (socketChannel tc) (upd_conn q (tc\<lparr>tstate := Disconnected\<rparr>) s)) (\<lambda>s1.
       rbind (deref_chan (socketChannel tc) s1) (\<lambda>c.
         let s2 = log_sys (SysClose (fd c)) s1
         in rbind (deref_conn q s2) (\<lambda>tc2. call_back U (disconnectedCallback tc2) (ArgDisConnected q) s2))))"

text \<open>\<^verbatim>\<open>ReadFD\<close> makes the \<^verbatim>\<open>readv\<close> call only when the array is not full.\<close>

definition handleRead :: "kernel \<Rightarrow> ('u, 'z) user \<Rightarrow> nat \<Rightarrow> ('u, 'z) world_scheme \<Rightarrow> ('u, 'z) world_scheme res" where
  "handleRead K U q s =
     rbind (deref_conn q s) (\<lambda>tc.
     rbind (deref_chan (socketChannel tc) s) (\<lambda>c.
       let buf = inputBuffer tc; writable = int (length (data buf)) - writeIndex buf;
           n = nat (writable + int (length (extraForReadFD s)));
           rv = k_readv K (hist s) (fd c) n
       in rbind (ReadFD rv (extraForReadFD s) buf) (\<lambda>(n1, buf1, extra1).
          let s1 = upd_conn q (tc\<lparr>inputBuffer := buf1\<rparr>) (s\<lparr>extraForReadFD := extra1\<rparr>);
              s2 = (if writable = 0 then s1 else log_sys (SysReadv (fd c) n rv) s1)
          in if n1 > 0 then call_back U (messageCallback tc) (ArgMessage q) s2
             else handleClose K U q s2)))"

definition handleWrite :: "kernel \<Rightarrow> ('u, 'z) user \<Rightarrow> nat \<Rightarrow> ('u, 'z) world_scheme \<Rightarrow> ('u, 'z) world_scheme res" where
  "handleWrite K U q s =
     rbind (deref_conn q s) (\<lambda>tc.
     rbind (deref_chan (socketChannel tc) s) (\<lambda>c.
     rbind (Peek (outputBuffer tc)) (\<lambda>bs.
       let r = k_write K (hist s) (fd c) bs;
           s1 = log_sys (SysWrite (fd c) bs r) s;
           n = (case r of Inl e \<Rightarrow> - 1 | Inr m \<Rightarrow> int m)
       in rbind (Retrieve n (outputBuffer tc)) (\<lambda>buf.
          let tc1 = tc\<lparr>outputBuffer := buf\<rparr>; s2 = upd_conn q tc1 s1
          in if ReadableBytes buf = 0 then
               (let s3 = upd_chan (socketChannel tc) (snd (DisableWrite c)) s2
                in rbind (UpdateChannel K (socketChannel tc) s3) (\<lambda>s4.
                   rbind (call_back U (writeCompleteCallback tc1) (ArgWriteComplete q) s4) (\<lambda>s5.
                   rbind (deref_conn q s5) (\<lambda>tc5.
                     if tstate tc5 = Disconnecting then Inr (log_sys (SysShutdown (fd c)) s5) else Inr s5))))
             else Inr s2))))"

definition establishConn :: "kernel \<Rightarrow> ('u, 'z) user \<Rightarrow> nat \<Rightarrow> ('u, 'z) world_scheme \<Rightarrow> ('u, 'z) world_scheme res" where
  "establishConn K U q s =
     rbind (deref_conn q s) (\<lambda>tc.
     if tstate tc \<noteq> Connecting then Inl (PanicMsg ''unexpected'')
     else
       rbind (UpdateChannel K (socketChannel tc) (upd_conn q (tc\<lparr>tstate := Connected\<rparr>) s)) (\<lambda>s1.
         call_back U (connectedCallback tc) (ArgConnected q) s1))"

section \<open>Closures run in the loop\<close>

definition send_in_loop :: "kernel \<Rightarrow> ('u, 'z) user \<Rightarrow> nat \<Rightarrow> byte list \<Rightarrow> ('u, 'z) world_scheme
    \<Rightarrow> ('u, 'z) world_scheme res" where
  "send_in_loop K U q bs s =
     rbind (deref_conn q s) (\<lambda>tc.
     if tstate tc = Connected then
       rbind (Append bs (outputBuffer tc)) (\<lambda>buf.
         let s1 = upd_conn q (tc\<lparr>outputBuffer := buf\<rparr>) s
         in rbind (if hignWaterLevel tc \<noteq> 0 \<and> ReadableBytes buf > hignWaterLevel tc
                   then call_back U (highWaterCallback tc) (ArgHighWater q (ReadableBytes buf)) s1
                   else Inr s1) (\<lambda>s2.
            rbind (deref_chan (socketChannel tc) s2) (\<lambda>c.
              if \<not> IsWriting c
              then UpdateChannel K (socketChannel tc) (upd_chan (socketChannel tc) (snd (EnableWrite c)) s2)
              else Inr s2)))
     else Inr s)"

definition shutdown_in_loop :: "nat \<Rightarrow> ('u, 'z) world_scheme \<Rightarrow> ('u, 'z) world_scheme res" where
  "shutdown_in_loop q s =
     rbind (deref_conn q s) (\<lambda>tc.
     if tstate tc = Connected then
       (let s1 = upd_conn q (tc\<lparr>tstate := Disconnecting\<rparr>) s
        in rbind (deref_chan (socketChannel tc) s1) (\<lambda>c.
             if \<not> IsWriting c then Inr (log_sys (SysShutdown (fd c)) s1) else Inr s1))
     else Inr s)"

definition forceclose_in_loop :: "kernel \<Rightarrow> ('u, 'z) user \<Rightarrow> nat \<Rightarrow> ('u, 'z) world_scheme
    \<Rightarrow> ('u, 'z) world_scheme res" where
  "forceclose_in_loop K U q s =
     rbind (deref_conn q s) (\<lambda>tc.
     if tstate tc = Disconnecting \<or> tstate tc = Connected then handleClose K U q s else Inr s)"

text \<open>\<^verbatim>\<open>SetsockoptInt\<close> with (\<^verbatim>\<open>SOL_SOCKET\<close>, \<^verbatim>\<open>SO_KEEPALIVE\<close>) = (1, 9) and (\<^verbatim>\<open>IPPROTO_TCP\<close>,
  \<^verbatim>\<open>TCP_NODELAY\<close>) = (6, 1); its result is ignored.\<close>

definition setsockopt_in_loop :: "int \<Rightarrow> int \<Rightarrow> nat \<Rightarrow> bool \<Rightarrow> ('u, 'z) world_scheme \<Rightarrow> ('u, 'z) world_scheme res" where
  "setsockopt_in_loop level opt q b s =
     rbind (deref_conn q s) (\<lambda>tc. rbind (deref_chan (socketChannel tc) s) (\<lambda>c.
       Inr (log_sys (SysSetsockopt (fd c) level opt (if b then 1 else 0)) s)))"

definition run_conn :: "kernel \<Rightarrow> ('u, 'z) user \<Rightarrow> conn_functor \<Rightarrow> ('u, 'z) world_scheme \<Rightarrow> ('u, 'z) world_scheme res" where
  "run_conn K U f s =
     (case f of
        FSend q bs \<Rightarrow> send_in_loop K U q bs s
      | FShutdownWrite q \<Rightarrow> shutdown_in_loop q s
      | FForceClose q \<Rightarrow> forceclose_in_loop K U q s
      | FSetKeepAlive q b \<Rightarrow> setsockopt_in_loop 1 9 q b s
      | FSetNoDelay q b \<Rightarrow> setsockopt_in_loop 6 1 q b s
      | FIsConnected q r \<Rightarrow> rbind (deref_conn q s) (\<lambda>tc.
          Inr (s\<lparr>replies := (replies s)(r \<mapsto> RBool (tstate tc = Connected))\<rparr>))
      | FEstablish q \<Rightarrow> establishConn K U q s)"

section \<open>The methods, called by goroutine \<open>g\<close>\<close>

definition Send where
  "Send K U g q bs s = RunInLoop (run_conn K U) K g (FExt (FSend q bs)) s"
definition ShutdownWrite where
  "ShutdownWrite K U g q s = RunInLoop (run_conn K U) K g (FExt (FShutdownWrite q)) s"
definition ForceClose where
  "ForceClose K U g q s = RunInLoop (run_conn K U) K g (FExt (FForceClose q)) s"
definition SetKeepAlive where
  "SetKeepAlive K U g q b s = RunInLoop (run_conn K U) K g (FExt (FSetKeepAlive q b)) s"
definition SetNoDelay where
  "SetNoDelay K U g q b s = RunInLoop (run_conn K U) K g (FExt (FSetNoDelay q b)) s"
definition IsConnected where
  "IsConnected K U g q s = ask (run_conn K U) K g (\<lambda>r. FExt (FIsConnected q r)) s"

section \<open>Invariant\<close>

text \<open>\<open>conn_ok\<close>: a connection that is not established yet has an unregistered channel and no output; an open
  one is the connection the poller maps its descriptor to, and has write interest whenever
  output is pending (when \<open>strict\<close>); a closed one is not mapped any more. \<open>world_inv A\<close> exempts
  the connections in \<open>A\<close> from the clause on pending output: in the middle of \<^verbatim>\<open>Send\<close> the callback runs
  with data appended and write interest not yet enabled.\<close>

definition conn_ok :: "bool \<Rightarrow> 'u tcpConnection \<Rightarrow> 'h channel \<Rightarrow> nat option \<Rightarrow> bool" where
  "conn_ok strict tc c m \<longleftrightarrow>
     (case tstate tc of
        Connecting \<Rightarrow> index c < 0 \<and> ReadableBytes (outputBuffer tc) = 0
      | Disconnected \<Rightarrow> m \<noteq> Some (socketChannel tc)
      | _ \<Rightarrow> m = Some (socketChannel tc) \<and> (strict \<and> ReadableBytes (outputBuffer tc) \<noteq> 0 \<longrightarrow> IsWriting c))"

abbreviation mapped :: "('h, 'z) base_scheme \<Rightarrow> int \<rightharpoonup> nat" where
  "mapped s \<equiv> map_of (channelMap (the_poller s))"

definition conns_ok :: "nat set \<Rightarrow> ('u, 'z) world_scheme \<Rightarrow> bool" where
  "conns_ok A s \<longleftrightarrow>
     (\<forall>q tc. conns s q = Some tc \<longrightarrow>
        (\<exists>c. chans s (socketChannel tc) = Some c \<and> conn_ok (q \<notin> A) tc c (mapped s (fd c))))
   \<and> (\<forall>q r tc td. conns s q = Some tc \<longrightarrow> conns s r = Some td \<longrightarrow>
        socketChannel tc = socketChannel td \<longrightarrow> q = r)
   \<and> (\<forall>p. nextPtr s \<le> p \<longrightarrow> chans s p = None) \<and> (\<forall>q. nextConn s \<le> q \<longrightarrow> conns s q = None)"

definition world_inv :: "nat set \<Rightarrow> ('u, 'z) world_scheme \<Rightarrow> bool" where
  "world_inv A s \<longleftrightarrow> poller_inv s \<and> in_sync s \<and> conns_ok A s"

lemma conns_okD:
  assumes "conns_ok A s" "conns s q = Some tc"
  obtains c where "chans s (socketChannel tc) = Some c" "conn_ok (q \<notin> A) tc c (mapped s (fd c))"
  using assms unfolding conns_ok_def by blast

lemma conns_ok_inj:
  "conns_ok A s \<Longrightarrow> conns s q = Some tc \<Longrightarrow> conns s r = Some td \<Longrightarrow> socketChannel tc = socketChannel td \<Longrightarrow> q = r"
  unfolding conns_ok_def by blast

text \<open>Every operation changes one connection, its channel and the entry of its descriptor.\<close>

lemma conns_ok_frame:
  fixes s s' :: "('u, 'z) world_scheme"
  assumes ok: "conns_ok A s" and q: "conns s q = Some tc" and c: "chans s (socketChannel tc) = Some c"
    and s': "conns s' = (conns s)(q \<mapsto> tc')" "chans s' = (chans s)(socketChannel tc \<mapsto> c')"
      "nextPtr s' = nextPtr s" "nextConn s' = nextConn s"
    and tc': "socketChannel tc' = socketChannel tc" "conn_ok (q \<notin> A') tc' c' (mapped s' (fd c'))"
    and A: "A' - {q} = A - {q}"
    and m: "\<And>f. mapped s' f = mapped s f \<or> mapped s f \<in> {None, Some (socketChannel tc)} \<and>
        mapped s' f \<in> {None, Some (socketChannel tc)}"
  shows "conns_ok A' s'"
proof -
  have other: "\<exists>d. chans s' (socketChannel td) = Some d \<and> conn_ok (r \<notin> A') td d (mapped s' (fd d))"
    if r: "conns s r = Some td" "r \<noteq> q" for r td
  proof -
    obtain d where d: "chans s (socketChannel td) = Some d" "conn_ok (r \<notin> A) td d (mapped s (fd d))"
      using conns_okD [OF ok r(1)] by blast
    have ne: "socketChannel td \<noteq> socketChannel tc" using conns_ok_inj [OF ok r(1) q] r(2) by auto
    have rA: "r \<in> A' \<longleftrightarrow> r \<in> A" using A r(2) by blast
    have "conn_ok (r \<notin> A') td d (mapped s' (fd d))"
      using d(2) ne m [of "fd d"] rA by (cases "tstate td") (auto simp: conn_ok_def)
    then show ?thesis using d(1) ne s'(2) by auto
  qed
  have "\<exists>d. chans s' (socketChannel td) = Some d \<and> conn_ok (r \<notin> A') td d (mapped s' (fd d))"
    if "conns s' r = Some td" for r td
    using that other [of r td] s' tc' by (cases "r = q") auto
  moreover have "nextPtr s \<le> p \<Longrightarrow> chans s' p = None" "nextConn s \<le> r \<Longrightarrow> conns s' r = None" for p r
    using ok q c s'(1,2) unfolding conns_ok_def by (auto simp: fun_upd_def)
  moreover have "x = r" if "conns s' x = Some ta" "conns s' r = Some td" "socketChannel ta = socketChannel td"
    for x r ta td
    using that conns_ok_inj [OF ok] q s'(1) tc'(1) by (auto split: if_splits)
  ultimately show ?thesis unfolding conns_ok_def s'(3,4) by blast
qed

lemma world_invD:
  assumes "world_inv A s"
  shows "poller_inv s" "in_sync s" "conns_ok A s"
  using assms by (simp_all add: world_inv_def)

text \<open>The two stores and the poller see only their own fields.\<close>

lemma base_fields [simp]:
  "poller_inv (upd_conn q tc s) = poller_inv s" "in_sync_but B (upd_conn q tc s) = in_sync_but B s"
  "conns (upd_conn q tc s) = (conns s)(q \<mapsto> tc)" "chans (upd_conn q tc s) = chans s"
  "the_poller (upd_conn q tc s) = the_poller s" "hist (upd_conn q tc s) = hist s"
  "nextPtr (upd_conn q tc s) = nextPtr s" "nextConn (upd_conn q tc s) = nextConn s"
  by (simp_all add: upd_conn_def poller_inv_def in_sync_but_def)

lemma chan_fields [simp]:
  "chans (upd_chan p c t) = (chans t)(p \<mapsto> c)" "the_poller (upd_chan p c t) = the_poller t"
  "hist (upd_chan p c t) = hist t"
  by (simp_all add: upd_chan_def)

lemma world_chan_fields [simp]:
  "conns (upd_chan p c s) = conns s" "nextPtr (upd_chan p c s) = nextPtr s" "nextConn (upd_chan p c s) = nextConn s"
  by (simp_all add: upd_chan_def)

lemma log_fields [simp]:
  "conns (log_sys e s) = conns s" "nextPtr (log_sys e s) = nextPtr s" "nextConn (log_sys e s) = nextConn s"
  "extraForReadFD (log_sys e s) = extraForReadFD s"
  by (simp_all add: log_sys_def)

lemma base_log_fields [simp]:
  "chans (log_sys e t) = chans t" "the_poller (log_sys e t) = the_poller t" "hist (log_sys e t) = hist t @ [e]"
  by (simp_all add: log_sys_def)

lemma world_inv_log:
  "world_inv A s \<Longrightarrow> registered_step e (registered (hist s)) = registered (hist s) \<Longrightarrow> world_inv A (log_sys e s)"
  by (simp add: world_inv_def poller_inv_def in_sync_but_def conns_ok_def)

lemma log_neutral:
  assumes "registered_step e (registered (hist t)) = registered (hist t)"
  shows "poller_inv (log_sys e t) = poller_inv t" "in_sync_but B (log_sys e t) = in_sync_but B t"
  using assms by (simp_all add: poller_inv_def in_sync_but_def)

lemma world_inv_hist:
  "registered h = registered (hist s) \<Longrightarrow> world_inv A (s\<lparr>hist := h\<rparr>) = world_inv A s"
  by (simp add: world_inv_def poller_inv_def in_sync_but_def conns_ok_def)

lemma world_inv_functors: "world_inv A (s\<lparr>functors := x\<rparr>) = world_inv A s"
  by (simp add: world_inv_def poller_inv_def in_sync_but_def conns_ok_def)

lemma world_inv_extra: "world_inv A (s\<lparr>extraForReadFD := x\<rparr>) = world_inv A s"
  by (simp add: world_inv_def poller_inv_def in_sync_but_def conns_ok_def)

lemma world_inv_replies: "world_inv A (s\<lparr>replies := x\<rparr>) = world_inv A s"
  by (simp add: world_inv_def poller_inv_def in_sync_but_def conns_ok_def)

lemma world_inv_conn:
  assumes w: "world_inv A s" and q: "conns s q = Some tc" and c: "chans s (socketChannel tc) = Some c"
    and tc': "socketChannel tc' = socketChannel tc" "conn_ok (q \<notin> A') tc' c (mapped s (fd c))"
    and A: "A' - {q} = A - {q}"
  shows "world_inv A' (upd_conn q tc' s)"
proof -
  have "chans s = (chans s)(socketChannel tc \<mapsto> c)" using c by (simp add: fun_upd_idem)
  then have "conns_ok A' (upd_conn q tc' s)"
    by (intro conns_ok_frame [OF world_invD(3) [OF w] q c _ _ _ _ tc'(1) _ A, where c' = c]) (use tc' in auto)
  with w show ?thesis by (simp add: world_inv_def)
qed

abbreviation is_open :: "'u tcpConnection \<Rightarrow> bool" where
  "is_open tc \<equiv> tstate tc = Connected \<or> tstate tc = Disconnecting"

lemma open_mapped:
  assumes "world_inv A s" "conns s q = Some tc" "is_open tc"
  obtains c where "chans s (socketChannel tc) = Some c" "mapped s (fd c) = Some (socketChannel tc)" "0 < index c"
    "q \<notin> A \<Longrightarrow> ReadableBytes (outputBuffer tc) \<noteq> 0 \<Longrightarrow> IsWriting c"
proof -
  obtain c where c: "chans s (socketChannel tc) = Some c" "conn_ok (q \<notin> A) tc c (mapped s (fd c))"
    using conns_okD [OF world_invD(3) [OF assms(1)] assms(2)] by blast
  then have m: "mapped s (fd c) = Some (socketChannel tc)" using assms(3) by (auto simp: conn_ok_def)
  then have "0 < index c" using poller_invD(5) [OF world_invD(1) [OF assms(1)]] c(1) by fastforce
  with c m that assms(3) show thesis by (auto simp: conn_ok_def)
qed

text \<open>Changing the interest of an open connection and telling the poller.\<close>

lemma world_inv_update:
  fixes s :: "('u, 'z) world_scheme"
  assumes w: "world_inv A s" and K: "ctl_documented K" and q: "conns s q = Some tc" "is_open tc"
    and c: "chans s (socketChannel tc) = Some c" and c': "fd c' = fd c" "index c' = index c"
    and pend: "q \<notin> A' \<Longrightarrow> ReadableBytes (outputBuffer tc) \<noteq> 0 \<Longrightarrow> IsWriting c'"
    and A: "A' - {q} = A - {q}"
  obtains s' where "UpdateChannel K (socketChannel tc) (upd_chan (socketChannel tc) c' s) = Inr s'" "world_inv A' s'"
    "conns s' = conns s" "chans s' = (chans s)(socketChannel tc \<mapsto> c')"
    "s' = (upd_chan (socketChannel tc) c' s)\<lparr>hist := hist s'\<rparr>"
proof -
  let ?p = "socketChannel tc"
  let ?s = "upd_chan ?p c' s"
  have m: "mapped s (fd c) = Some ?p" "0 < index c" using open_mapped [OF w q] c by auto
  have i: "poller_inv ?s" by (rule poller_inv_chan [OF world_invD(1) [OF w] c c'])
  have y: "in_sync_but {?p} ?s" using world_invD(2) [OF w] by (auto simp: in_sync_but_def)
  obtain s' where u: "UpdateChannel K ?p ?s = Inr s'" "poller_inv s'" "the_poller s' = the_poller ?s"
      "chans s' = chans ?s" "s' = ?s\<lparr>hist := hist s'\<rparr>" "in_sync_but {?p} ?s \<Longrightarrow> in_sync s'"
    using UpdateChannel_old [OF i K, of ?p c'] c' m by auto
  have f: "conns s' = conns s" "nextConn s' = nextConn s" "nextPtr s' = nextPtr s"
    by (subst u(5), simp)+
  have "conns_ok A' s'"
    by (rule conns_ok_frame [OF world_invD(3) [OF w] q(1) c _ _ _ _ refl _ A, where c' = c'])
      (use f u(3,4) q m c' pend in \<open>auto simp: conn_ok_def\<close>)
  then have "world_inv A' s'" using u(2,6) y by (simp add: world_inv_def)
  then show thesis by (rule that [OF u(1) _ f(1) _ u(5)]) (simp add: u(4))
qed

text \<open>Closing an open connection.\<close>

lemma world_inv_remove:
  fixes s :: "('u, 'z) world_scheme"
  assumes w: "world_inv A s" and K: "ctl_documented K" and q: "conns s q = Some tc" "is_open tc"
    and c: "chans s (socketChannel tc) = Some c"
  obtains s' where
    "RemoveChannel K (socketChannel tc) (upd_conn q (tc\<lparr>tstate := Disconnected\<rparr>) s) = Inr s'"
    "world_inv A (log_sys (SysClose (fd c)) s')" "conns s' = (conns s)(q \<mapsto> tc\<lparr>tstate := Disconnected\<rparr>)"
    "chans s' = chans s" "registered (hist s') = (registered (hist s))(fd c := None)"
proof -
  let ?p = "socketChannel tc"
  let ?s = "upd_conn q (tc\<lparr>tstate := Disconnected\<rparr>) s"
  have m: "mapped s (fd c) = Some ?p" using open_mapped [OF w q] c by auto
  have i: "poller_inv ?s" "in_sync_but {?p} ?s" "chans ?s ?p = Some c" "mapped ?s (fd c) = Some ?p"
    using world_invD [OF w] c m by (auto simp: in_sync_but_def)
  obtain s' where r: "RemoveChannel K ?p ?s = Inr s'" "poller_inv s'" "chans s' = chans ?s"
      "mapped s' = (mapped ?s)(fd c := None)" "registered (hist s') = (registered (hist ?s))(fd c := None)"
      "in_sync_but {?p} ?s \<Longrightarrow> in_sync s'" "s' = ?s\<lparr>hist := hist s', the_poller := the_poller s'\<rparr>"
    using RemoveChannel_mapped [OF i(1) K i(3,4)] by metis
  have f: "conns s' = conns ?s" "nextConn s' = nextConn s" "nextPtr s' = nextPtr s"
    by (subst r(7), simp)+
  have "conns_ok A s'"
    by (rule conns_ok_frame [OF world_invD(3) [OF w] q(1) c, where c' = c and tc' = "tc\<lparr>tstate := Disconnected\<rparr>"])
      (use f r(3,4) c m in \<open>auto simp: conn_ok_def fun_upd_idem\<close>)
  then have "world_inv A s'" using r(2,6) i(2) by (simp add: world_inv_def)
  then have "world_inv A (log_sys (SysClose (fd c)) s')"
    by (rule world_inv_log) (simp add: r(5))
  then show thesis using that r f by simp
qed

text \<open>Establishing a connection.\<close>

lemma world_inv_establish:
  fixes s :: "('u, 'z) world_scheme"
  assumes w: "world_inv A s" and K: "ctl_documented K" and q: "conns s q = Some tc" "tstate tc = Connecting"
    and c: "chans s (socketChannel tc) = Some c"
    and u: "UpdateChannel K (socketChannel tc) (upd_conn q (tc\<lparr>tstate := Connected\<rparr>) s) = Inr s'"
  shows "world_inv A s'" "registered (hist s') = (registered (hist s))(fd c \<mapsto> ucast (events c))"
    "conns s' = (conns s)(q \<mapsto> tc\<lparr>tstate := Connected\<rparr>)"
proof -
  let ?p = "socketChannel tc"
  let ?s = "upd_conn q (tc\<lparr>tstate := Connected\<rparr>) s"
  have x: "index c < 0" and pend: "ReadableBytes (outputBuffer tc) = 0"
    using conns_okD [OF world_invD(3) [OF w] q(1)] c q(2) by (auto simp: conn_ok_def)
  have i: "poller_inv ?s" "in_sync_but {?p} ?s" "chans ?s ?p = Some c"
    using world_invD [OF w] c by (auto simp: in_sync_but_def)
  note n = UpdateChannel_new [OF i(1) K i(3) x u]
  have f: "conns s' = conns ?s" "nextConn s' = nextConn s" "nextPtr s' = nextPtr s"
    by (subst UpdateChannel_frame [OF u], simp)+
  have none: "mapped s (fd c) = None"
    using poller_invD(4) [OF i(1)] n(4) by (metis base_fields(5,6) domIff)
  have "conns_ok A s'"
    by (rule conns_ok_frame [OF world_invD(3) [OF w] q(1) c,
          where c' = "c\<lparr>index := idxCounter (the_poller s) + 1\<rparr>" and tc' = "tc\<lparr>tstate := Connected\<rparr>"])
      (use f n(2,5) none pend in \<open>auto simp: conn_ok_def IsWriting_def\<close>)
  then show "world_inv A s'" using n(1) n(6) [OF i(2)] by (simp add: world_inv_def)
  show "registered (hist s') = (registered (hist s))(fd c \<mapsto> ucast (events c))"
    "conns s' = (conns s)(q \<mapsto> tc\<lparr>tstate := Connected\<rparr>)"
    using n(3) f(1) by simp_all
qed

section \<open>What user callbacks may do\<close>

primrec rank :: "tcpConnectionState \<Rightarrow> nat" where
  "rank Connecting = 0"
| "rank Connected = 1"
| "rank Disconnecting = 2"
| "rank Disconnected = 3"

text \<open>The life of every connection only goes forward, and keeps its channel and peer.\<close>

definition evolves :: "('u, 'z) world_scheme \<Rightarrow> ('u, 'z) world_scheme \<Rightarrow> bool" where
  "evolves s s' \<longleftrightarrow> (\<forall>q tc. conns s q = Some tc \<longrightarrow>
     (\<exists>tc'. conns s' q = Some tc' \<and> socketChannel tc' = socketChannel tc \<and>
        remoteAddrPort tc' = remoteAddrPort tc \<and> rank (tstate tc) \<le> rank (tstate tc')))"

text \<open>A callback keeps the invariant and lets connections only go forward, as every method does
  (see \<open>methods_keep_inv\<close> below); a high-water callback does not close its own connection.\<close>

definition good_user :: "('u, 'z) user \<Rightarrow> bool" where
  "good_user U \<longleftrightarrow> (\<forall>A u a s s'. world_inv A s \<longrightarrow> U u a s = Inr s' \<longrightarrow> world_inv A s' \<and> evolves s s' \<and>
     (\<forall>q n tc tc'. a = ArgHighWater q n \<longrightarrow> conns s q = Some tc \<longrightarrow> tstate tc \<noteq> Disconnected \<longrightarrow>
        conns s' q = Some tc' \<longrightarrow> tstate tc' \<noteq> Disconnected))"

lemma evolves_refl [simp]: "evolves s s"
  by (simp add: evolves_def)

lemma evolves_trans [trans]: "evolves s t \<Longrightarrow> evolves t u \<Longrightarrow> evolves s u"
  unfolding evolves_def by (fastforce intro: order_trans)

lemma evolvesD:
  "evolves s s' \<Longrightarrow> conns s q = Some tc \<Longrightarrow> \<exists>tc'. conns s' q = Some tc' \<and> socketChannel tc' = socketChannel tc \<and>
     remoteAddrPort tc' = remoteAddrPort tc \<and> rank (tstate tc) \<le> rank (tstate tc')"
  by (simp add: evolves_def)

lemma evolves_conn:
  "conns s q = Some tc \<Longrightarrow> conns s' = (conns s)(q \<mapsto> tc') \<Longrightarrow> socketChannel tc' = socketChannel tc \<Longrightarrow>
   remoteAddrPort tc' = remoteAddrPort tc \<Longrightarrow> rank (tstate tc) \<le> rank (tstate tc') \<Longrightarrow> evolves s s'"
  by (auto simp: evolves_def)

lemma evolves_same: "conns s' = conns s \<Longrightarrow> evolves s s'"
  by (simp add: evolves_def)

lemma world_inv_input:
  assumes "world_inv A s" "conns s q = Some tc"
  shows "world_inv A (upd_conn q (tc\<lparr>inputBuffer := b\<rparr>) s)"
proof -
  obtain c where "chans s (socketChannel tc) = Some c" "conn_ok (q \<notin> A) tc c (mapped s (fd c))"
    using conns_okD [OF world_invD(3) [OF assms(1)] assms(2)] by blast
  then show ?thesis
    by (intro world_inv_conn [OF assms]) (auto simp: conn_ok_def split: tcpConnectionState.splits)
qed

lemma call_back_good:
  assumes "good_user U" "world_inv A s" "call_back U cb a s = Inr s'"
  shows "world_inv A s'" "evolves s s'"
    "a = ArgHighWater q n \<Longrightarrow> conns s q = Some tc \<Longrightarrow> tstate tc \<noteq> Disconnected \<Longrightarrow>
       conns s' q = Some tc' \<Longrightarrow> tstate tc' \<noteq> Disconnected"
proof -
  consider "s' = s" | u where "U u a s = Inr s'"
    | r td b where "a = ArgMessage r" "conns s r = Some td" "s' = upd_conn r (td\<lparr>inputBuffer := b\<rparr>) s"
  proof (cases cb)
    case (Some x)
    then show thesis
    proof (cases x)
      case DefaultCb
      then show thesis
        using that(1,3) Some assms(3)
        by (cases a) (auto simp: call_back_def default_callback_def defaultMessageCallback_def rbind_eq_Inr deref_conn_def
            split: option.splits)
    qed (use that(2) Some assms(3) in \<open>simp add: call_back_def\<close>)
  qed (use assms(3) in \<open>simp add: call_back_def\<close>)
  then have "world_inv A s' \<and> evolves s s' \<and> (a = ArgHighWater q n \<longrightarrow> conns s q = Some tc \<longrightarrow>
      tstate tc \<noteq> Disconnected \<longrightarrow> conns s' q = Some tc' \<longrightarrow> tstate tc' \<noteq> Disconnected)"
  proof cases
    case 2
    then show ?thesis using assms(1,2) unfolding good_user_def by blast
  next
    case 3
    have "evolves s s'" by (rule evolves_conn [OF 3(2), of s' "td\<lparr>inputBuffer := b\<rparr>"]) (simp_all add: 3(3))
    then show ?thesis using world_inv_input [OF assms(2) 3(2)] 3 by simp
  qed (use assms(2) in auto)
  then show "world_inv A s'" "evolves s s'"
    "a = ArgHighWater q n \<Longrightarrow> conns s q = Some tc \<Longrightarrow> tstate tc \<noteq> Disconnected \<Longrightarrow>
       conns s' q = Some tc' \<Longrightarrow> tstate tc' \<noteq> Disconnected"
    by blast+
qed

section \<open>Every operation keeps the invariant\<close>

lemma deref_conn_Inr [simp]: "deref_conn q s = Inr tc \<longleftrightarrow> conns s q = Some tc"
  by (auto simp: deref_conn_def split: option.splits)

lemma deref_chan_Inr [simp]: "deref_chan p s = Inr c \<longleftrightarrow> chans s p = Some c"
  by (auto simp: deref_chan_def split: option.splits)

lemma deref_Some [simp]:
  "conns s q = Some tc \<Longrightarrow> deref_conn q s = Inr tc" "chans t p = Some c \<Longrightarrow> deref_chan p t = Inr c"
  by simp_all

lemma handleClose_keeps:
  assumes "good_user U" "ctl_documented K" "world_inv A s" "handleClose K U q s = Inr s'"
  shows "world_inv A s' \<and> evolves s s'"
proof -
  obtain tc where tc: "conns s q = Some tc" "is_open tc"
    using assms(4) by (auto simp: handleClose_def rbind_eq_Inr split: if_splits)
  obtain c where c: "chans s (socketChannel tc) = Some c" using open_mapped [OF assms(3) tc] by blast
  obtain s1 where s1: "RemoveChannel K (socketChannel tc) (upd_conn q (tc\<lparr>tstate := Disconnected\<rparr>) s) = Inr s1"
      "world_inv A (log_sys (SysClose (fd c)) s1)" "conns s1 = (conns s)(q \<mapsto> tc\<lparr>tstate := Disconnected\<rparr>)"
      "chans s1 = chans s"
    using world_inv_remove [OF assms(3,2) tc c] by blast
  let ?s2 = "log_sys (SysClose (fd c)) s1"
  have cb: "call_back U (disconnectedCallback tc) (ArgDisConnected q) ?s2 = Inr s'"
    using assms(4) tc s1 c by (auto simp: handleClose_def rbind_eq_Inr Let_def)
  have "evolves s ?s2" using s1(3) tc
    by (intro evolves_conn [OF tc(1), of ?s2 "tc\<lparr>tstate := Disconnected\<rparr>"]) auto
  with call_back_good(1,2) [OF assms(1) s1(2) cb] show ?thesis using evolves_trans by blast
qed

lemma establishConn_keeps:
  assumes "good_user U" "ctl_documented K" "world_inv A s" "establishConn K U q s = Inr s'"
  shows "world_inv A s' \<and> evolves s s'"
proof -
  obtain tc s1 where tc: "conns s q = Some tc" "tstate tc = Connecting"
      "UpdateChannel K (socketChannel tc) (upd_conn q (tc\<lparr>tstate := Connected\<rparr>) s) = Inr s1"
      "call_back U (connectedCallback tc) (ArgConnected q) s1 = Inr s'"
    using assms(4) by (auto simp: establishConn_def rbind_eq_Inr split: if_splits)
  obtain c where c: "chans s (socketChannel tc) = Some c"
    using conns_okD [OF world_invD(3) [OF assms(3)] tc(1)] by blast
  note e = world_inv_establish [OF assms(3,2) tc(1,2) c tc(3)]
  have "evolves s s1" using tc(2) by (intro evolves_conn [OF tc(1) e(3)]) auto
  with call_back_good(1,2) [OF assms(1) e(1) tc(4)] show ?thesis using evolves_trans by blast
qed

lemma handleRead_keeps:
  assumes "good_user U" "ctl_documented K" "world_inv A s" "handleRead K U q s = Inr s'"
  shows "world_inv A s' \<and> evolves s s'"
proof -
  obtain tc s2 b x where tc: "conns s q = Some tc"
      and s2: "world_inv A s2" "conns s2 = (conns s)(q \<mapsto> tc\<lparr>inputBuffer := b\<rparr>)"
      and k: "call_back U (messageCallback tc) (ArgMessage q) s2 = Inr s' \<or> handleClose K U q s2 = Inr s'"
  proof -
    obtain tc c where c: "conns s q = Some tc" "chans s (socketChannel tc) = Some c"
      using assms(4) by (auto simp: handleRead_def rbind_eq_Inr)
    let ?w = "int (length (data (inputBuffer tc))) - writeIndex (inputBuffer tc)"
    let ?n = "nat (?w + int (length (extraForReadFD s)))"
    let ?rv = "k_readv K (hist s) (fd c) ?n"
    obtain n1 b x where r: "ReadFD ?rv (extraForReadFD s) (inputBuffer tc) = Inr (n1, b, x)"
      using assms(4) c by (auto simp: handleRead_def rbind_eq_Inr Let_def)
    let ?s1 = "upd_conn q (tc\<lparr>inputBuffer := b\<rparr>) (s\<lparr>extraForReadFD := x\<rparr>)"
    let ?s2 = "if ?w = 0 then ?s1 else log_sys (SysReadv (fd c) ?n ?rv) ?s1"
    have "world_inv A ?s1" using assms(3) c(1) by (intro world_inv_input) (simp_all add: world_inv_extra)
    then have "world_inv A ?s2" by (auto intro: world_inv_log)
    moreover have "conns ?s2 = (conns s)(q \<mapsto> tc\<lparr>inputBuffer := b\<rparr>)" by simp
    moreover have "call_back U (messageCallback tc) (ArgMessage q) ?s2 = Inr s' \<or> handleClose K U q ?s2 = Inr s'"
      using assms(4) c r
      by (auto simp: handleRead_def rbind_eq_Inr Let_def simp del: int_nat_eq split: if_splits)
    ultimately show thesis using that c(1) by blast
  qed
  have e: "evolves s s2" by (rule evolves_conn [OF tc s2(2)]) simp_all
  from k have "world_inv A s' \<and> evolves s2 s'"
    using call_back_good(1,2) [OF assms(1) s2(1)] handleClose_keeps [OF assms(1,2) s2(1)] by blast
  with e show ?thesis using evolves_trans by blast
qed

lemma handleWrite_keeps:
  assumes "good_user U" "ctl_documented K" "world_inv A s" "handleWrite K U q s = Inr s'"
    "conns s q = Some tc" "is_open tc" "chans s (socketChannel tc) = Some c" "IsWriting c"
  shows "world_inv A s' \<and> evolves s s'"
proof -
  obtain bs buf n where b: "Peek (outputBuffer tc) = Inr bs"
      "n = (case k_write K (hist s) (fd c) bs of Inl e \<Rightarrow> - 1 | Inr m \<Rightarrow> int m)"
      "Retrieve n (outputBuffer tc) = Inr buf"
    using assms(4,5,7) by (auto simp: handleWrite_def rbind_eq_Inr Let_def)
  let ?tc = "tc\<lparr>outputBuffer := buf\<rparr>"
  let ?s2 = "upd_conn q ?tc (log_sys (SysWrite (fd c) bs (k_write K (hist s) (fd c) bs)) s)"
  have m: "mapped s (fd c) = Some (socketChannel tc)" using open_mapped [OF assms(3,5,6)] assms(7) by auto
  have l: "world_inv A (log_sys (SysWrite (fd c) bs (k_write K (hist s) (fd c) bs)) s)"
    by (rule world_inv_log [OF assms(3)]) simp
  have w2: "world_inv A ?s2"
    using assms(6,8) m by (intro world_inv_conn [OF l, where tc = tc and c = c]) (auto simp: assms(5,7) conn_ok_def)
  have q2: "conns ?s2 q = Some ?tc" "is_open ?tc" "chans ?s2 (socketChannel ?tc) = Some c"
    using assms(6,7) by auto
  have e2: "evolves s ?s2" by (rule evolves_conn [OF assms(5), of _ ?tc]) simp_all
  show ?thesis
  proof (cases "ReadableBytes buf = 0")
    case False
    then have "s' = ?s2" using assms(4,5,7) b by (simp add: handleWrite_def Let_def)
    with w2 e2 show ?thesis by simp
  next
    case True
    have d: "fd (snd (DisableWrite c)) = fd c" "index (snd (DisableWrite c)) = index c"
      by (simp_all add: DisableWrite_def)
    obtain s4 where u: "UpdateChannel K (socketChannel ?tc) (upd_chan (socketChannel ?tc) (snd (DisableWrite c)) ?s2) = Inr s4"
        "world_inv A s4" "conns s4 = conns ?s2"
      using world_inv_update [OF w2 assms(2) q2 d, where A' = A] True by auto
    obtain s5 where c5: "call_back U (writeCompleteCallback ?tc) (ArgWriteComplete q) s4 = Inr s5"
        "s' = s5 \<or> s' = log_sys (SysShutdown (fd c)) s5"
      using assms(4,5,7) b u(1) True
      by (auto simp: handleWrite_def Let_def rbind_eq_Inr split: if_splits)
    have "evolves s s4" using e2 u(3) by (simp add: evolves_def)
    moreover note c6 = call_back_good(1,2) [OF assms(1) u(2) c5(1)]
    ultimately have "world_inv A s5 \<and> evolves s s5" using evolves_trans by blast
    with c5(2) show ?thesis using world_inv_log [of A s5 "SysShutdown (fd c)"] by (auto simp: evolves_def)
  qed
qed

lemma send_in_loop_keeps:
  assumes "good_user U" "ctl_documented K" "world_inv A s" "send_in_loop K U q bs s = Inr s'"
  shows "world_inv A s' \<and> evolves s s'"
proof -
  obtain tc where tc: "conns s q = Some tc" using assms(4) by (auto simp: send_in_loop_def rbind_eq_Inr)
  show ?thesis
  proof (cases "tstate tc = Connected")
    case False
    then show ?thesis using assms(3,4) tc by (simp add: send_in_loop_def deref_conn_def)
  next
    case True
    then obtain c where c: "chans s (socketChannel tc) = Some c" "mapped s (fd c) = Some (socketChannel tc)"
      using open_mapped [OF assms(3) tc] by blast
    obtain buf s2 c2 where b: "Append bs (outputBuffer tc) = Inr buf"
        "(if hignWaterLevel tc \<noteq> 0 \<and> ReadableBytes buf > hignWaterLevel tc
          then call_back U (highWaterCallback tc) (ArgHighWater q (ReadableBytes buf))
             (upd_conn q (tc\<lparr>outputBuffer := buf\<rparr>) s)
          else Inr (upd_conn q (tc\<lparr>outputBuffer := buf\<rparr>) s)) = Inr s2" (is "?hw = _")
        "chans s2 (socketChannel tc) = Some c2"
        "(if \<not> IsWriting c2 then UpdateChannel K (socketChannel tc) (upd_chan (socketChannel tc) (snd (EnableWrite c2)) s2)
          else Inr s2) = Inr s'"
      using assms(4) tc True by (auto simp: send_in_loop_def rbind_eq_Inr Let_def)
    let ?tc = "tc\<lparr>outputBuffer := buf\<rparr>"
    let ?s1 = "upd_conn q ?tc s"
    have w1: "world_inv (insert q A) ?s1"
      using c(2) True by (intro world_inv_conn [OF assms(3) tc c(1)]) (auto simp: conn_ok_def)
    have e1: "evolves s ?s1" by (rule evolves_conn [OF tc, of _ ?tc]) simp_all
    have s2: "world_inv (insert q A) s2 \<and> evolves ?s1 s2 \<and>
        (\<exists>tc2. conns s2 q = Some tc2 \<and> is_open tc2 \<and> socketChannel tc2 = socketChannel tc)"
    proof (cases "s2 = ?s1")
      case False
      then have hw: "call_back U (highWaterCallback tc) (ArgHighWater q (ReadableBytes buf)) ?s1 = Inr s2"
        using b(2) by (auto split: if_splits)
      note g = call_back_good [OF assms(1) w1 hw]
      obtain tc2 where tc2: "conns s2 q = Some tc2" "socketChannel tc2 = socketChannel tc" "rank (tstate tc2) \<ge> 1"
        using evolvesD [OF g(2), of q ?tc] True by auto
      have "tstate tc2 \<noteq> Disconnected" using g(3) [OF refl _ _ tc2(1)] True by simp
      then have "is_open tc2" using tc2(3) by (cases "tstate tc2") auto
      with g tc2 show ?thesis by blast
    qed (use w1 True in auto)
    then obtain tc2 where tc2: "conns s2 q = Some tc2" "is_open tc2" "socketChannel tc2 = socketChannel tc" by blast
    have c2: "chans s2 (socketChannel tc2) = Some c2" using b(3) tc2(3) by simp
    have e: "evolves s s2" using e1 s2 evolves_trans by blast
    show ?thesis
    proof (cases "IsWriting c2")
      case True
      then have "s' = s2" using b(4) by simp
      moreover have "mapped s2 (fd c2) = Some (socketChannel tc2)"
        using open_mapped [OF conjunct1 [OF s2] tc2(1,2)] c2 by force
      then have "conn_ok (q \<notin> A) tc2 c2 (mapped s2 (fd c2))" using True tc2(2) by (auto simp: conn_ok_def)
      then have "world_inv A (upd_conn q tc2 s2)"
        by (intro world_inv_conn [OF conjunct1 [OF s2] tc2(1) c2 refl]) auto
      moreover have "upd_conn q tc2 s2 = s2" using tc2(1) by (simp add: upd_conn_def fun_upd_idem)
      ultimately show ?thesis using e by simp
    next
      case False
      have d: "fd (snd (EnableWrite c2)) = fd c2" "index (snd (EnableWrite c2)) = index c2"
        by (simp_all add: EnableWrite_def)
      have w: "IsWriting (snd (EnableWrite c2))" 
        using False by (auto simp: channel_ops event_bits) (simp add: WritableEvent_def)
      obtain s3 where "UpdateChannel K (socketChannel tc2) (upd_chan (socketChannel tc2) (snd (EnableWrite c2)) s2) = Inr s3"
          "world_inv A s3" "conns s3 = conns s2"
        using world_inv_update [OF conjunct1 [OF s2] assms(2) tc2(1,2) c2 d, where A' = A] w by auto
      then show ?thesis using b(4) False tc2(3) e by (auto simp: evolves_def)
    qed
  qed
qed

lemma shutdown_in_loop_keeps:
  assumes "world_inv A s" "shutdown_in_loop q s = Inr s'"
  shows "world_inv A s' \<and> evolves s s'"
proof -
  obtain tc where tc: "conns s q = Some tc" using assms(2) by (auto simp: shutdown_in_loop_def rbind_eq_Inr)
  show ?thesis
  proof (cases "tstate tc = Connected")
    case True
    obtain c where c: "chans s (socketChannel tc) = Some c" "mapped s (fd c) = Some (socketChannel tc)"
        "q \<notin> A \<Longrightarrow> ReadableBytes (outputBuffer tc) \<noteq> 0 \<Longrightarrow> IsWriting c"
      using open_mapped [OF assms(1) tc] True by blast
    let ?s1 = "upd_conn q (tc\<lparr>tstate := Disconnecting\<rparr>) s"
    have "world_inv A ?s1" using c by (intro world_inv_conn [OF assms(1) tc c(1)]) (auto simp: conn_ok_def)
    moreover have "evolves s ?s1"
      using True by (intro evolves_conn [OF tc, of _ "tc\<lparr>tstate := Disconnecting\<rparr>"]) auto
    moreover have "s' = ?s1 \<or> s' = log_sys (SysShutdown (fd c)) ?s1"
      using assms(2) tc True c(1) by (auto simp: shutdown_in_loop_def rbind_eq_Inr Let_def split: if_splits)
    ultimately show ?thesis using world_inv_log [of A ?s1 "SysShutdown (fd c)"] by (auto simp: evolves_def)
  qed (use assms tc in \<open>simp add: shutdown_in_loop_def deref_conn_def\<close>)
qed

lemma run_conn_keeps:
  assumes "good_user U" "ctl_documented K" "world_inv A s" "run_conn K U f s = Inr s'"
  shows "world_inv A s' \<and> evolves s s'"
proof (cases f)
  case (FSend q bs)
  with assms show ?thesis by (intro send_in_loop_keeps) (simp_all add: run_conn_def)
next
  case (FShutdownWrite q)
  with assms show ?thesis by (intro shutdown_in_loop_keeps) (simp_all add: run_conn_def)
next
  case (FForceClose q)
  then have "handleClose K U q s = Inr s' \<or> s' = s"
    using assms(4) by (auto simp: run_conn_def forceclose_in_loop_def rbind_eq_Inr split: if_splits)
  with assms(3) show ?thesis using handleClose_keeps [OF assms(1-3)] by auto
next
  case (FEstablish q)
  with assms show ?thesis by (intro establishConn_keeps) (simp_all add: run_conn_def)
next
  case (FIsConnected q r)
  with assms show ?thesis
    by (auto simp: run_conn_def rbind_eq_Inr world_inv_replies evolves_def)
qed (use assms in \<open>auto simp: run_conn_def setsockopt_in_loop_def rbind_eq_Inr evolves_def intro: world_inv_log\<close>)

section \<open>A concrete state\<close>

text \<open>A running loop with its eventfd channel (descriptor 5) and one established connection
  (number 0, descriptor 7, nothing to send, reading only).\<close>

definition sample_tc :: "unit tcpConnection" where
  "sample_tc = \<lparr>tstate = Connected, socketChannel = 1, connectedCallback = Some DefaultCb,
     disconnectedCallback = Some DefaultCb, messageCallback = Some DefaultCb,
     highWaterCallback = Some DefaultCb, writeCompleteCallback = Some DefaultCb, hignWaterLevel = 0,
     remoteAddrPort = (0, 0), outputBuffer = NewBuffer, inputBuffer = NewBuffer, conn_ctx = NewContext\<rparr>"

definition sample_chan :: "conn_handler handler channel" where
  "sample_chan = \<lparr>fd = 7, events = 1, revents = 0, index = 2, readCallback = Some (HExt (CRead 0)),
     writeCallback = Some (HExt (CWrite 0))\<rparr>"

definition sample_world :: "'u tcpConnection \<Rightarrow> conn_handler handler channel \<Rightarrow> 'u world" where
  "sample_world tc c = \<lparr>
     hist = [SysEpollCtl EPOLL_CTL_ADD 5 1 None, SysEpollCtl EPOLL_CTL_ADD 7 (ucast (events c)) None],
     chans = [0 \<mapsto> \<lparr>fd = 5, events = 1, revents = 0, index = 1, readCallback = Some HWakeup, writeCallback = None\<rparr>,
        1 \<mapsto> c],
     the_poller = \<lparr>epollFD = 3, channelMap = [(5, 0), (7, 1)], eventListLen = 128, idxCounter = 2\<rparr>,
     timerQ = \<lparr>timerChannel = 0, timerIdCounter = 0, theap = []\<rparr>,
     wakeupEventChannel = 0, functors = [], running = 1, gid = 1, loop_id = 1,
     loop_ctx = NewContext, doOnLoop = None, doOnStop = None, extraForReadFD = [0], nextPtr = 2,
     replies = Map.empty, nextReply = 0, conns = [0 \<mapsto> tc], nextConn = 1\<rparr>"

lemma sample_world_fields [simp]:
  "conns (sample_world tc c) = [0 \<mapsto> tc]" "chans (sample_world tc c) 1 = Some c"
  "chans (sample_world tc c) (Suc 0) = Some c"
  "running (sample_world tc c) = 1" "gid (sample_world tc c) = 1"
  by (simp_all add: sample_world_def)

lemma sample_world_inv:
  assumes "fd c = 7" "index c = 2" "socketChannel tc = 1" "is_open tc"
    "ReadableBytes (outputBuffer tc) \<noteq> 0 \<longrightarrow> IsWriting c"
  shows "world_inv A (sample_world tc c)"
  using assms
  by (auto simp: sample_world_def world_inv_def poller_inv_def in_sync_but_def conns_ok_def conn_ok_def
      registered_def Let_def)

lemma sample_tc_fields [simp]:
  "tstate sample_tc = Connected" "socketChannel sample_tc = 1" "outputBuffer sample_tc = NewBuffer"
  "writeCompleteCallback sample_tc = Some DefaultCb" "hignWaterLevel sample_tc = 0"
  "inputBuffer sample_tc = NewBuffer" "messageCallback sample_tc = Some DefaultCb"
  "disconnectedCallback sample_tc = Some DefaultCb" "highWaterCallback sample_tc = Some DefaultCb"
  by (simp_all add: sample_tc_def)

lemma sample_chan_fields [simp]: "fd sample_chan = 7" "index sample_chan = 2" "events sample_chan = 1"
  by (simp_all add: sample_chan_def)

lemma NewBuffer_empty [simp]: "ReadableBytes NewBuffer = 0"
  by (simp add: NewBuffer_def ReadableBytes_def)

lemma NewBuffer_read: "readIndex NewBuffer = 0"
  by (simp add: NewBuffer_def)

lemma good_user_id: "good_user (\<lambda>u a. Inr)"
  by (simp add: good_user_def)

section \<open>The output stream\<close>

text \<open>The bytes the kernel accepted on descriptor \<open>f\<close>, read off a history.\<close>

definition written :: "int \<Rightarrow> history \<Rightarrow> byte list" where
  "written f h = concat (map (\<lambda>e. case e of
     SysWrite g bs (Inr n) \<Rightarrow> if g = f then take n bs else [] | _ \<Rightarrow> []) h)"

lemma written_simps [simp]:
  "written f [] = []" "written f (h @ h') = written f h @ written f h'"
  "written f [SysEpollCtl a b c d] = []"
  "written f [SysWrite f bs (Inr n)] = take n bs"
  by (simp_all add: written_def)

datatype out_op = OSend "byte list" | OWritable

primrec run_out :: "kernel \<Rightarrow> ('u, 'z) user \<Rightarrow> nat \<Rightarrow> out_op \<Rightarrow> ('u, 'z) world_scheme \<Rightarrow> ('u, 'z) world_scheme res" where
  "run_out K U q (OSend bs) s = send_in_loop K U q bs s"
| "run_out K U q OWritable s = handleWrite K U q s"

primrec sent :: "out_op \<Rightarrow> byte list" where
  "sent (OSend bs) = bs"
| "sent OWritable = []"

definition pending_out :: "nat \<Rightarrow> ('u, 'z) world_scheme \<Rightarrow> byte list" where
  "pending_out q s = (case conns s q of None \<Rightarrow> [] | Some tc \<Rightarrow> content (outputBuffer tc))"

definition out_ok :: "nat \<Rightarrow> int \<Rightarrow> 'u callback option \<Rightarrow> ('u, 'z) world_scheme \<Rightarrow> bool" where
  "out_ok q f w s \<longleftrightarrow> world_inv {} s \<and> (\<exists>tc c. conns s q = Some tc \<and> tstate tc = Connected
     \<and> highWaterCallback tc = Some DefaultCb \<and> writeCompleteCallback tc = w
     \<and> buf_inv (outputBuffer tc) \<and> chans s (socketChannel tc) = Some c \<and> fd c = f)"

text \<open>The operations on which exactness ends: a \<^verbatim>\<open>Send\<close> that takes the misplacing branch of \<^verbatim>\<open>Append\<close>, and a
  write that the kernel refuses.\<close>

primrec out_stops :: "kernel \<Rightarrow> nat \<Rightarrow> int \<Rightarrow> out_op \<Rightarrow> ('u, 'z) world_scheme \<Rightarrow> bool" where
  "out_stops K q f (OSend bs) s = (\<exists>tc. conns s q = Some tc \<and> \<not> fits bs (outputBuffer tc))"
| "out_stops K q f OWritable s = (\<exists>e. k_write K (hist s) f (pending_out q s) = Inl e)"

lemma call_back_default [simp]:
  "call_back U (Some DefaultCb) (ArgHighWater q n) s = Inr s"
  "call_back U (Some DefaultCb) (ArgWriteComplete q) s = Inr s"
  "call_back U (Some DefaultCb) (ArgDisConnected q) s = Inr s"
  "call_back U (Some DefaultCb) (ArgConnected q) s = Inr s"
  by (simp_all add: call_back_def default_callback_def)

lemma UpdateChannel_hist:
  "UpdateChannel K p s = Inr s' \<Longrightarrow> \<exists>op f e. hist s' = hist s @ [SysEpollCtl op f e None]"
  by (auto simp: UpdateChannel_def EpollCtl_def rbind_eq_Inr Let_def upd_chan_def split: if_splits option.splits)

lemma out_step_send:
  assumes "out_ok q f w s" "ctl_documented K" "conns s q = Some tc" "fits bs (outputBuffer tc)"
  obtains s' h where "send_in_loop K U q bs s = Inr s'" "out_ok q f w s'" "hist s' = hist s @ h"
    "written f h = []" "pending_out q s' = pending_out q s @ bs"
proof -
  obtain c where tc: "world_inv {} s" "tstate tc = Connected" "highWaterCallback tc = Some DefaultCb"
      "writeCompleteCallback tc = w" "buf_inv (outputBuffer tc)"
      "chans s (socketChannel tc) = Some c" "fd c = f"
    using assms(1,3) by (auto simp: out_ok_def)
  obtain buf where b: "Append bs (outputBuffer tc) = Inr buf" "buf_inv buf"
      "content buf = content (outputBuffer tc) @ bs"
    using Append_ok [OF tc(5) assms(4)] by blast
  let ?tc = "tc\<lparr>outputBuffer := buf\<rparr>"
  let ?s1 = "upd_conn q ?tc s"
  have m: "mapped s (fd c) = Some (socketChannel tc)" using open_mapped [OF tc(1) assms(3)] tc by auto
  have send: "send_in_loop K U q bs s = (if \<not> IsWriting c
      then UpdateChannel K (socketChannel tc) (upd_chan (socketChannel tc) (snd (EnableWrite c)) ?s1) else Inr ?s1)"
    using assms(3) tc b(1) by (simp add: send_in_loop_def Let_def)
  show thesis
  proof (cases "IsWriting c")
    case True
    then have "world_inv {} ?s1"
      using m tc(2) by (intro world_inv_conn [OF tc(1) assms(3) tc(6)]) (auto simp: conn_ok_def)
    then have "out_ok q f w ?s1" using tc b(2) by (simp add: out_ok_def)
    then show thesis using that [of ?s1 "[]"] send True b(3) assms(3) by (simp add: pending_out_def)
  next
    case False
    have w1: "world_inv {q} ?s1"
      using m tc(2) by (intro world_inv_conn [OF tc(1) assms(3) tc(6)]) (auto simp: conn_ok_def)
    have e: "fd (snd (EnableWrite c)) = fd c" "index (snd (EnableWrite c)) = index c" "IsWriting (snd (EnableWrite c))"
      by (auto simp: channel_ops event_bits)
    obtain s' where u: "UpdateChannel K (socketChannel ?tc) (upd_chan (socketChannel ?tc) (snd (EnableWrite c)) ?s1) = Inr s'"
        "world_inv {} s'" "conns s' = conns ?s1" "chans s' = (chans ?s1)(socketChannel ?tc \<mapsto> snd (EnableWrite c))"
      using world_inv_update [OF w1 assms(2), of q ?tc c "snd (EnableWrite c)" "{}"] tc(2,6) e by auto
    have "out_ok q f w s'" using u(2-4) tc b(2) e(1) by (simp add: out_ok_def)
    moreover obtain a1 a2 a3 where "hist s' = hist s @ [SysEpollCtl a1 a2 a3 None]"
      using UpdateChannel_hist [OF u(1)] by auto
    ultimately show thesis
      using that [of s' "[SysEpollCtl a1 a2 a3 None]"] send False u(1,3) b(3) assms(3) by (simp add: pending_out_def)
  qed
qed

text \<open>What a read index that moves back uncovers.\<close>

lemma content_back:
  assumes "0 < readIndex b" "readIndex b \<le> writeIndex b" "writeIndex b \<le> int (length (data b))"
  shows "content (b\<lparr>readIndex := readIndex b - 1\<rparr>) = data b ! nat (readIndex b - 1) # content b"
proof -
  define r w where "r = nat (readIndex b - 1)" and "w = nat (writeIndex b)"
  have r: "readIndex b - 1 = int r" "nat (readIndex b) = Suc r" "nat (writeIndex b - readIndex b) = w - Suc r"
      "nat (writeIndex b - int r) = Suc (w - Suc r)" "r < length (data b)"
    using assms by (simp_all add: r_def w_def)
  have "content (b\<lparr>readIndex := readIndex b - 1\<rparr>) = take (Suc (w - Suc r)) (drop r (data b))"
    using r by (simp add: content_def)
  also have "\<dots> = data b ! r # take (w - Suc r) (drop (Suc r) (data b))" using r(5) by (simp flip: Cons_nth_drop_Suc)
  finally show ?thesis using r by (simp add: content_def)
qed

lemma out_step_write:
  assumes "out_ok q f (Some DefaultCb) s" "ctl_documented K" "write_documented K"
    "k_write K (hist s) f (pending_out q s) = Inr n"
  obtains s' h where "handleWrite K U q s = Inr s'" "out_ok q f (Some DefaultCb) s'" "hist s' = hist s @ h"
    "written f h @ pending_out q s' = pending_out q s"
proof -
  obtain tc c where tc: "world_inv {} s" "conns s q = Some tc" "tstate tc = Connected"
      "highWaterCallback tc = Some DefaultCb" "writeCompleteCallback tc = Some DefaultCb"
      "buf_inv (outputBuffer tc)" "chans s (socketChannel tc) = Some c" "fd c = f"
    using assms(1) by (auto simp: out_ok_def)
  let ?bs = "content (outputBuffer tc)"
  have n: "k_write K (hist s) f ?bs = Inr n" "n \<le> length ?bs"
    using assms(3,4) tc(2) unfolding write_documented_def by (auto simp: pending_out_def)
  obtain buf where b: "Retrieve (int n) (outputBuffer tc) = Inr buf" "buf_inv buf" "content buf = drop n ?bs"
    using Retrieve_ok [OF tc(6), of "int n"] n(2) by auto
  let ?tc = "tc\<lparr>outputBuffer := buf\<rparr>"
  let ?l = "log_sys (SysWrite f ?bs (Inr n)) s"
  let ?s2 = "upd_conn q ?tc ?l"
  have l: "world_inv {} ?l" by (rule world_inv_log [OF tc(1)]) simp
  have m: "mapped s f = Some (socketChannel tc)" "ReadableBytes (outputBuffer tc) \<noteq> 0 \<longrightarrow> IsWriting c"
    using open_mapped [OF tc(1,2)] tc(3,7,8) by auto
  have more: "ReadableBytes buf \<noteq> 0 \<Longrightarrow> IsWriting c"
    using content_length [OF b(2)] content_length [OF tc(6)] b(3) m(2) by (auto split: if_splits)
  have w2: "world_inv {} ?s2"
    using m tc(3,8) more by (intro world_inv_conn [OF l, where tc = tc and c = c]) (auto simp: tc(2,7) conn_ok_def)
  have hw: "handleWrite K U q s = (if ReadableBytes buf = 0
      then rbind (UpdateChannel K (socketChannel tc) (upd_chan (socketChannel tc) (snd (DisableWrite c)) ?s2))
        (\<lambda>s4. rbind (deref_conn q s4) (\<lambda>tc5.
           if tstate tc5 = Disconnecting then Inr (log_sys (SysShutdown (fd c)) s4) else Inr s4))
      else Inr ?s2)"
    using tc n(1) b(1) Peek_content [OF tc(6)] by (simp add: handleWrite_def Let_def)
  show thesis
  proof (cases "ReadableBytes buf = 0")
    case False
    have "out_ok q f (Some DefaultCb) ?s2" using w2 tc b(2) by (simp add: out_ok_def)
    then show thesis
      using that [of ?s2 "[SysWrite f ?bs (Inr n)]"] hw False b(3) tc(2) by (simp add: pending_out_def)
  next
    case True
    have e: "fd (snd (DisableWrite c)) = fd c" "index (snd (DisableWrite c)) = index c"
      by (simp_all add: DisableWrite_def)
    obtain s' where u: "UpdateChannel K (socketChannel ?tc) (upd_chan (socketChannel ?tc) (snd (DisableWrite c)) ?s2) = Inr s'"
        "world_inv {} s'" "conns s' = conns ?s2" "chans s' = (chans ?s2)(socketChannel ?tc \<mapsto> snd (DisableWrite c))"
      using world_inv_update [OF w2 assms(2), of q ?tc c "snd (DisableWrite c)" "{}"] tc(3,7) e True by auto
    have "out_ok q f (Some DefaultCb) s'" using u(2-4) tc b(2) e(1) by (simp add: out_ok_def)
    moreover obtain a1 a2 a3 where "hist s' = hist s @ [SysWrite f ?bs (Inr n)] @ [SysEpollCtl a1 a2 a3 None]"
      using UpdateChannel_hist [OF u(1)] by auto
    ultimately show thesis
      using that [of s' "[SysWrite f ?bs (Inr n)] @ [SysEpollCtl a1 a2 a3 None]"] hw True u(1,3) b(3) tc(2,3)
      unfolding written_simps by (simp add: pending_out_def)
  qed
qed

lemma out_step:
  fixes s :: "('u, 'z) world_scheme"
  assumes "out_ok q f (Some DefaultCb) s" "ctl_documented K" "write_documented K" "\<not> out_stops K q f op s"
  obtains s' h where "run_out K U q op s = Inr s'" "out_ok q f (Some DefaultCb) s'" "hist s' = hist s @ h"
    "written f h @ pending_out q s' = pending_out q s @ sent op"
proof (cases op)
  case (OSend bs)
  obtain tc where tc: "conns s q = Some tc" using assms(1) by (auto simp: out_ok_def)
  then have "fits bs (outputBuffer tc)" using assms(4) OSend by simp
  then obtain t h where "send_in_loop K U q bs s = Inr t" "out_ok q f (Some DefaultCb) t" "hist t = hist s @ h"
      "written f h = []" "pending_out q t = pending_out q s @ bs"
    by (rule out_step_send [OF assms(1,2) tc])
  then show thesis by (intro that [of t h]) (simp_all add: OSend)
next
  case OWritable
  then obtain n where n: "k_write K (hist s) f (pending_out q s) = Inr n"
    using assms(4) by (cases "k_write K (hist s) f (pending_out q s)") auto
  obtain t h where "handleWrite K U q s = Inr t" "out_ok q f (Some DefaultCb) t" "hist t = hist s @ h"
      "written f h @ pending_out q t = pending_out q s"
    by (rule out_step_write [OF assms(1-3) n])
  then show thesis by (intro that [of t h]) (simp_all add: OWritable)
qed

section \<open>Properties\<close>

text \<open>C2. The connection invariant: a not yet established connection is unregistered, an
  open one is what the poller maps its descriptor to, with write interest whenever output is
  pending, and a closed one is out of the poller, while \<^verbatim>\<open>channelMap\<close>, channels and kernel agree. Every closure of a
  connection method, the read handler, and the write handler of an open connection with write interest keep it,
  and lets every connection's state only move forward (\<^verbatim>\<open>Connecting\<close>, \<^verbatim>\<open>Connected\<close>,
  \<^verbatim>\<open>Disconnecting\<close>, \<^verbatim>\<open>Disconnected\<close>), provided user callbacks do so themselves, and do not close the
  connection inside its high-water callback.\<close>

theorem methods_keep_inv:
  fixes s :: "('u, 'z) world_scheme"
  assumes "good_user U" "ctl_documented K" "world_inv A s"
  shows "(\<forall>f s'. run_conn K U f s = Inr s' \<longrightarrow> world_inv A s' \<and> evolves s s')
    \<and> (\<forall>q s'. handleRead K U q s = Inr s' \<longrightarrow> world_inv A s' \<and> evolves s s')
    \<and> (\<forall>q tc c s'. conns s q = Some tc \<longrightarrow> is_open tc \<longrightarrow> chans s (socketChannel tc) = Some c \<longrightarrow> IsWriting c \<longrightarrow>
          handleWrite K U q s = Inr s' \<longrightarrow> world_inv A s' \<and> evolves s s')"
  using run_conn_keeps [OF assms] handleRead_keeps [OF assms] handleWrite_keeps [OF assms] by blast

text \<open>Concrete run: two bytes are sent on the established connection.\<close>

theorem methods_keep_inv_witness:
  "\<exists>s'. run_conn (sample_kernel []) (\<lambda>u a. Inr) (FSend 0 [1, 2]) (sample_world sample_tc sample_chan) = Inr s'
     \<and> world_inv {} s'"
proof -
  have w: "world_inv {} (sample_world sample_tc sample_chan)" by (rule sample_world_inv) simp_all
  have "is_ok (run_conn (sample_kernel []) (\<lambda>u a. Inr) (FSend 0 [1, 2]) (sample_world sample_tc sample_chan))"
    by (simp add: run_conn_def send_in_loop_def deref_conn_def Append_def NewBuffer_def go_copy_at_def Let_def
        UpdateChannel_def base_frame sample_world_def sample_chan_def channel_ops sample_kernel_def
        registered_def upd_conn_def WritableEvent_def)
  then obtain s' where "run_conn (sample_kernel []) (\<lambda>u a. Inr) (FSend 0 [1, 2]) (sample_world sample_tc sample_chan) = Inr s'"
    by (auto simp: is_ok_iff)
  with methods_keep_inv [OF good_user_id sample_ctl w, of "[]"] show ?thesis by blast
qed

text \<open>C1. The output stream is exact: on an established connection with the default callbacks, for every
  sequence of sends and writable events, with arbitrary partial writes of the kernel, up to the first write that the kernel refuses
  and the first \<^verbatim>\<open>Send\<close> that \<^verbatim>\<open>Append\<close> misplaces (it neither fits the array nor starts from read index 0), nothing panics,
  and the bytes the kernel has accepted followed by those still buffered are exactly the bytes buffered before followed by
  the bytes sent, in order; the connection stays established and the invariant holds, so whatever
  is still buffered is waited for.\<close>

theorem output_stream_exact:
  fixes s :: "('u, 'z) world_scheme"
  assumes "out_ok q f (Some DefaultCb) s" "ctl_documented K" "write_documented K"
  shows "\<exists>pre rest s' h. ops = pre @ rest \<and> rfold (run_out K U q) pre s = Inr s' \<and> hist s' = hist s @ h
    \<and> out_ok q f (Some DefaultCb) s' \<and> written f h @ pending_out q s' = pending_out q s @ concat (map sent pre)
    \<and> (case rest of [] \<Rightarrow> True | op # _ \<Rightarrow> out_stops K q f op s')"
  using assms(1)
proof (induction ops arbitrary: s)
  case Nil
  then show ?case by (intro exI [of _ "[]"] exI [of _ s]) simp
next
  case (Cons op ops)
  show ?case
  proof (cases "out_stops K q f op s")
    case True
    then show ?thesis using Cons.prems by (intro exI [of _ "[]"] exI [of _ "op # ops"] exI [of _ s]) simp
  next
    case False
    obtain s1 h1 where s1: "run_out K U q op s = Inr s1" "out_ok q f (Some DefaultCb) s1" "hist s1 = hist s @ h1"
        "written f h1 @ pending_out q s1 = pending_out q s @ sent op"
      by (rule out_step [OF Cons.prems assms(2,3) False])
    obtain pre rest s' h where s': "ops = pre @ rest" "rfold (run_out K U q) pre s1 = Inr s'" "hist s' = hist s1 @ h"
        "out_ok q f (Some DefaultCb) s'" "written f h @ pending_out q s' = pending_out q s1 @ concat (map sent pre)"
        "case rest of [] \<Rightarrow> True | op # _ \<Rightarrow> out_stops K q f op s'"
      using Cons.IH [OF s1(2)] by blast
    have "written f (h1 @ h) @ pending_out q s' = pending_out q s @ concat (map sent (op # pre))"
      using s'(5) s1(4) by (metis append_assoc concat.simps(2) list.simps(9) written_simps(2))
    then show ?thesis using s1 s'
      by (intro exI [of _ "op # pre"] exI [of _ rest] exI [of _ s'] exI [of _ "h1 @ h"]) simp
  qed
qed

text \<open>Concrete run: a kernel that takes one byte at a time; two bytes are sent, then the socket is
  writable once.\<close>

theorem output_stream_exact_witness:
  "\<exists>s' h. rfold (run_out (sample_kernel []\<lparr>k_write := \<lambda>h f bs. Inr (min 1 (length bs))\<rparr>) (\<lambda>u a. Inr) 0)
       [OSend [1, 2], OWritable] (sample_world sample_tc sample_chan) = Inr s'
     \<and> written 7 h @ pending_out 0 s' = [1, 2]"
proof -
  let ?K = "sample_kernel []\<lparr>k_write := \<lambda>h f bs. Inr (min 1 (length bs))\<rparr>"
  let ?s = "sample_world sample_tc sample_chan"
  have o: "out_ok 0 7 (Some DefaultCb) ?s"
    using sample_world_inv [of sample_chan sample_tc "{}"] NewBuffer_inv by (simp add: out_ok_def)
  have K: "ctl_documented ?K" "write_documented ?K"
    using sample_ctl [of "[]"] by (auto simp: ctl_documented_def write_documented_def)
  from output_stream_exact [OF o K, of "[OSend [1, 2], OWritable]" "\<lambda>u a. Inr"] obtain pre rest s' h where
    r: "[OSend [1, 2], OWritable] = pre @ rest" "rfold (run_out ?K (\<lambda>u a. Inr) 0) pre ?s = Inr s'"
      "written 7 h @ pending_out 0 s' = pending_out 0 ?s @ concat (map sent pre)"
      "case rest of [] \<Rightarrow> True | op # _ \<Rightarrow> out_stops ?K 0 7 op s'" by blast
  have "rest = []"
  proof (cases pre)
    case Nil
    with r show ?thesis by (auto simp: fits_def NewBuffer_def)
  next
    case (Cons op ops)
    with r show ?thesis by (cases ops) auto
  qed
  with r NewBuffer_content show ?thesis by (auto simp: pending_out_def)
qed

text \<open>C28. Graceful shutdown: \<^verbatim>\<open>ShutdownWrite\<close> on an established connection sends FIN at once exactly
  when its channel has no write interest, and then nothing is left to write; otherwise it only leaves the connection
  \<^verbatim>\<open>Disconnecting\<close> (also when nothing is queued, as on a fresh connection, which has write interest until its first write
  event). With the default write-complete callback, a write event on an open connection sends FIN exactly
  when the connection is \<^verbatim>\<open>Disconnecting\<close> and this write leaves the buffer empty. So FIN never
  overtakes data that was sent before it.\<close>

theorem FIN_after_drain:
  fixes s :: "('u, 'z) world_scheme"
  assumes "world_inv {} s" "ctl_documented K" "conns s q = Some tc" "is_open tc"
    "chans s (socketChannel tc) = Some c" "writeCompleteCallback tc = Some DefaultCb"
  shows "(tstate tc = Connected \<longrightarrow> (\<exists>s' h. shutdown_in_loop q s = Inr s' \<and> hist s' = hist s @ h
      \<and> conns s' q = Some (tc\<lparr>tstate := Disconnecting\<rparr>)
      \<and> (if IsWriting c then h = [] else h = [SysShutdown (fd c)] \<and> ReadableBytes (outputBuffer tc) = 0)))
    \<and> (\<forall>s'. handleWrite K U q s = Inr s' \<longrightarrow> (\<exists>tc' h. conns s' q = Some tc' \<and> hist s' = hist s @ h
      \<and> tstate tc' = tstate tc
      \<and> (SysShutdown (fd c) \<in> set h \<longleftrightarrow> tstate tc = Disconnecting \<and> ReadableBytes (outputBuffer tc') = 0)))"
proof (intro conjI impI allI)
  assume "tstate tc = Connected"
  moreover have "\<not> IsWriting c \<Longrightarrow> ReadableBytes (outputBuffer tc) = 0"
    using open_mapped [OF assms(1,3,4)] assms(5) by auto
  ultimately show "\<exists>s' h. shutdown_in_loop q s = Inr s' \<and> hist s' = hist s @ h
      \<and> conns s' q = Some (tc\<lparr>tstate := Disconnecting\<rparr>)
      \<and> (if IsWriting c then h = [] else h = [SysShutdown (fd c)] \<and> ReadableBytes (outputBuffer tc) = 0)"
    using assms(3,5) by (simp add: shutdown_in_loop_def Let_def)
next
  fix s' assume hw: "handleWrite K U q s = Inr s'"
  obtain bs n buf where b: "Peek (outputBuffer tc) = Inr bs"
      "n = (case k_write K (hist s) (fd c) bs of Inl e \<Rightarrow> - 1 | Inr m \<Rightarrow> int m)"
      "Retrieve n (outputBuffer tc) = Inr buf"
    using hw assms(3,5) by (auto simp: handleWrite_def rbind_eq_Inr Let_def)
  let ?w = "SysWrite (fd c) bs (k_write K (hist s) (fd c) bs)"
  let ?tc = "tc\<lparr>outputBuffer := buf\<rparr>"
  let ?s2 = "upd_conn q ?tc (log_sys ?w s)"
  show "\<exists>tc' h. conns s' q = Some tc' \<and> hist s' = hist s @ h \<and> tstate tc' = tstate tc
      \<and> (SysShutdown (fd c) \<in> set h \<longleftrightarrow> tstate tc = Disconnecting \<and> ReadableBytes (outputBuffer tc') = 0)"
  proof (cases "ReadableBytes buf = 0")
    case False
    then have "s' = ?s2" using hw assms(3,5) b by (simp add: handleWrite_def Let_def)
    with False show ?thesis by (intro exI [of _ ?tc] exI [of _ "[?w]"]) simp
  next
    case True
    then obtain s4 where u: "UpdateChannel K (socketChannel tc) (upd_chan (socketChannel tc) (snd (DisableWrite c)) ?s2) = Inr s4"
      using hw assms(3,5) b by (auto simp: handleWrite_def Let_def rbind_eq_Inr)
    have c4: "conns s4 q = Some ?tc" by (subst UpdateChannel_frame [OF u]) simp
    obtain a1 a2 a3 where h: "hist s4 = hist s @ [?w, SysEpollCtl a1 a2 a3 None]"
      using UpdateChannel_hist [OF u] by auto
    have "s' = (if tstate tc = Disconnecting then log_sys (SysShutdown (fd c)) s4 else s4)"
      using hw assms(3,5,6) b True u c4 by (simp add: handleWrite_def Let_def split: if_splits)
    with h c4 True show ?thesis
      by (intro exI [of _ ?tc]
          exI [of _ "[?w, SysEpollCtl a1 a2 a3 None] @ (if tstate tc = Disconnecting then [SysShutdown (fd c)] else [])"])
        simp
  qed
qed

text \<open>Concrete run: the sample connection, shut down and then writable.\<close>

theorem FIN_after_drain_witness:
  "\<exists>s' h. shutdown_in_loop 0 (sample_world sample_tc sample_chan) = Inr s' \<and> h = [SysShutdown 7]
     \<and> hist s' = hist (sample_world sample_tc sample_chan) @ h"
proof -
  have w: "world_inv {} (sample_world sample_tc sample_chan)" by (rule sample_world_inv) simp_all
  show ?thesis
    using FIN_after_drain [OF w sample_ctl [of "[]"], of 0 sample_tc sample_chan]
    by (auto simp: IsWriting_def WritableEvent_def)
qed

text \<open>C30. Closing: \<^verbatim>\<open>handleClose\<close> of an open connection (reached from \<^verbatim>\<open>ForceClose\<close> and from the read
  handler) with the default callback succeeds, ends the kernel's interest in the descriptor, closes it, lowers
  the channel count by one and leaves the connection \<^verbatim>\<open>Disconnected\<close>; a second \<^verbatim>\<open>handleClose\<close>
  panics, a second \<^verbatim>\<open>ForceClose\<close> does nothing, and a later \<^verbatim>\<open>Send\<close> or \<^verbatim>\<open>ShutdownWrite\<close> is ignored.\<close>

theorem close_effect:
  fixes s :: "('u, 'z) world_scheme"
  assumes "world_inv A s" "ctl_documented K" "conns s q = Some tc" "is_open tc"
    "chans s (socketChannel tc) = Some c" "disconnectedCallback tc = Some DefaultCb"
  shows "\<exists>s'. handleClose K U q s = Inr s' \<and> world_inv A s' \<and> conns s' q = Some (tc\<lparr>tstate := Disconnected\<rparr>)
    \<and> registered (hist s') = (registered (hist s))(fd c := None) \<and> last (hist s') = SysClose (fd c)
    \<and> GetChannelCount s' = GetChannelCount s - 1
    \<and> handleClose K U q s' = Inl (PanicMsg ''checkme'') \<and> forceclose_in_loop K U q s' = Inr s'
    \<and> send_in_loop K U q bs s' = Inr s' \<and> shutdown_in_loop q s' = Inr s'"
proof -
  obtain s1 where s1: "RemoveChannel K (socketChannel tc) (upd_conn q (tc\<lparr>tstate := Disconnected\<rparr>) s) = Inr s1"
      "world_inv A (log_sys (SysClose (fd c)) s1)" "conns s1 = (conns s)(q \<mapsto> tc\<lparr>tstate := Disconnected\<rparr>)"
      "chans s1 = chans s" "registered (hist s1) = (registered (hist s))(fd c := None)"
    using world_inv_remove [OF assms(1-5)] by blast
  let ?s = "log_sys (SysClose (fd c)) s1"
  have q: "conns ?s q = Some (tc\<lparr>tstate := Disconnected\<rparr>)" using s1(3) by simp
  have m: "mapped s (fd c) = Some (socketChannel tc)" using open_mapped [OF assms(1,3,4)] assms(5) by auto
  have d: "fd c \<in> dom (registered (hist s))" "finite (dom (registered (hist s)))"
    using poller_invD(4) [OF world_invD(1) [OF assms(1)]] m by (metis domI, metis finite_dom_map_of)
  have n: "GetChannelCount ?s = GetChannelCount s - 1"
    using count_card [OF world_invD(1) [OF s1(2)]] count_card [OF world_invD(1) [OF assms(1)]] s1(5)
      card_dom_remove [OF d(2,1)] by simp
  have r: "handleClose K U q s = Inr ?s"
    using assms(3-6) s1 by (auto simp: handleClose_def Let_def)
  show ?thesis
    by (rule exI [of _ ?s])
      (use q n r s1(2,5) in \<open>simp add: handleClose_def forceclose_in_loop_def send_in_loop_def shutdown_in_loop_def\<close>)
qed

theorem close_effect_witness:
  "\<exists>s'. handleClose (sample_kernel []) (\<lambda>u a. Inr) 0 (sample_world sample_tc sample_chan) = Inr s'
     \<and> GetChannelCount s' = 1"
proof -
  have w: "world_inv {} (sample_world sample_tc sample_chan)" by (rule sample_world_inv) simp_all
  have "GetChannelCount (sample_world sample_tc sample_chan) = 2" by (simp add: sample_world_def GetChannelCount_def)
  then show ?thesis
    using close_effect [OF w sample_ctl [of "[]"], of 0 sample_tc sample_chan "\<lambda>u a. Inr" "[]"] by auto
qed

text \<open>C38. A write error rewinds the output buffer: when the kernel refuses a write (\<^verbatim>\<open>EAGAIN\<close>, \<^verbatim>\<open>EPIPE\<close>, ...),
  \<^verbatim>\<open>handleWrite\<close> returns normally with the read index one lower. If it was 0 it is now -1, and the next \<^verbatim>\<open>handleWrite\<close>,
  whatever the kernel does, panics on the slice bounds. If it was above 0, the last byte that had been retrieved is
  in front of the buffered ones again, and the next \<^verbatim>\<open>handleWrite\<close> sends it a second time (stated for a write that does
  not take everything, after which no callback runs).\<close>

theorem write_error_panics:
  fixes s :: "('u, 'z) world_scheme"
  assumes "conns s q = Some tc" "chans s (socketChannel tc) = Some c" "buf_inv (outputBuffer tc)"
    "k_write K (hist s) (fd c) (content (outputBuffer tc)) = Inl e"
  shows "\<exists>s' b. handleWrite K U q s = Inr s' \<and> conns s' q = Some (tc\<lparr>outputBuffer := b\<rparr>)
    \<and> b = (outputBuffer tc)\<lparr>readIndex := readIndex (outputBuffer tc) - 1\<rparr>
    \<and> (if readIndex (outputBuffer tc) = 0 then handleWrite K' U q s' = Inl SliceBounds
       else \<exists>x. x = data (outputBuffer tc) ! nat (readIndex (outputBuffer tc) - 1)
         \<and> content b = x # content (outputBuffer tc)
         \<and> (\<forall>n. n \<le> length (content (outputBuffer tc)) \<and> k_write K' (hist s') (fd c) (x # content (outputBuffer tc)) = Inr n \<longrightarrow>
              (\<exists>s''. handleWrite K' U q s' = Inr s'' \<and> written (fd c) (hist s'') = written (fd c) (hist s')
                 @ take n (x # content (outputBuffer tc)))))"
proof -
  let ?r = "readIndex (outputBuffer tc)"
  let ?b = "(outputBuffer tc)\<lparr>readIndex := ?r - 1\<rparr>"
  let ?s = "upd_conn q (tc\<lparr>outputBuffer := ?b\<rparr>)
      (log_sys (SysWrite (fd c) (content (outputBuffer tc)) (Inl e)) s)"
  have i: "0 \<le> ?r" "?r \<le> writeIndex (outputBuffer tc)" "writeIndex (outputBuffer tc) \<le> int (length (data (outputBuffer tc)))"
    using assms(3) by (auto simp: buf_inv_def)
  have r: "Retrieve (- 1) (outputBuffer tc) = Inr ?b" "ReadableBytes ?b \<noteq> 0"
    using i by (auto simp: Retrieve_def ReadableBytes_def)
  have hw: "handleWrite K U q s = Inr ?s"
    using assms r Peek_content [OF assms(3)] by (simp add: handleWrite_def Let_def)
  have s': "conns ?s q = Some (tc\<lparr>outputBuffer := ?b\<rparr>)" "chans ?s (socketChannel tc) = Some c" using assms(2) by simp_all
  show ?thesis
  proof (cases "?r = 0")
    case True
    have "handleWrite K' U q ?s = Inl SliceBounds"
      using assms(1,2) True by (simp add: handleWrite_def Peek_def go_slice_def)
    with True hw s'(1) show ?thesis by (intro exI [of _ ?s] exI [of _ ?b]) simp
  next
    case False
    let ?x = "data (outputBuffer tc) ! nat (?r - 1)"
    have b: "buf_inv ?b" using i False by (simp add: buf_inv_def)
    have c: "content ?b = ?x # content (outputBuffer tc)"
      by (rule content_back) (use i False in simp_all)
    have "\<exists>s''. handleWrite K' U q ?s = Inr s'' \<and> written (fd c) (hist s'') = written (fd c) (hist ?s) @ take n (?x # content (outputBuffer tc))"
      if n: "n \<le> length (content (outputBuffer tc))" "k_write K' (hist ?s) (fd c) (?x # content (outputBuffer tc)) = Inr n" for n
    proof -
      let ?b2 = "?b\<lparr>readIndex := ?r - 1 + int n\<rparr>"
      have l: "int (length (content (outputBuffer tc))) = writeIndex (outputBuffer tc) - ?r"
        using content_length [OF assms(3)] by (simp add: ReadableBytes_def)
      then have "Retrieve (int n) ?b = Inr ?b2" "ReadableBytes ?b2 \<noteq> 0" using n(1) by (auto simp: Retrieve_def ReadableBytes_def)
      moreover have "Peek ?b = Inr (?x # content (outputBuffer tc))" using Peek_content [OF b] c by simp
      ultimately show ?thesis using n(2) assms(2) by (simp add: handleWrite_def Let_def written_def)
    qed
    with False hw s'(1) c show ?thesis by (intro exI [of _ ?s] exI [of _ ?b]) auto
  qed
qed

theorem write_error_panics_witness:
  "\<exists>s'. handleWrite (sample_kernel []\<lparr>k_write := \<lambda>h f bs. Inl EAGAIN\<rparr>) (\<lambda>u a. Inr) 0 (sample_world sample_tc sample_chan) = Inr s'
     \<and> handleWrite (sample_kernel []) (\<lambda>u a. Inr) 0 s' = Inl SliceBounds"
  using write_error_panics [where tc = sample_tc and c = sample_chan and e = EAGAIN and q = 0 and U = "\<lambda>u a. Inr"
      and s = "sample_world sample_tc sample_chan" and K = "sample_kernel []\<lparr>k_write := \<lambda>h f bs. Inl EAGAIN\<rparr>"
      and K' = "sample_kernel []"] NewBuffer_inv NewBuffer_read by auto

text \<open>Closing inside the high-water callback panics: when a \<^verbatim>\<open>Send\<close> on an idle connection crosses
  the high-water level and the callback calls \<^verbatim>\<open>ForceClose\<close> on its own connection, \<^verbatim>\<open>Send\<close> goes on
  to register write interest for the removed channel, and the loop panics with \<^verbatim>\<open>ENOENT\<close>.\<close>

theorem highwater_close_panics:
  fixes s :: "('u, 'z) world_scheme"
  assumes "world_inv A s" "ctl_documented K" "conns s q = Some tc" "tstate tc = Connected"
    "chans s (socketChannel tc) = Some c" "\<not> IsWriting c" "disconnectedCallback tc = Some DefaultCb"
    "highWaterCallback tc = Some (UserCb u)" "\<And>n t. U u (ArgHighWater q n) t = forceclose_in_loop K U' q t"
    "Append bs (outputBuffer tc) = Inr buf" "hignWaterLevel tc \<noteq> 0" "hignWaterLevel tc < ReadableBytes buf"
  shows "send_in_loop K U q bs s = Inl (PanicErr ENOENT)"
proof -
  let ?tc = "tc\<lparr>outputBuffer := buf\<rparr>"
  let ?s1 = "upd_conn q ?tc s"
  have m: "mapped s (fd c) = Some (socketChannel tc)" "0 < index c"
    using open_mapped [OF assms(1,3)] assms(4,5) by auto
  have w1: "world_inv (insert q A) ?s1"
    using m assms(4) by (intro world_inv_conn [OF assms(1,3,5)]) (auto simp: conn_ok_def)
  have q1: "conns ?s1 q = Some ?tc" "is_open ?tc" "chans ?s1 (socketChannel ?tc) = Some c"
    using assms(4,5) by auto
  obtain s2 where s2: "RemoveChannel K (socketChannel ?tc) (upd_conn q (?tc\<lparr>tstate := Disconnected\<rparr>) ?s1) = Inr s2"
      "conns s2 = (conns ?s1)(q \<mapsto> ?tc\<lparr>tstate := Disconnected\<rparr>)" "chans s2 = chans ?s1"
      "registered (hist s2) = (registered (hist ?s1))(fd c := None)"
    using world_inv_remove [OF w1 assms(2) q1] by blast
  let ?s3 = "log_sys (SysClose (fd c)) s2"
  have "forceclose_in_loop K U' q ?s1 = Inr ?s3"
    using s2 assms(4,5,7) by (simp add: forceclose_in_loop_def handleClose_def Let_def)
  then have hw: "call_back U (highWaterCallback tc) (ArgHighWater q (ReadableBytes buf)) ?s1 = Inr ?s3"
    using assms(8,9) by (simp add: call_back_def)
  let ?s4 = "upd_chan (socketChannel tc) (snd (EnableWrite c)) ?s3"
  have "k_ctl K (hist ?s4) EPOLL_CTL_MOD (fd c) e = Some ENOENT" for e
    using ctl_mod_del [OF assms(2), of EPOLL_CTL_MOD "hist ?s4" "fd c" e] s2(4) by simp
  then have "UpdateChannel K (socketChannel tc) ?s4 = Inl (PanicErr ENOENT)"
    using m(2) by (simp add: UpdateChannel_def EpollCtl_def EnableWrite_def Let_def)
  then show ?thesis
    using assms(3-6,10-12) hw s2(3) by (simp add: send_in_loop_def Let_def)
qed

text \<open>Concrete run: level 1, two bytes sent, a callback that closes.\<close>

theorem highwater_close_panics_witness:
  "send_in_loop (sample_kernel []) (\<lambda>u a. forceclose_in_loop (sample_kernel []) (\<lambda>u a. Inr) 0) 0 [1, 2]
     (sample_world (sample_tc\<lparr>hignWaterLevel := 1, highWaterCallback := Some (UserCb ())\<rparr>) sample_chan)
   = Inl (PanicErr ENOENT)"
proof -
  let ?tc = "sample_tc\<lparr>hignWaterLevel := 1, highWaterCallback := Some (UserCb ())\<rparr>"
  have w: "world_inv {} (sample_world ?tc sample_chan)" by (rule sample_world_inv) simp_all
  obtain buf where b: "Append [1, 2] NewBuffer = Inr buf" "buf_inv buf" "content buf = [1, 2]"
    using Append_ok [OF NewBuffer_inv, of "[1, 2]"] NewBuffer_content by (auto simp: fits_def NewBuffer_def)
  have n: "ReadableBytes buf = 2" using content_length [OF b(2)] b(3) by simp
  show ?thesis
    by (rule highwater_close_panics [OF w sample_ctl, where tc = ?tc and c = sample_chan and buf = buf and u = "()"])
      (simp_all add: b(1) n IsWriting_def WritableEvent_def)
qed

text \<open>C29. Reading, on every branch, for a connection with a well-formed input buffer. Bytes the kernel
  delivers are appended, in order, and the message callback runs with them, as long as the buffer holds them (or was never
  read from). Otherwise \<^verbatim>\<open>Append\<close> misplaces the part that spilled over the end of the array: that many bytes are added, but \<open>readIndex\<close>
  zeros come first and push the rest out; or it panics, when more was retrieved before than it makes room for. End of file, a read error,
  and also a full input buffer (without any read) lead to \<^verbatim>\<open>handleClose\<close>: a full buffer is taken for a closed peer.\<close>

theorem handleRead_every_branch:
  fixes s :: "('u, 'z) world_scheme"
  assumes "world_inv A s" "conns s q = Some tc" "chans s (socketChannel tc) = Some c"
    "buf_inv (inputBuffer tc)" "extraForReadFD s \<noteq> []"
    "writable = int (length (data (inputBuffer tc))) - writeIndex (inputBuffer tc)"
    "rv = k_readv K (hist s) (fd c) (nat (writable + int (length (extraForReadFD s))))"
  shows "(writable = 0 \<longrightarrow> handleRead K U q s = handleClose K U q s)
    \<and> (writable \<noteq> 0 \<and> (rv = None \<or> rv = Some []) \<longrightarrow> (\<exists>s1. handleRead K U q s = handleClose K U q s1
         \<and> conns s1 = conns s \<and> world_inv A s1))
    \<and> (\<forall>bs. writable \<noteq> 0 \<and> rv = Some bs \<and> bs \<noteq> [] \<and> int (length bs) \<le> writable + int (length (extraForReadFD s)) \<longrightarrow>
         (let spilled = drop (nat writable) bs; r = readIndex (inputBuffer tc); ok = fits bs (inputBuffer tc)
          in if \<not> ok \<and> int (length spilled) + 8192 < r then handleRead K U q s = Inl SliceBounds
             else \<exists>s1 buf. handleRead K U q s = call_back U (messageCallback tc) (ArgMessage q) s1 \<and> world_inv A s1
               \<and> conns s1 = (conns s)(q \<mapsto> tc\<lparr>inputBuffer := buf\<rparr>) \<and> buf_inv buf
               \<and> content buf = content (inputBuffer tc) @ (if ok then bs
                    else take (nat writable) bs @ take (length spilled) (replicate (nat r) 0 @ spilled))))"
proof (intro conjI impI allI)
  let ?b = "inputBuffer tc"
  have upd: "upd_conn q (tc\<lparr>inputBuffer := ?b\<rparr>) t = t" if "conns t = conns s" for t :: "('u, 'z) world_scheme"
    using that assms(2) by (simp add: upd_conn_def fun_upd_idem)
  show "handleRead K U q s = handleClose K U q s" if "writable = 0"
    using that assms(2,3,6) upd [of s] by (simp add: handleRead_def ReadFD_def Let_def)
  show "\<exists>s1. handleRead K U q s = handleClose K U q s1 \<and> conns s1 = conns s \<and> world_inv A s1"
    if "writable \<noteq> 0 \<and> (rv = None \<or> rv = Some [])"
  proof -
    let ?s1 = "log_sys (SysReadv (fd c) (nat (writable + int (length (extraForReadFD s)))) rv) s"
    have "ReadFD rv (extraForReadFD s) ?b = Inr (0, ?b, extraForReadFD s)"
      using that assms(4-6) by (auto simp: ReadFD_def Let_def buf_inv_def overlay_def)
    then have "handleRead K U q s = handleClose K U q ?s1"
      using that assms(2,3) upd [of ?s1] upd [of s]
      by (simp add: handleRead_def Let_def assms(6,7) [symmetric] log_sys_def)
    moreover have "world_inv A ?s1" by (rule world_inv_log [OF assms(1)]) simp
    ultimately show ?thesis by (intro exI [of _ ?s1]) simp
  qed
  fix bs
  assume bs: "writable \<noteq> 0 \<and> rv = Some bs \<and> bs \<noteq> [] \<and> int (length bs) \<le> writable + int (length (extraForReadFD s))"
  let ?m = "drop (nat writable) bs" and ?r = "readIndex ?b" and ?ok = "fits bs ?b"
  let ?new = "if ?ok then bs else take (nat writable) bs @ take (length ?m) (replicate (nat ?r) 0 @ ?m)"
  have free: "writeIndex ?b < int (length (data ?b))" using bs assms(4,6) by (auto simp: buf_inv_def)
  have R: "if \<not> ?ok \<and> int (length ?m) + 8192 < ?r then ReadFD rv (extraForReadFD s) ?b = Inl SliceBounds
    else \<exists>buf x. ReadFD rv (extraForReadFD s) ?b = Inr (int (length bs), buf, x) \<and> buf_inv buf \<and> content buf = content ?b @ ?new"
    using ReadFD_ok [OF assms(4) free assms(5), of bs] ReadFD_overflow [OF assms(4) free assms(5), of bs] bs assms(6)
    by (cases ?ok) (auto simp del: length_drop split: if_splits)
  have read: "\<exists>s1. handleRead K U q s = call_back U (messageCallback tc) (ArgMessage q) s1 \<and> world_inv A s1
      \<and> conns s1 = (conns s)(q \<mapsto> tc\<lparr>inputBuffer := buf\<rparr>)"
    if r: "ReadFD rv (extraForReadFD s) ?b = Inr (int (length bs), buf, x)" for buf x
  proof -
    let ?s1 = "log_sys (SysReadv (fd c) (nat (writable + int (length (extraForReadFD s)))) rv)
        (upd_conn q (tc\<lparr>inputBuffer := buf\<rparr>) (s\<lparr>extraForReadFD := x\<rparr>))"
    have "handleRead K U q s = call_back U (messageCallback tc) (ArgMessage q) ?s1"
      using bs r assms(2,3) by (simp add: handleRead_def Let_def assms(6,7) [symmetric])
    moreover have "world_inv A ?s1"
      using assms(1,2) by (intro world_inv_log world_inv_input) (simp_all add: world_inv_extra)
    ultimately show ?thesis by (intro exI [of _ ?s1]) simp
  qed
  have "handleRead K U q s = Inl SliceBounds" if "ReadFD rv (extraForReadFD s) ?b = Inl SliceBounds"
    using that assms(2,3) by (simp add: handleRead_def Let_def assms(6,7) [symmetric])
  with R read show "let spilled = ?m; r = ?r; ok = ?ok
      in if \<not> ok \<and> int (length spilled) + 8192 < r then handleRead K U q s = Inl SliceBounds
         else \<exists>s1 buf. handleRead K U q s = call_back U (messageCallback tc) (ArgMessage q) s1 \<and> world_inv A s1
           \<and> conns s1 = (conns s)(q \<mapsto> tc\<lparr>inputBuffer := buf\<rparr>) \<and> buf_inv buf
           \<and> content buf = content ?b @ (if ok then bs else take (nat writable) bs @ take (length spilled) (replicate (nat r) 0 @ spilled))"
    unfolding Let_def by (auto simp del: length_drop split: if_splits) metis+
qed

text \<open>Concrete run: the kernel delivers three bytes to the sample connection.\<close>

theorem handleRead_every_branch_witness:
  "\<exists>s1 buf. handleRead (sample_kernel []\<lparr>k_readv := \<lambda>h f n. Some [4, 5, 6]\<rparr>) (\<lambda>u a. Inr) 0 (sample_world sample_tc sample_chan)
       = call_back (\<lambda>u a. Inr) (Some DefaultCb) (ArgMessage 0) s1
     \<and> conns s1 = [0 \<mapsto> sample_tc\<lparr>inputBuffer := buf\<rparr>] \<and> content buf = [4, 5, 6]"
proof -
  have w: "world_inv {} (sample_world sample_tc sample_chan)" by (rule sample_world_inv) simp_all
  have x: "extraForReadFD (sample_world sample_tc sample_chan) \<noteq> []" by (simp add: sample_world_def)
  have b: "int (length (data NewBuffer)) - writeIndex NewBuffer = 8192" "readIndex NewBuffer = 0"
    by (simp_all add: NewBuffer_def)
  show ?thesis
    using handleRead_every_branch [OF w, of 0 sample_tc sample_chan 8192 "Some [4, 5, 6]"
        "sample_kernel []\<lparr>k_readv := \<lambda>h f n. Some [4, 5, 6]\<rparr>" "\<lambda>u a. Inr"] x b NewBuffer_content
    by (simp add: NewBuffer_inv fits_def) blast
qed

text \<open>C39. FIN can overtake data: when the write-complete callback sends a last message and calls
  \<^verbatim>\<open>ShutdownWrite\<close>, the write handler that invoked it finds the connection \<^verbatim>\<open>Disconnecting\<close> on return and
  shuts the socket down while the whole message is still in the output buffer.\<close>

theorem FIN_before_data:
  fixes s :: "('u, 'z) world_scheme"
  assumes "out_ok q f (Some (UserCb u)) s" "ctl_documented K" "k_write K (hist s) f [] = Inr 0" "conns s q = Some tc"
    "content (outputBuffer tc) = []" "bs \<noteq> []" "fits bs (outputBuffer tc)"
    "\<And>t. U u (ArgWriteComplete q) t = rbind (send_in_loop K U' q bs t) (shutdown_in_loop q)"
  shows "\<exists>s'. handleWrite K U q s = Inr s' \<and> last (hist s') = SysShutdown f \<and> pending_out q s' = bs"
proof -
  obtain c where c: "world_inv {} s" "tstate tc = Connected" "highWaterCallback tc = Some DefaultCb"
      "writeCompleteCallback tc = Some (UserCb u)" "buf_inv (outputBuffer tc)"
      "chans s (socketChannel tc) = Some c" "fd c = f"
    using assms(1,4) by (auto simp: out_ok_def)
  note n = assms(3)
  have r0: "ReadableBytes (outputBuffer tc) = 0" using content_length [OF c(5)] assms(5) by simp
  then have r: "Retrieve 0 (outputBuffer tc) = Inr (outputBuffer tc)" by (simp add: Retrieve_def)
  let ?s2 = "log_sys (SysWrite f [] (Inr 0)) s"
  have id: "upd_conn q tc ?s2 = ?s2" using assms(4) by (simp add: upd_conn_def fun_upd_idem)
  have w2: "world_inv {} ?s2" by (rule world_inv_log [OF c(1)]) simp
  have e: "fd (snd (DisableWrite c)) = fd c" "index (snd (DisableWrite c)) = index c"
    by (simp_all add: DisableWrite_def)
  obtain s4 where u: "UpdateChannel K (socketChannel tc) (upd_chan (socketChannel tc) (snd (DisableWrite c)) ?s2) = Inr s4"
      "world_inv {} s4" "conns s4 = conns ?s2" "chans s4 = (chans ?s2)(socketChannel tc \<mapsto> snd (DisableWrite c))"
    using world_inv_update [OF w2 assms(2), of q tc c "snd (DisableWrite c)" "{}"] c assms(4) e r0 by auto
  have q4: "conns s4 q = Some tc" "out_ok q f (Some (UserCb u)) s4"
    using u c assms(4) e by (simp_all add: out_ok_def)
  obtain s5 h where s5: "send_in_loop K U' q bs s4 = Inr s5" "out_ok q f (Some (UserCb u)) s5"
      "pending_out q s5 = pending_out q s4 @ bs"
    by (rule out_step_send [OF q4(2) assms(2) q4(1) assms(7)])
  obtain td d where d: "world_inv {} s5" "conns s5 q = Some td" "tstate td = Connected" "buf_inv (outputBuffer td)"
      "chans s5 (socketChannel td) = Some d"
    using s5(2) by (auto simp: out_ok_def)
  have bs: "content (outputBuffer td) = bs"
    using s5(3) d(2) q4(1) assms(5) by (simp add: pending_out_def)
  then have "ReadableBytes (outputBuffer td) \<noteq> 0" using content_length [OF d(4)] assms(6) by auto
  then have "IsWriting d" using open_mapped [OF d(1,2)] d(3,5) by auto
  then have sh: "shutdown_in_loop q s5 = Inr (upd_conn q (td\<lparr>tstate := Disconnecting\<rparr>) s5)"
    using d by (simp add: shutdown_in_loop_def Let_def)
  have "handleWrite K U q s = Inr (log_sys (SysShutdown f) (upd_conn q (td\<lparr>tstate := Disconnecting\<rparr>) s5))"
    using assms(4,5,8) c Peek_content [OF c(5)] n r r0 id u(1) s5(1) sh
    by (simp add: handleWrite_def Let_def call_back_def)
  then show ?thesis using bs by (simp add: pending_out_def)
qed

theorem FIN_before_data_witness:
  "\<exists>s'. handleWrite (sample_kernel []) (\<lambda>u a t. rbind (send_in_loop (sample_kernel []) (\<lambda>u a. Inr) 0 [9] t) (shutdown_in_loop 0)) 0
       (sample_world (sample_tc\<lparr>writeCompleteCallback := Some (UserCb ())\<rparr>) sample_chan) = Inr s'
     \<and> last (hist s') = SysShutdown 7 \<and> pending_out 0 s' = [9]"
proof -
  let ?s = "sample_world (sample_tc\<lparr>writeCompleteCallback := Some (UserCb ())\<rparr>) sample_chan"
  have o: "out_ok 0 7 (Some (UserCb ())) ?s"
    using sample_world_inv [of sample_chan "sample_tc\<lparr>writeCompleteCallback := Some (UserCb ())\<rparr>" "{}"] NewBuffer_inv
    by (simp add: out_ok_def)
  have K: "k_write (sample_kernel []) (hist ?s) 7 [] = Inr 0" by (simp add: sample_kernel_def)
  show ?thesis
    by (rule FIN_before_data [OF o sample_ctl K, where U' = "\<lambda>u a. Inr"
          and tc = "sample_tc\<lparr>writeCompleteCallback := Some (UserCb ())\<rparr>"])
      (simp_all add: NewBuffer_content fits_def NewBuffer_read)
qed

end
