(* ===== verification/Load_Balance.thy ===== *)
theory Load_Balance
  imports Prelude "HOL-Library.Multiset"
begin

text \<open>
  The two load-balancing strategies of \<^verbatim>\<open>load_balance.go\<close>. A strategy is a closure: \<open>RoundRobin\<close>
  carries its captured index as an explicit state; \<open>LeastConnection\<close> asks the loops for their
  channel counts while it runs. Those answers come from other goroutines and may change
  from one question to the next, so the \<open>t\<close>-th answer about loop \<open>l\<close> is \<open>cnt t l\<close>.
\<close>

section \<open>Strategies\<close>

definition RoundRobin :: "int \<Rightarrow> 'l list \<Rightarrow> ('l \<times> int) res" where
  "RoundRobin nextLoopIndex loops =
     (if 0 \<le> nextLoopIndex \<and> nextLoopIndex < int (length loops)
      then Inr (loops ! nat nextLoopIndex, (nextLoopIndex + 1) mod int (length loops))
      else Inl IndexRange)"

fun least_loop :: "(nat \<Rightarrow> 'l \<Rightarrow> int) \<Rightarrow> nat \<Rightarrow> 'l \<Rightarrow> 'l list \<Rightarrow> 'l \<times> nat" where
  "least_loop cnt t l [] = (l, t)"
| "least_loop cnt t l (x # xs) =
     least_loop cnt (t + 2) (if cnt t x < cnt (t + 1) l then x else l) xs"

definition LeastConnection :: "(nat \<Rightarrow> 'l \<Rightarrow> int) \<Rightarrow> nat \<Rightarrow> 'l list \<Rightarrow> ('l \<times> nat) res" where
  "LeastConnection cnt t loops =
     (case loops of [] \<Rightarrow> Inl IndexRange | l # ls \<Rightarrow> Inr (least_loop cnt t l ls))"

section \<open>The interface a server relies on\<close>

text \<open>A balancer in a good state picks one of the given loops, without panicking, and stays in a
  good state.\<close>

fun picks :: "('s \<Rightarrow> 'l list \<Rightarrow> ('l \<times> 's) res) \<Rightarrow> nat \<Rightarrow> 's \<Rightarrow> 'l list \<Rightarrow> ('l list \<times> 's) res" where
  "picks pick 0 st loops = Inr ([], st)"
| "picks pick (Suc n) st loops =
     rbind (pick st loops) (\<lambda>(l, st1).
     rbind (picks pick n st1 loops) (\<lambda>(ls, st2). Inr (l # ls, st2)))"

locale balancer =
  fixes pick :: "'s \<Rightarrow> 'l list \<Rightarrow> ('l \<times> 's) res"
    and good :: "'s \<Rightarrow> 'l list \<Rightarrow> bool"
  assumes pick_ok: "loops \<noteq> [] \<Longrightarrow> good st loops \<Longrightarrow>
    \<exists>l st'. pick st loops = Inr (l, st') \<and> l \<in> set loops \<and> good st' loops"
begin

lemma picks_ok:
  "loops \<noteq> [] \<Longrightarrow> good st loops \<Longrightarrow>
     \<exists>ls st'. picks pick n st loops = Inr (ls, st') \<and> length ls = n \<and> set ls \<subseteq> set loops \<and> good st' loops"
proof (induction n arbitrary: st)
  case (Suc n)
  obtain l st1 where l: "pick st loops = Inr (l, st1)" "l \<in> set loops" "good st1 loops"
    using pick_ok [OF Suc.prems] by blast
  with Suc.IH [OF Suc.prems(1) l(3)] show ?case by auto
qed simp

end

definition rr_good :: "int \<Rightarrow> 'l list \<Rightarrow> bool" where
  "rr_good i loops \<longleftrightarrow> 0 \<le> i \<and> i < int (length loops)"

lemma least_loop_in: "fst (least_loop cnt t l ls) \<in> insert l (set ls)"
  by (induction cnt t l ls rule: least_loop.induct) auto

interpretation rr: balancer RoundRobin rr_good
  by unfold_locales (auto simp: RoundRobin_def rr_good_def)

interpretation lc: balancer "LeastConnection cnt" "\<lambda>t loops. True" for cnt
proof unfold_locales
  fix loops :: "'a list" and t
  assume "loops \<noteq> []"
  then obtain l ls where "loops = l # ls" by (cases loops) auto
  then show "\<exists>l t'. LeastConnection cnt t loops = Inr (l, t') \<and> l \<in> set loops \<and> True"
    using least_loop_in [of cnt t l ls] by (cases "least_loop cnt t l ls") (auto simp: LeastConnection_def)
qed

section \<open>Round robin goes round\<close>

lemma rr_picks:
  assumes "loops \<noteq> []"
  shows "picks RoundRobin n (int i mod int (length loops)) loops =
    Inr (map (\<lambda>j. loops ! ((i + j) mod length loops)) [0..<n], int (i + n) mod int (length loops))"
proof (induction n arbitrary: i)
  case (Suc n)
  let ?k = "int (length loops)"
  have k: "0 < ?k" using assms by simp
  have "RoundRobin (int i mod ?k) loops = Inr (loops ! (i mod length loops), int (Suc i) mod ?k)"
  proof -
    have "nat (int i mod ?k) = i mod length loops" by (simp add: nat_mod_distrib)
    moreover have "(int i mod ?k + 1) mod ?k = int (Suc i) mod ?k" by (metis mod_add_left_eq of_nat_Suc add.commute)
    ultimately show ?thesis using k by (simp add: RoundRobin_def)
  qed
  then have "picks RoundRobin (Suc n) (int i mod ?k) loops = Inr (loops ! (i mod length loops) #
      map (\<lambda>j. loops ! ((Suc i + j) mod length loops)) [0..<n], int (Suc i + n) mod ?k)"
    by (simp only: picks.simps Suc.IH [of "Suc i"] rbind.simps prod.case)
  moreover have "map (\<lambda>j. loops ! ((i + j) mod length loops)) [0..<Suc n] =
      loops ! (i mod length loops) # map (\<lambda>j. loops ! ((Suc i + j) mod length loops)) [0..<n]"
    by (subst upt_conv_Cons) (simp_all add: comp_def flip: map_Suc_upt del: upt_Suc)
  ultimately show ?case by (simp only: add_Suc_right add_Suc)
qed simp

lemma div_step:
  fixes r :: nat
  assumes "i < k" "r < k"
  shows "(Suc r + (k - 1 - i)) div k = (r + (k - 1 - i)) div k + (if r = i then 1 else 0)"
proof -
  consider "r < i" | "r = i" | "i < r" by linarith
  then show ?thesis
  proof cases
    case 3
    then have "k \<le> Suc r + (k - 1 - i)" "Suc r + (k - 1 - i) < 2 * k" "k \<le> r + (k - 1 - i)" "r + (k - 1 - i) < 2 * k"
      using assms by linarith+
    then have "(Suc r + (k - 1 - i)) div k = 1" "(r + (k - 1 - i)) div k = 1"
      by (simp_all add: div_nat_eqI)
    with 3 show ?thesis by simp
  qed (use assms in auto)
qed

lemma count_mod_upt:
  assumes "i < k"
  shows "length (filter (\<lambda>j. j mod k = i) [0..<n]) = (n + (k - 1 - i)) div k"
proof (induction n)
  case 0
  then show ?case using assms by simp
next
  case (Suc n)
  have "(Suc n + (k - 1 - i)) div k = (n + (k - 1 - i)) div k + (if n mod k = i then 1 else 0)"
    (is "?l = ?r")
  proof -
    have "Suc n + (k - 1 - i) = Suc (n mod k) + (k - 1 - i) + n div k * k"
      "n + (k - 1 - i) = n mod k + (k - 1 - i) + n div k * k"
      using div_mult_mod_eq [of n k] by linarith+
    then have "?l = n div k + (Suc (n mod k) + (k - 1 - i)) div k"
      "(n + (k - 1 - i)) div k = n div k + (n mod k + (k - 1 - i)) div k"
      using assms by (metis add.commute div_mult_self1 not_less_zero)+
    moreover note div_step [OF assms, of "n mod k"]
    ultimately show ?thesis using assms by simp
  qed
  with Suc.IH show ?case by simp
qed

lemma least_loop_min:
  assumes "least_loop (\<lambda>t. c) t l ls = (r, t')"
  shows "(\<forall>x \<in> insert l (set ls). c r \<le> c x) \<and> (\<exists>as bs. l # ls = as @ r # bs \<and> (\<forall>a \<in> set as. c r < c a))"
  using assms
proof (induction ls arbitrary: t l)
  case (Cons x xs)
  show ?case
  proof (cases "c x < c l")
    case True
    with Cons.prems have "least_loop (\<lambda>t. c) (t + 2) x xs = (r, t')" by simp
    from Cons.IH [OF this] obtain as bs where a: "\<forall>y \<in> insert x (set xs). c r \<le> c y" "x # xs = as @ r # bs"
        "\<forall>a \<in> set as. c r < c a" by blast
    have lt: "c r < c l" using True a(1) by auto
    have "\<exists>as bs. l # x # xs = as @ r # bs \<and> (\<forall>a \<in> set as. c r < c a)"
      using a(2,3) lt by (intro exI [of _ "l # as"] exI [of _ bs]) auto
    then show ?thesis using a(1) lt by auto
  next
    case False
    with Cons.prems have "least_loop (\<lambda>t. c) (t + 2) l xs = (r, t')" by simp
    from Cons.IH [OF this] obtain as bs where a: "\<forall>y \<in> insert l (set xs). c r \<le> c y" "l # xs = as @ r # bs"
        "\<forall>a \<in> set as. c r < c a" by blast
    have "\<exists>as bs. l # x # xs = as @ r # bs \<and> (\<forall>a \<in> set as. c r < c a)"
    proof (cases as)
      case Nil
      with a show ?thesis by (intro exI [of _ "[]"] exI [of _ "x # bs"]) auto
    next
      case (Cons y ys)
      with a False show ?thesis by (intro exI [of _ "l # x # ys"] exI [of _ bs]) auto
    qed
    moreover have "c r \<le> c x" using a(1) False by auto
    ultimately show ?thesis using a(1) by auto
  qed
next
  case Nil
  then show ?case by (intro conjI exI [of _ "[]"]) auto
qed

section \<open>Properties\<close>

text \<open>C33. Round robin is fair: starting from a fresh strategy, over \<open>n\<close> connections on a pool of
  distinct loops, nothing panics and the loop at position \<open>i\<close> is chosen exactly
  \<open>(n + (k - 1 - i)) div k\<close> times, \<open>k\<close> being the number of loops, so that no two
  loops ever differ by more than one connection.\<close>

theorem RoundRobin_fair:
  assumes "distinct loops" "i < length loops"
  shows "\<exists>ls st. picks RoundRobin n 0 loops = Inr (ls, st)
    \<and> count_list ls (loops ! i) = (n + (length loops - 1 - i)) div length loops"
proof -
  let ?k = "length loops"
  have ne: "loops \<noteq> []" using assms(2) by auto
  let ?ls = "map (\<lambda>j. loops ! (j mod ?k)) [0..<n]"
  have "count_list ?ls (loops ! i) = length (filter (\<lambda>j. loops ! (j mod ?k) = loops ! i) [0..<n])"
    by (induction n) auto
  also have "(\<lambda>j. loops ! (j mod ?k) = loops ! i) = (\<lambda>j. j mod ?k = i)"
    using nth_eq_iff_index_eq [OF assms(1) _ assms(2)] ne by (intro ext) simp
  also have "length (filter (\<lambda>j. j mod ?k = i) [0..<n]) = (n + (?k - 1 - i)) div ?k"
    by (rule count_mod_upt [OF assms(2)])
  finally show ?thesis using rr_picks [OF ne, of n 0] by simp
qed

theorem RoundRobin_fair_witness:
  "\<exists>ls st. picks RoundRobin 7 0 [''a'', ''b'', ''c''] = Inr (ls, st) \<and> count_list ls ''b'' = 2"
  using RoundRobin_fair [of "[''a'', ''b'', ''c'']" 1 7] by simp

text \<open>Least connection picks a least loaded loop: when the counts do not change while it
  runs, the result is a loop of the pool with the smallest count, and the first such one; it
  panics only on an empty pool.\<close>

theorem LeastConnection_min:
  assumes "\<And>t x. cnt t x = c x"
  shows "(LeastConnection cnt t loops = Inl IndexRange \<longleftrightarrow> loops = [])
    \<and> (\<forall>r t'. LeastConnection cnt t loops = Inr (r, t') \<longrightarrow> (\<forall>x \<in> set loops. c r \<le> c x)
        \<and> (\<exists>as bs. loops = as @ r # bs \<and> (\<forall>a \<in> set as. c r < c a)))"
proof (cases loops)
  case (Cons l ls)
  have "cnt = (\<lambda>t. c)" using assms by (intro ext) simp
  then show ?thesis using least_loop_min [of c t l ls] Cons
    by (cases "least_loop cnt t l ls") (auto simp: LeastConnection_def)
qed (simp add: LeastConnection_def)

theorem LeastConnection_min_witness:
  "\<exists>as bs. [4, 2, 7, 2] = as @ (2::int) # bs \<and> (\<forall>a \<in> set as. 2 < a)"
proof -
  have "LeastConnection (\<lambda>t x. x) 0 [4, 2, 7, 2 :: int] = Inr (2, 6)" by (simp add: LeastConnection_def)
  then show ?thesis using LeastConnection_min [of "\<lambda>t x. x" "\<lambda>x. x :: int" 0 "[4, 2, 7, 2]"] by blast
qed

end
