(* ===== verification/Tcp_Server.thy ===== *)
theory Tcp_Server
  imports Tcp_Conn Load_Balance
begin

text \<open>
  The server: the acceptor of \<^verbatim>\<open>tcp_acceptor.go\<close>, the pool of loop goroutines of
  \<^verbatim>\<open>eventloop_goroutine.go\<close> and \<^verbatim>\<open>eventloop_goroutine_poll.go\<close>, and \<^verbatim>\<open>tcp_server.go\<close>. Loops are
  shared objects: a reference \<open>r\<close> points into the store \<open>sloops\<close> of worlds, each loop with the
  kernel answers \<open>Ks r\<close> of its own descriptors. The load-balancing strategy is a parameter
  with its captured state. \<^verbatim>\<open>go func()\<close> is recorded in \<open>spawned\<close>. A \<^verbatim>\<open>netip.Addr\<close> is the sum of
  the forms \<^verbatim>\<open>As4\<close> distinguishes.
\<close>

section \<open>State\<close>

datatype net_addr = Addr4 "32 word" | Addr4In6 "32 word" | Addr6 "128 word"

datatype acc_callback = AccDefault | AccServer

record tcpAcceptor =
  listening :: bool
  listenAddr :: "net_addr \<times> 16 word"
  acc_channel :: nat
  newConnectionCallback :: "acc_callback option"
  listenBackup :: int

record eventloopGoroutine =
  g_started :: int
  g_loop :: nat

record eventloopGoroutinePoll =
  numOfGoroutine :: int
  p_started :: int
  loopGoroutines :: "eventloopGoroutine list"
  p_loops :: "nat list"
  baseLoop :: nat

record ('u, 's) server =
  sloops :: "nat \<rightharpoonup> 'u world"
  s_loop :: nat
  acceptor :: tcpAcceptor
  s_started :: bool
  s_connectedCallback :: "'u callback option"
  s_msgCallback :: "'u callback option"
  evloopPoll :: eventloopGoroutinePoll
  strat_state :: 's
  spawned :: "nat list"

definition deref_loop :: "nat \<Rightarrow> ('u, 's) server \<Rightarrow> 'u world res" where
  "deref_loop r sv = (case sloops sv r of None \<Rightarrow> Inl NilDeref | Some w \<Rightarrow> Inr w)"

definition upd_loop :: "nat \<Rightarrow> 'u world \<Rightarrow> ('u, 's) server \<Rightarrow> ('u, 's) server" where
  "upd_loop r w sv = sv\<lparr>sloops := (sloops sv)(r \<mapsto> w)\<rparr>"

section \<open>Loop goroutines\<close>

text \<open>The answers of the kernel while a loop is constructed.\<close>

record loop_answers =
  la_eventfd :: "errno + int"
  la_nb1 :: "errno option"
  la_epoll :: "errno + int"
  la_timerfd :: "errno + int"
  la_nb2 :: "errno option"

definition new_world :: "kernel \<Rightarrow> loop_answers \<Rightarrow> int \<Rightarrow> ('u world \<times> int) res" where
  "new_world K a idGen =
     rbind (NewEventLoop K (la_eventfd a) (la_nb1 a) (la_epoll a) (la_timerfd a) (la_nb2 a) idGen)
       (\<lambda>(ev, i). Inr (evloop.extend ev (world.fields Map.empty 0), i))"

text \<open>\<^verbatim>\<open>newEventLoopGoroutine\<close>, for the loop that will have reference \<open>r\<close>.\<close>

definition newEventLoopGoroutine :: "kernel \<Rightarrow> loop_answers \<Rightarrow> nat \<Rightarrow> int
    \<Rightarrow> (eventloopGoroutine \<times> 'u world \<times> int) res" where
  "newEventLoopGoroutine K a r idGen =
     rbind (new_world K a idGen) (\<lambda>(w, i). Inr (\<lparr>g_started = 0, g_loop = r\<rparr>, w, i))"

definition startLoop :: "eventloopGoroutine \<Rightarrow> (eventloopGoroutine \<times> nat) res" where
  "startLoop g = (if g_started g \<noteq> 0 then Inl (PanicMsg ''already started'')
     else Inr (g\<lparr>g_started := 1\<rparr>, g_loop g))"

section \<open>The pool\<close>

fun new_goroutines :: "(nat \<Rightarrow> kernel) \<Rightarrow> (nat \<Rightarrow> loop_answers) \<Rightarrow> nat \<Rightarrow> nat \<Rightarrow> int
    \<Rightarrow> ((eventloopGoroutine \<times> 'u world) list \<times> int) res" where
  "new_goroutines Ks as 0 r idGen = Inr ([], idGen)"
| "new_goroutines Ks as (Suc n) r idGen =
     rbind (newEventLoopGoroutine (Ks r) (as r) r idGen) (\<lambda>(g, w, i1).
     rbind (new_goroutines Ks as n (r + 1) i1) (\<lambda>(gs, i2). Inr ((g, w) # gs, i2)))"

text \<open>The new loops get the references \<open>r, r + 1, ...\<close>; the result lists them with their worlds.\<close>

definition newEventloopGoroutinePoll :: "(nat \<Rightarrow> kernel) \<Rightarrow> (nat \<Rightarrow> loop_answers) \<Rightarrow> nat \<Rightarrow> nat \<Rightarrow> int \<Rightarrow> int
    \<Rightarrow> (eventloopGoroutinePoll \<times> (nat \<times> 'u world) list \<times> int) res" where
  "newEventloopGoroutinePoll Ks as base r num idGen =
     (if num < 0 then Inl (PanicInt num)
      else rbind (new_goroutines Ks as (nat num) r idGen) (\<lambda>(gs, i).
        Inr (\<lparr>numOfGoroutine = num, p_started = 0, loopGoroutines = map fst gs,
               p_loops = map (g_loop \<circ> fst) gs, baseLoop = base\<rparr>,
             map (\<lambda>(g, w). (g_loop g, w)) gs, i)))"

fun start_all :: "eventloopGoroutine list \<Rightarrow> (eventloopGoroutine list \<times> nat list) res" where
  "start_all [] = Inr ([], [])"
| "start_all (g # gs) =
     rbind (startLoop g) (\<lambda>(g1, r). rbind (start_all gs) (\<lambda>(gs1, rs). Inr (g1 # gs1, r # rs)))"

definition poll_start :: "eventloopGoroutinePoll \<Rightarrow> (eventloopGoroutinePoll \<times> nat list) res" where
  "poll_start p =
     (if p_started p = 1 then Inl (PanicInt (p_started p))
      else rbind (start_all (loopGoroutines p)) (\<lambda>(gs, rs).
        Inr (p\<lparr>loopGoroutines := gs, p_started := 1\<rparr>, rs)))"

definition getNext :: "('s \<Rightarrow> nat list \<Rightarrow> (nat \<times> 's) res) \<Rightarrow> 's \<Rightarrow> eventloopGoroutinePoll
    \<Rightarrow> (nat \<times> 's) res" where
  "getNext strategy st p =
     (if p_started p = 0 then Inl (PanicMsg ''not started yet'')
      else if numOfGoroutine p \<noteq> 0 then strategy st (p_loops p)
      else Inr (baseLoop p, st))"

section \<open>The acceptor\<close>

definition newTCPAcceptor :: "errno + int \<Rightarrow> errno option \<Rightarrow> net_addr \<times> 16 word \<Rightarrow> int \<Rightarrow> 'u world
    \<Rightarrow> (tcpAcceptor \<times> 'u world) res" where
  "newTCPAcceptor sock setopt addr backup w =
     (case sock of
        Inl e \<Rightarrow> Inl (PanicErr e)
      | Inr socketFD \<Rightarrow>
          (case alloc_chan (SetReadCallback (HExt CAccept) (NewChannel socketFD)) w of (p, w1) \<Rightarrow>
           rbind (check_errno setopt) (\<lambda>_.
             Inr (\<lparr>listening = False, listenAddr = addr, acc_channel = p,
                    newConnectionCallback = Some AccDefault, listenBackup = backup\<rparr>,
                  log_sys (SysSetsockopt socketFD 1 15 1) w1))))"

definition As4 :: "net_addr \<Rightarrow> 32 word res" where
  "As4 a = (case a of Addr4 x \<Rightarrow> Inr x | Addr4In6 x \<Rightarrow> Inr x
     | Addr6 x \<Rightarrow> Inl (PanicMsg ''As4 called on IPv6 address''))"

text \<open>The inner result is the \<^verbatim>\<open>error\<close> that \<^verbatim>\<open>Listen\<close> returns.\<close>

definition Listen :: "kernel \<Rightarrow> tcpAcceptor \<Rightarrow> 'u world \<Rightarrow> (errno option \<times> tcpAcceptor \<times> 'u world) res" where
  "Listen K ac w =
     (if listening ac then Inl (PanicMsg ''already listening'')
      else rbind (deref_chan (acc_channel ac) w) (\<lambda>c.
        rbind (As4 (fst (listenAddr ac))) (\<lambda>a.
          let sa = (a, snd (listenAddr ac)); r1 = k_bind K (hist w) (fd c) sa;
              w1 = log_sys (SysBind (fd c) sa r1) w
          in case r1 of Some e \<Rightarrow> Inr (Some e, ac, w1)
             | None \<Rightarrow>
                 let r2 = k_listen K (hist w1) (fd c) (listenBackup ac);
                     w2 = log_sys (SysListen (fd c) (listenBackup ac) r2) w1
                 in case r2 of Some e \<Rightarrow> Inr (Some e, ac, w2)
                    | None \<Rightarrow>
                        rbind (UpdateChannel K (acc_channel ac) (upd_chan (acc_channel ac) (snd (EnableRead c)) w2))
                          (\<lambda>w3. Inr (None, ac\<lparr>listening := True\<rparr>, w3)))))"

definition SetNewConnectionCallback :: "acc_callback \<Rightarrow> tcpAcceptor \<Rightarrow> tcpAcceptor" where
  "SetNewConnectionCallback cb ac = ac\<lparr>newConnectionCallback := Some cb\<rparr>"

section \<open>The server\<close>

text \<open>\<open>g\<close> is the goroutine that runs the callback, that of the base loop.\<close>

definition onNewConnection :: "(nat \<Rightarrow> kernel) \<Rightarrow> ('u, unit) user \<Rightarrow> ('s \<Rightarrow> nat list \<Rightarrow> (nat \<times> 's) res)
    \<Rightarrow> int \<Rightarrow> int \<Rightarrow> sockaddr \<Rightarrow> ('u, 's) server \<Rightarrow> ('u, 's) server res" where
  "onNewConnection Ks U strategy g socketfd peer sv =
     rbind (getNext strategy (strat_state sv) (evloopPoll sv)) (\<lambda>(r, st).
     rbind (deref_loop r sv) (\<lambda>w.
       case newConnection socketfd peer w of (q, w1) \<Rightarrow>
       rbind (setConnectedCallback (s_connectedCallback sv) q w1) (\<lambda>w2.
       rbind (setMessageCallback (s_msgCallback sv) q w2) (\<lambda>w3.
       rbind (RunInLoop (run_conn (Ks r) U) (Ks r) g (FExt (FEstablish q)) w3) (\<lambda>w4.
         Inr (upd_loop r w4 (sv\<lparr>strat_state := st\<rparr>)))))))"

text \<open>The read handler of the listening channel. The accepted address is an IPv4 one, as the
  socket is.\<close>

definition acceptor_HandleRead :: "(nat \<Rightarrow> kernel) \<Rightarrow> ('u, unit) user \<Rightarrow> ('s \<Rightarrow> nat list \<Rightarrow> (nat \<times> 's) res)
    \<Rightarrow> int \<Rightarrow> ('u, 's) server \<Rightarrow> ('u, 's) server res" where
  "acceptor_HandleRead Ks U strategy g sv =
     (let b = s_loop sv in
      rbind (deref_loop b sv) (\<lambda>w.
      rbind (deref_chan (acc_channel (acceptor sv)) w) (\<lambda>c.
        let r = k_accept (Ks b) (hist w) (fd c); w1 = log_sys (SysAccept (fd c) r) w; sv1 = upd_loop b w1 sv
        in case r of Inl e \<Rightarrow> Inl (PanicErr e)
           | Inr (nfd, peer) \<Rightarrow>
               (case newConnectionCallback (acceptor sv) of
                  None \<Rightarrow> Inr sv1
                | Some AccDefault \<Rightarrow> Inr (upd_loop b (log_sys (SysClose nfd) w1) sv)
                | Some AccServer \<Rightarrow> onNewConnection Ks U strategy g nfd peer sv1))))"

definition Start :: "(nat \<Rightarrow> kernel) \<Rightarrow> ('u, 's) server \<Rightarrow> (errno option \<times> ('u, 's) server) res" where
  "Start Ks sv =
     (if s_started sv then Inl (PanicMsg ''already started'')
      else rbind (deref_loop (s_loop sv) sv) (\<lambda>w.
        rbind (Listen (Ks (s_loop sv)) (acceptor sv) w) (\<lambda>(err, ac, w1).
          let sv1 = upd_loop (s_loop sv) w1 (sv\<lparr>acceptor := ac\<rparr>)
          in case err of Some e \<Rightarrow> Inr (Some e, sv1)
             | None \<Rightarrow> rbind (poll_start (evloopPoll sv1)) (\<lambda>(p, rs).
                 Inr (None, sv1\<lparr>evloopPoll := p, spawned := spawned sv1 @ rs, s_started := True\<rparr>)))))"

definition GetAllLoops :: "('u, 's) server \<Rightarrow> nat \<times> nat list" where
  "GetAllLoops sv = (s_loop sv, p_loops (evloopPoll sv))"

definition SetConnectionCallback :: "'u callback option \<Rightarrow> ('u, 's) server \<Rightarrow> ('u, 's) server" where
  "SetConnectionCallback f sv = sv\<lparr>s_connectedCallback := f\<rparr>"

definition SetMessageCallback :: "'u callback option \<Rightarrow> ('u, 's) server \<Rightarrow> ('u, 's) server" where
  "SetMessageCallback f sv = sv\<lparr>s_msgCallback := f\<rparr>"

text \<open>\<open>parsed\<close> is the answer of \<^verbatim>\<open>netip.ParseAddrPort\<close>, whose error value is not inspected; \<open>base\<close> is
  the reference of the given loop, with world \<open>w\<close>, and the new loops follow it.\<close>

definition NewTCPServer :: "(nat \<Rightarrow> kernel) \<Rightarrow> (nat \<Rightarrow> loop_answers) \<Rightarrow> errno + int \<Rightarrow> errno option
    \<Rightarrow> string + (net_addr \<times> 16 word) \<Rightarrow> nat \<Rightarrow> 'u world \<Rightarrow> int \<Rightarrow> 's \<Rightarrow> int
    \<Rightarrow> (('u, 's) server \<times> int) res" where
  "NewTCPServer Ks as sock setopt parsed base w numWorkingThread strat idGen =
     (case parsed of
        Inl err \<Rightarrow> Inl (PanicMsg err)
      | Inr listenAt \<Rightarrow>
          if numWorkingThread < 0 then Inl (PanicInt numWorkingThread)
          else rbind (newTCPAcceptor sock setopt listenAt 1024 w) (\<lambda>(ac, w1).
            rbind (newEventloopGoroutinePoll Ks as base (base + 1) numWorkingThread idGen) (\<lambda>(p, ws, i).
              Inr (\<lparr>sloops = (map_of ws)(base \<mapsto> w1), s_loop = base,
                     acceptor = SetNewConnectionCallback AccServer ac, s_started = False,
                     s_connectedCallback = Some DefaultCb, s_msgCallback = Some DefaultCb,
                     evloopPoll = p, strat_state = strat, spawned = []\<rparr>, i))))"

section \<open>Lemmas\<close>

lemma extend_fields [simp]:
  "running (evloop.extend ev x) = running ev" "functors (evloop.extend ev x) = functors ev"
  "loop_id (evloop.extend ev x) = loop_id ev" "gid (evloop.extend ev x) = gid ev"
  "wakeupEventChannel (evloop.extend ev x) = wakeupEventChannel ev" "chans (evloop.extend ev x) = chans ev"
  by (simp_all add: evloop.defs)

text \<open>A loop that was just constructed.\<close>

definition idle_loop :: "int \<Rightarrow> 'u world \<Rightarrow> bool" where
  "idle_loop i w \<longleftrightarrow> running w = 0 \<and> gid w = 0 \<and> functors w = [] \<and> loop_id w = i \<and> conns w = Map.empty
     \<and> (\<exists>c. chans w (wakeupEventChannel w) = Some c)"

lemma new_world_idle: "new_world K a idGen = Inr (w, i) \<Longrightarrow> idle_loop (idGen + 1) w \<and> i = idGen + 1"
  by (auto simp: new_world_def rbind_eq_Inr idle_loop_def dest: NewEventLoop_fields)
    (simp_all add: world.defs evloop.defs)

lemma new_goroutines_spec:
  "new_goroutines Ks as n r idGen = Inr (gs, i) \<Longrightarrow>
     map (g_loop \<circ> fst) gs = [r..<r + n] \<and> (\<forall>g \<in> fst ` set gs. g_started g = 0) \<and> i = idGen + int n
     \<and> (\<forall>(g, w) \<in> set gs. idle_loop (idGen + 1 + int (g_loop g - r)) w)"
proof (induction n arbitrary: r idGen gs i)
  case (Suc n)
  obtain w i1 gs1 where g1: "new_world (Ks r) (as r) idGen = Inr (w, i1)"
      "new_goroutines Ks as n (r + 1) i1 = Inr (gs1, i)" "gs = (\<lparr>g_started = 0, g_loop = r\<rparr>, w) # gs1"
    using Suc.prems by (auto simp: newEventLoopGoroutine_def rbind_eq_Inr)
  then obtain g where g: "new_world (Ks r) (as r) idGen = Inr (w, idGen + 1)" "g = \<lparr>g_started = 0, g_loop = r\<rparr>"
      "new_goroutines Ks as n (r + 1) (idGen + 1) = Inr (gs1, i)" "gs = (g, w) # gs1"
    using new_world_idle [OF g1(1)] by simp
  note ih = Suc.IH [OF g(3)]
  have refs: "g_loop (fst x) \<ge> r + 1" if "x \<in> set gs1" for x
    using ih that by (metis (no_types, lifting) atLeastLessThan_iff comp_apply image_eqI list.set_map set_upt)
  have "idle_loop (idGen + 1 + int (g_loop h - r)) v" if "(h, v) \<in> set gs1" for h v
  proof -
    have "idGen + 1 + 1 + int (g_loop h - (r + 1)) = idGen + 1 + int (g_loop h - r)"
      using refs [OF that] by simp
    then show ?thesis using ih that by (metis (mono_tags, lifting) case_prodD)
  qed
  moreover have "[r..<r + Suc n] = r # [r + 1..<r + 1 + n]" by (simp add: upt_rec)
  ultimately show ?case using ih g new_world_idle [OF g(1)] by auto
qed simp

lemma start_all_fresh:
  "\<forall>g \<in> set gs. g_started g = 0 \<Longrightarrow> start_all gs = Inr (map (\<lambda>g. g\<lparr>g_started := 1\<rparr>) gs, map g_loop gs)"
  by (induction gs) (auto simp: startLoop_def)

lemma newConnection_inv:
  fixes w :: "('u, 'z) world_scheme"
  assumes "world_inv A w" "newConnection f peer w = (q, w')"
  shows "world_inv A w'" "q = nextConn w" "conns w q = None"
    "\<exists>tc c. conns w' = (conns w)(q \<mapsto> tc) \<and> tstate tc = Connecting \<and> remoteAddrPort tc = peer \<and>
       socketChannel tc = nextPtr w \<and> chans w' = (chans w)(nextPtr w \<mapsto> c) \<and> fd c = f \<and> events c = 5 \<and>
       readCallback c = Some (HExt (CRead q)) \<and> writeCallback c = Some (HExt (CWrite q))"
    "functors w' = functors w" "running w' = running w" "gid w' = gid w" "hist w' = hist w"
    "wakeupEventChannel w' = wakeupEventChannel w"
proof -
  let ?p = "nextPtr w"
  define c where "c = SetEvent (ReadableEvent OR WritableEvent)
      (SetWriteCallback (HExt (CWrite q)) (SetReadCallback (HExt (CRead q)) (NewChannel f)))"
  define tc :: "'u tcpConnection" where "tc = \<lparr>tstate = Connecting, socketChannel = ?p, connectedCallback = None,
      disconnectedCallback = Some DefaultCb, messageCallback = None, highWaterCallback = Some DefaultCb,
      writeCompleteCallback = Some DefaultCb, hignWaterLevel = 0, remoteAddrPort = peer, outputBuffer = NewBuffer,
      inputBuffer = NewBuffer, conn_ctx = NewContext\<rparr>"
  have q: "q = nextConn w" and w': "w' = upd_conn q tc (upd_chan ?p c (w\<lparr>nextConn := q + 1, nextPtr := ?p + 1\<rparr>))"
    using assms(2) by (auto simp: newConnection_def alloc_chan_def Let_def c_def tc_def)
  show "q = nextConn w" by (rule q)
  note inv = world_invD [OF assms(1)]
  have none: "chans w ?p = None" "conns w q = None" using inv(3) q by (auto simp: conns_ok_def)
  then show "conns w q = None" by simp
  have np: "mapped w x \<noteq> Some ?p" for x using poller_invD(5) [OF inv(1), of x ?p] none(1) by auto
  have f: "conns w' = (conns w)(q \<mapsto> tc)" "chans w' = (chans w)(?p \<mapsto> c)" "the_poller w' = the_poller w"
      "hist w' = hist w" "nextPtr w' = ?p + 1" "nextConn w' = q + 1"
    by (simp_all add: w')
  have cf: "fd c = f" "events c = 5" "index c < 0" "readCallback c = Some (HExt (CRead q))"
      "writeCallback c = Some (HExt (CWrite q))"
    by (simp_all add: c_def channel_ops ReadableEvent_def WritableEvent_def)
  have "poller_inv w'"
    using inv(1) none(1) unfolding poller_inv_def f Let_def by fastforce
  moreover have "in_sync w'" using inv(2) np unfolding in_sync_but_def f by auto
  moreover have "conns_ok A w'"
  proof -
    have ne: "socketChannel td \<noteq> ?p" if "conns w r = Some td" for r td
      by (rule conns_okD [OF inv(3) that]) (use none(1) in auto)
    have old: "\<exists>d. chans w' (socketChannel td) = Some d \<and> conn_ok (r \<notin> A) td d (mapped w' (fd d))"
      if "conns w r = Some td" for r td
      by (rule conns_okD [OF inv(3) that]) (use ne [OF that] f(2,3) in auto)
    have new: "conn_ok b tc c m" for b m using cf(3) by (simp add: conn_ok_def tc_def)
    have sp: "socketChannel tc = ?p" by (simp add: tc_def)
    have "\<exists>d. chans w' (socketChannel td) = Some d \<and> conn_ok (r \<notin> A) td d (mapped w' (fd d))"
      if "conns w' r = Some td" for r td
      using that old [of r td] new sp f(1,2) by (cases "r = q") auto
    moreover have "x = r" if "conns w' x = Some ta" "conns w' r = Some td" "socketChannel ta = socketChannel td" for x r ta td
      using that ne [of x ta] ne [of r td] conns_ok_inj [OF inv(3), of x ta r td] sp f(1) by (auto split: if_splits)
    moreover have "chans w' x = None" if "nextPtr w' \<le> x" for x
      using inv(3) that f(2,5) by (auto simp: conns_ok_def)
    moreover have "conns w' x = None" if "nextConn w' \<le> x" for x
      using inv(3) that f(1,6) q by (auto simp: conns_ok_def)
    ultimately show ?thesis unfolding conns_ok_def by blast
  qed
  ultimately show "world_inv A w'" by (simp add: world_inv_def)
  show "\<exists>tc c. conns w' = (conns w)(q \<mapsto> tc) \<and> tstate tc = Connecting \<and> remoteAddrPort tc = peer \<and>
       socketChannel tc = nextPtr w \<and> chans w' = (chans w)(nextPtr w \<mapsto> c) \<and> fd c = f \<and> events c = 5 \<and>
       readCallback c = Some (HExt (CRead q)) \<and> writeCallback c = Some (HExt (CWrite q))"
    using f(1,2) cf by (intro exI [of _ tc] exI [of _ c]) (simp add: tc_def)
  show "functors w' = functors w" "running w' = running w" "gid w' = gid w" "hist w' = hist w"
    "wakeupEventChannel w' = wakeupEventChannel w"
    by (simp_all add: w' upd_conn_def upd_chan_def)
qed

section \<open>Properties\<close>

text \<open>Constructing a server: when \<^verbatim>\<open>NewTCPServer\<close> returns, the pool has as many loops as asked for,
  pairwise distinct and different from the base loop, each idle, with consecutive process-wide
  identifiers; nothing runs or listens yet; and a connection handed over before \<^verbatim>\<open>Start\<close> panics.
  A negative count panics.\<close>

theorem NewTCPServer_ready:
  fixes w :: "'u world"
  assumes "NewTCPServer Ks as sock setopt parsed base w num strat idGen = Inr (sv, i)"
  shows "0 \<le> num \<and> i = idGen + num
    \<and> GetAllLoops sv = (base, [base + 1..<base + 1 + nat num])
    \<and> (\<forall>r. base < r \<and> r \<le> base + nat num \<longrightarrow> (\<exists>v. sloops sv r = Some v \<and> idle_loop (idGen + int (r - base)) v))
    \<and> sloops sv base \<noteq> None \<and> \<not> s_started sv \<and> \<not> listening (acceptor sv) \<and> spawned sv = []
    \<and> (\<forall>g \<in> set (loopGoroutines (evloopPoll sv)). g_started g = 0)
    \<and> onNewConnection Ks U strategy g sock_fd peer sv = Inl (PanicMsg ''not started yet'')"
proof -
  obtain addr ac w1 p ws where a: "parsed = Inr addr" "newTCPAcceptor sock setopt addr 1024 w = Inr (ac, w1)"
      "0 \<le> num" "newEventloopGoroutinePoll Ks as base (base + 1) num idGen = Inr (p, ws, i)"
      "sv = \<lparr>sloops = (map_of ws)(base \<mapsto> w1), s_loop = base,
         acceptor = SetNewConnectionCallback AccServer ac, s_started = False,
         s_connectedCallback = Some DefaultCb, s_msgCallback = Some DefaultCb,
         evloopPoll = p, strat_state = strat, spawned = []\<rparr>"
    using assms by (auto simp: NewTCPServer_def rbind_eq_Inr split: sum.splits if_splits)
  obtain gs where gs: "new_goroutines Ks as (nat num) (base + 1) idGen = Inr (gs, i)"
      "p = \<lparr>numOfGoroutine = num, p_started = 0, loopGoroutines = map fst gs,
             p_loops = map (g_loop \<circ> fst) gs, baseLoop = base\<rparr>"
      "ws = map (\<lambda>(g, w). (g_loop g, w)) gs"
    using a(3,4) by (auto simp: newEventloopGoroutinePoll_def rbind_eq_Inr split: if_splits)
  note sp = new_goroutines_spec [OF gs(1)]
  have keys: "map fst ws = [base + 1..<base + 1 + nat num]"
    using sp gs(3) by (simp add: comp_def split_def)
  have "\<exists>v. sloops sv r = Some v \<and> idle_loop (idGen + int (r - base)) v" if r: "base < r" "r \<le> base + nat num" for r
  proof -
    have "r \<in> set (map fst ws)" unfolding keys using r by auto
    then obtain v where v: "(r, v) \<in> set ws" by auto
    then have m: "map_of ws r = Some v" using keys by (simp add: distinct_map map_of_is_SomeI)
    obtain g where "(g, v) \<in> set gs" "g_loop g = r" using v gs(3) by auto
    then have "idle_loop (idGen + 1 + int (r - (base + 1))) v" using sp by auto
    moreover have "idGen + 1 + int (r - (base + 1)) = idGen + int (r - base)" using r by simp
    ultimately show ?thesis using m r a(5) by auto
  qed
  moreover have "\<not> listening ac" using a(2) by (auto simp: newTCPAcceptor_def rbind_eq_Inr split: sum.splits prod.splits)
  ultimately show ?thesis
    using a(3,5) gs(2) sp by (auto simp: GetAllLoops_def SetNewConnectionCallback_def onNewConnection_def getNext_def)
qed

text \<open>A server on which \<^verbatim>\<open>Start\<close> failed.\<close>

definition idle_server :: "('u, 's) server \<Rightarrow> ('u, 's) server \<Rightarrow> bool" where
  "idle_server sv sv' \<longleftrightarrow> \<not> s_started sv' \<and> \<not> listening (acceptor sv') \<and> evloopPoll sv' = evloopPoll sv \<and> spawned sv' = spawned sv"

text \<open>C31. Starting: on a server that was not started, with an unregistered listening channel and an IPv4
  address, the result of \<^verbatim>\<open>Start\<close> is decided by three answers of the kernel. If \<^verbatim>\<open>bind\<close> fails, or \<^verbatim>\<open>bind\<close> succeeds and \<^verbatim>\<open>listen\<close> fails,
  \<^verbatim>\<open>Start\<close> returns that very error and starts nothing, so it can be called again; if both succeed and the registration of the
  channel fails, it panics with that error; otherwise it launches every loop goroutine of the
  pool exactly once, in order, the base loop watches the listening socket for reading, the acceptor is listening, and a second
  \<^verbatim>\<open>Start\<close> panics.\<close>

theorem Start_every_branch:
  fixes sv :: "('u, 's) server"
  assumes "\<not> s_started sv" "p_started (evloopPoll sv) = 0" "\<forall>g \<in> set (loopGoroutines (evloopPoll sv)). g_started g = 0"
    "\<not> listening (acceptor sv)" "As4 (fst (listenAddr (acceptor sv))) = Inr a" "b = s_loop sv" "sloops sv b = Some w"
    "chans w (acc_channel (acceptor sv)) = Some c" "index c < 0" "events c = 0"
    "poller_inv w" "in_sync w" "ctl_documented (Ks b)"
  defines "bind \<equiv> SysBind (fd c) (a, snd (listenAddr (acceptor sv)))
      (k_bind (Ks b) (hist w) (fd c) (a, snd (listenAddr (acceptor sv))))"
  defines "listen_err \<equiv> k_listen (Ks b) (hist w @ [bind]) (fd c) (listenBackup (acceptor sv))"
  shows "case k_bind (Ks b) (hist w) (fd c) (a, snd (listenAddr (acceptor sv))) of
      Some e \<Rightarrow> \<exists>sv'. Start Ks sv = Inr (Some e, sv') \<and> idle_server sv sv'
    | None \<Rightarrow> (case listen_err of
        Some e \<Rightarrow> \<exists>sv'. Start Ks sv = Inr (Some e, sv') \<and> idle_server sv sv'
      | None \<Rightarrow>
          (case k_ctl (Ks b) (hist w @ [bind, SysListen (fd c) (listenBackup (acceptor sv)) None]) EPOLL_CTL_ADD (fd c) 1 of
             Some e \<Rightarrow> Start Ks sv = Inl (PanicErr e)
           | None \<Rightarrow> \<exists>sv'. Start Ks sv = Inr (None, sv') \<and> s_started sv' \<and> listening (acceptor sv') \<and> p_started (evloopPoll sv') = 1
              \<and> spawned sv' = spawned sv @ map g_loop (loopGoroutines (evloopPoll sv))
              \<and> (\<exists>w'. sloops sv' b = Some w' \<and> poller_inv w' \<and> in_sync w'
                    \<and> registered (hist w') = (registered (hist w))(fd c \<mapsto> 1))
              \<and> Start Ks sv' = Inl (PanicMsg ''already started'')))"
proof -
  let ?ac = "acceptor sv"
  let ?p = "acc_channel ?ac"
  let ?sa = "(a, snd (listenAddr ?ac))"
  let ?r1 = "k_bind (Ks b) (hist w) (fd c) ?sa"
  let ?w1 = "log_sys bind w"
  let ?w2 = "log_sys (SysListen (fd c) (listenBackup ?ac) listen_err) ?w1"
  let ?c = "snd (EnableRead c)"
  let ?w3 = "upd_chan ?p ?c ?w2"
  have ps: "poll_start (evloopPoll sv) = Inr ((evloopPoll sv)\<lparr>loopGoroutines := map (\<lambda>g. g\<lparr>g_started := 1\<rparr>)
      (loopGoroutines (evloopPoll sv)), p_started := 1\<rparr>, map g_loop (loopGoroutines (evloopPoll sv)))"
    using assms(2) start_all_fresh [OF assms(3)] by (simp add: poll_start_def)
  have cf: "fd ?c = fd c" "index ?c = index c" "events ?c = 1"
    using assms(10) by (simp_all add: EnableRead_def ReadableEvent_def)
  have L: "Listen (Ks b) ?ac w = (case ?r1 of Some e \<Rightarrow> Inr (Some e, ?ac, ?w1) | None \<Rightarrow>
      (case listen_err of Some e \<Rightarrow> Inr (Some e, ?ac, ?w2) | None \<Rightarrow>
        rbind (UpdateChannel (Ks b) ?p ?w3) (\<lambda>w3. Inr (None, ?ac\<lparr>listening := True\<rparr>, w3))))"
    using assms(4,5,8) unfolding Listen_def Let_def bind_def listen_err_def by (simp split: option.split)
  have i: "poller_inv ?w3" "in_sync_but {?p} ?w3" "chans ?w3 ?p = Some ?c" "index ?c < 0"
  proof -
    have w: "poller_inv ?w2" "in_sync ?w2" using assms(11,12) by (simp_all add: log_neutral bind_def)
    show "poller_inv ?w3" using assms(8) cf by (intro poller_inv_chan [OF w(1)]) simp_all
    show "in_sync_but {?p} ?w3" using w(2) by (auto simp: in_sync_but_def)
    show "chans ?w3 ?p = Some ?c" "index ?c < 0" using assms(9) cf by simp_all
  qed
  have fail: "\<exists>sv'. Start Ks sv = Inr (Some e, sv') \<and> idle_server sv sv'" if "Listen (Ks b) ?ac w = Inr (Some e, ?ac, w')" for e w'
    using that assms(1,4,6,7) by (simp add: Start_def deref_loop_def upd_loop_def idle_server_def)
  show ?thesis
  proof (cases ?r1)
    case (Some e)
    with fail L show ?thesis by simp
  next
    case r1: None
    show ?thesis
    proof (cases listen_err)
      case (Some e)
      with fail L r1 show ?thesis by simp
    next
      case r2: None
      have h: "hist ?w3 = hist w @ [bind, SysListen (fd c) (listenBackup ?ac) None]" using r2 by simp
      show ?thesis
      proof (cases "k_ctl (Ks b) (hist w @ [bind, SysListen (fd c) (listenBackup ?ac) None]) EPOLL_CTL_ADD (fd c) 1")
        case (Some e)
        then have "UpdateChannel (Ks b) ?p ?w3 = Inl (PanicErr e)"
          using i(3,4) cf h by (simp add: UpdateChannel_def EpollCtl_def Let_def)
        with L r1 r2 Some show ?thesis using assms(1,6,7) by (simp add: Start_def deref_loop_def)
      next
        case None
        then obtain w' where u: "UpdateChannel (Ks b) ?p ?w3 = Inr w'"
          using i(3,4) cf h by (simp add: UpdateChannel_def EpollCtl_def Let_def)
        note n = UpdateChannel_new [OF i(1) assms(13) i(3,4) u]
        have "registered (hist w') = (registered (hist w))(fd c \<mapsto> 1)"
          using n(3) cf by (simp add: registered_neutrals bind_def)
        with L r1 r2 None u n(1) n(6) [OF i(2)] show ?thesis
          using assms(1,6,7) ps by (simp add: Start_def deref_loop_def upd_loop_def Let_def)
      qed
    qed
  qed
qed

text \<open>C27. Dispatch of an accepted connection: on a started server whose strategy picks a worker
  loop that is not run by the accepting goroutine, \<^verbatim>\<open>accept\<close> ends with a new \<^verbatim>\<open>Connecting\<close> connection on
  that loop, with the server's callbacks, the peer's address, and a fresh, not yet registered
  channel for the accepted socket that asks for both events; its establishment is queued
  last on that loop, exactly once, the worker is woken up, its invariant is kept, and no loop but the base and
  the chosen one is touched.\<close>

theorem accept_dispatch:
  fixes sv :: "('u, 's) server"
  assumes "sloops sv (s_loop sv) = Some w" "chans w (acc_channel (acceptor sv)) = Some c"
    "k_accept (Ks (s_loop sv)) (hist w) (fd c) = Inr (nfd, peer)"
    "newConnectionCallback (acceptor sv) = Some AccServer"
    "p_started (evloopPoll sv) = 1" "numOfGoroutine (evloopPoll sv) \<noteq> 0"
    "strategy (strat_state sv) (p_loops (evloopPoll sv)) = Inr (r, st)" "r \<noteq> s_loop sv"
    "sloops sv r = Some v" "gid v \<noteq> g" "world_inv A v" "chans v (wakeupEventChannel v) = Some d"
    "k_write (Ks r) (hist v) (fd d) [0, 0, 0, 0, 0, 0, 0, 1] \<in> insert (Inl EAGAIN) (range Inr)"
  shows "\<exists>sv' v' tc e. acceptor_HandleRead Ks U strategy g sv = Inr sv' \<and> strat_state sv' = st
    \<and> sloops sv' r = Some v' \<and> world_inv A v'
    \<and> functors v' = functors v @ [FExt (FEstablish (nextConn v))]
    \<and> conns v (nextConn v) = None \<and> conns v' = (conns v)(nextConn v \<mapsto> tc)
    \<and> tstate tc = Connecting \<and> remoteAddrPort tc = peer
    \<and> connectedCallback tc = s_connectedCallback sv \<and> messageCallback tc = s_msgCallback sv
    \<and> chans v' (socketChannel tc) = Some e \<and> fd e = nfd \<and> events e = 5
    \<and> (\<forall>x. x \<noteq> r \<and> x \<noteq> s_loop sv \<longrightarrow> sloops sv' x = sloops sv x)"
proof -
  obtain q v1 where nc: "newConnection nfd peer v = (q, v1)" by (cases "newConnection nfd peer v") auto
  note n = newConnection_inv [OF assms(11) nc]
  obtain tc e where tc: "conns v1 = (conns v)(q \<mapsto> tc)" "tstate tc = Connecting" "remoteAddrPort tc = peer"
      "socketChannel tc = nextPtr v" "chans v1 = (chans v)(nextPtr v \<mapsto> e)" "fd e = nfd" "events e = 5"
    using n(4) by blast
  let ?tc = "tc\<lparr>connectedCallback := s_connectedCallback sv, messageCallback := s_msgCallback sv\<rparr>"
  let ?v3 = "upd_conn q ?tc v1"
  let ?v2 = "upd_conn q (tc\<lparr>connectedCallback := s_connectedCallback sv\<rparr>) v1"
  have set: "setConnectedCallback (s_connectedCallback sv) q v1 = Inr ?v2"
      "setMessageCallback (s_msgCallback sv) q ?v2 = Inr ?v3"
    using tc(1) by (simp_all add: setConnectedCallback_def setMessageCallback_def set_conn_def upd_conn_def)
  have "world_inv A ?v3"
  proof -
    obtain e' where e': "chans v1 (socketChannel tc) = Some e'" "conn_ok (q \<notin> A) tc e' (mapped v1 (fd e'))"
      using conns_okD [OF world_invD(3) [OF n(1)], of q tc] tc(1) by auto
    then show ?thesis using tc(1,2) by (intro world_inv_conn [OF n(1)]) (auto simp: conn_ok_def)
  qed
  let ?v4 = "?v3\<lparr>functors := functors v @ [FExt (FEstablish q)]\<rparr>"
  have ne: "wakeupEventChannel v \<noteq> nextPtr v"
    using world_invD(3) [OF assms(11)] assms(12) by (auto simp: conns_ok_def)
  have k: "chans ?v4 (wakeupEventChannel ?v4) = Some d" "hist ?v4 = hist v"
    using n(8,9) tc(5) assms(12) ne by (simp_all add: upd_conn_def)
  obtain h where h: "wakeup (Ks r) ?v4 = Inr (?v4\<lparr>hist := h\<rparr>)" "registered h = registered (hist v)"
    using wakeup_spec [OF k(1), of "Ks r"] k(2) assms(13) by auto
  let ?v5 = "?v4\<lparr>hist := h\<rparr>"
  have run: "RunInLoop (run_conn (Ks r) U) (Ks r) g (FExt (FEstablish q)) ?v3 = Inr ?v5"
    using h(1) n(5,7) assms(10) by (simp add: RunInLoop_def upd_conn_def)
  have inv: "world_inv A ?v5"
    using \<open>world_inv A ?v3\<close> h(2) k(2) by (subst world_inv_hist) (simp_all add: world_inv_functors)
  let ?sv1 = "upd_loop (s_loop sv) (log_sys (SysAccept (fd c) (Inr (nfd, peer))) w) sv"
  have on: "onNewConnection Ks U strategy g nfd peer ?sv1 = Inr (upd_loop r ?v5 (?sv1\<lparr>strat_state := st\<rparr>))"
    unfolding onNewConnection_def
    using assms(5-9) nc set run by (simp add: getNext_def upd_loop_def deref_loop_def)
  have "acceptor_HandleRead Ks U strategy g sv = Inr (upd_loop r ?v5 (?sv1\<lparr>strat_state := st\<rparr>))"
    using assms(1-4) on by (simp add: acceptor_HandleRead_def deref_loop_def Let_def)
  then show ?thesis
    using inv n(2,3) tc assms(8)
    by (intro exI [of _ "upd_loop r ?v5 (?sv1\<lparr>strat_state := st\<rparr>)"] exI [of _ ?v5] exI [of _ ?tc] exI [of _ e])
      (auto simp: upd_loop_def upd_conn_def)
qed

section \<open>Concrete runs\<close>

definition sample_answers :: "nat \<Rightarrow> loop_answers" where
  "sample_answers r = \<lparr>la_eventfd = Inr 4, la_nb1 = None, la_epoll = Inr 3, la_timerfd = Inr 5, la_nb2 = None\<rparr>"

text \<open>A base loop (reference 0) with an unregistered listening channel, one worker (reference 1) that
  another goroutine runs.\<close>

definition sample_base_world :: "unit world" where
  "sample_base_world = (sample_world sample_tc sample_chan)\<lparr>
     chans := (chans (sample_world sample_tc sample_chan))
       (2 \<mapsto> SetReadCallback (HExt CAccept) (NewChannel 9)), nextPtr := 3\<rparr>"

definition sample_server :: "bool \<Rightarrow> (unit, int) server" where
  "sample_server started = \<lparr>sloops = [0 \<mapsto> sample_base_world, 1 \<mapsto> sample_world sample_tc sample_chan], s_loop = 0,
     acceptor = \<lparr>listening = started, listenAddr = (Addr4 0, 8000), acc_channel = 2,
        newConnectionCallback = Some AccServer, listenBackup = 1024\<rparr>,
     s_started = started, s_connectedCallback = Some DefaultCb, s_msgCallback = Some DefaultCb,
     evloopPoll = \<lparr>numOfGoroutine = 1, p_started = (if started then 1 else 0),
        loopGoroutines = [\<lparr>g_started = (if started then 1 else 0), g_loop = 1\<rparr>], p_loops = [1], baseLoop = 0\<rparr>,
     strat_state = 0, spawned = []\<rparr>"

lemma sample_base_world_inv: "poller_inv sample_base_world" "in_sync sample_base_world"
  using sample_world_inv [of sample_chan sample_tc "{}"]
  by (auto simp: sample_base_world_def world_inv_def poller_inv_def in_sync_but_def sample_world_def)

theorem Start_every_branch_witness:
  "(\<exists>sv'. Start (\<lambda>_. sample_kernel []) (sample_server False) = Inr (None, sv') \<and> spawned sv' = [1])
   \<and> (\<exists>sv'. Start (\<lambda>_. sample_kernel []\<lparr>k_bind := \<lambda>h f a. Some 98\<rparr>) (sample_server False) = Inr (Some 98, sv') \<and> spawned sv' = [])"
proof -
  have c: "chans sample_base_world 2 = Some (SetReadCallback (HExt CAccept) (NewChannel 9))"
    by (simp add: sample_base_world_def)
  have d: "ctl_documented (sample_kernel []\<lparr>k_bind := \<lambda>h f a. Some 98\<rparr>)"
    using sample_ctl [of "[]"] by (simp add: ctl_documented_def)
  have r: "registered (hist sample_base_world) 9 = None" by (simp add: sample_base_world_def sample_world_def registered_def)
  show ?thesis
    using Start_every_branch [of "sample_server False" 0 0 sample_base_world "SetReadCallback (HExt CAccept) (NewChannel 9)"
        "\<lambda>_. sample_kernel []"]
      Start_every_branch [of "sample_server False" 0 0 sample_base_world "SetReadCallback (HExt CAccept) (NewChannel 9)"
        "\<lambda>_. sample_kernel []\<lparr>k_bind := \<lambda>h f a. Some 98\<rparr>"] sample_base_world_inv sample_ctl [of "[]"] c d r
    by (auto simp: sample_server_def As4_def channel_ops idle_server_def sample_kernel_def registered_def)
qed

theorem accept_dispatch_witness:
  "\<exists>sv' v'. acceptor_HandleRead (\<lambda>_. sample_kernel []\<lparr>k_accept := \<lambda>h f. Inr (11, (1, 2))\<rparr>) (\<lambda>u a. Inr) RoundRobin 8
       (sample_server True) = Inr sv' \<and> sloops sv' 1 = Some v' \<and> functors v' = [FExt (FEstablish 1)]"
proof -
  let ?K = "\<lambda>_ :: nat. sample_kernel []\<lparr>k_accept := \<lambda>h f. Inr (11, (1 :: 32 word, 2 :: 16 word))\<rparr>"
  let ?v = "sample_world sample_tc sample_chan"
  have w: "world_inv {} ?v" by (rule sample_world_inv) simp_all
  have r: "RoundRobin (strat_state (sample_server True)) (p_loops (evloopPoll (sample_server True))) = Inr (1, 0)"
    by (simp add: sample_server_def RoundRobin_def)
  show ?thesis
    using accept_dispatch [of "sample_server True" sample_base_world "SetReadCallback (HExt CAccept) (NewChannel 9)"
        ?K 11 "(1, 2)" RoundRobin 1 0 ?v 8 "{}"
        "\<lparr>fd = 5, events = 1, revents = 0, index = 1, readCallback = Some HWakeup, writeCallback = None\<rparr>" "\<lambda>u a. Inr"]
      w r
    by (fastforce simp: sample_server_def sample_base_world_def sample_kernel_def sample_world_def)
qed

theorem NewTCPServer_ready_witness:
  "\<exists>sv i. NewTCPServer (\<lambda>_. sample_kernel []) sample_answers (Inr 9) None (Inr (Addr4 0, 8000)) 0
       (sample_world sample_tc sample_chan) 2 (0 :: int) 1 = Inr (sv, i)
     \<and> GetAllLoops sv = (0, [1, 2])"
proof -
  have new: "\<exists>w :: unit world. new_world (sample_kernel []) (sample_answers r) i = Inr (w, i + 1)" for r i
    by (simp add: new_world_def sample_answers_def NewEventLoop_def newTimerQueue_def UpdateChannel_def base_frame
        alloc_chan_def sample_kernel_def channel_ops check_errno_def registered_def NewPoller_def)
  obtain w1 w2 :: "unit world" where n: "new_world (sample_kernel []) (sample_answers 1) 1 = Inr (w1, 2)"
      "new_world (sample_kernel []) (sample_answers 2) 2 = Inr (w2, 3)"
    using new [of 1 1] new [of 2 2] by auto
  have "\<exists>sv i. NewTCPServer (\<lambda>_. sample_kernel []) sample_answers (Inr 9) None (Inr (Addr4 0, 8000)) 0
       (sample_world sample_tc sample_chan) 2 (0 :: int) 1 = Inr (sv, i)"
    using n by (simp add: NewTCPServer_def newTCPAcceptor_def alloc_chan_def newEventloopGoroutinePoll_def
        numeral_2_eq_2 newEventLoopGoroutine_def check_errno_def)
  then obtain sv i where "NewTCPServer (\<lambda>_. sample_kernel []) sample_answers (Inr 9) None (Inr (Addr4 0, 8000)) 0
       (sample_world sample_tc sample_chan) 2 (0 :: int) 1 = Inr (sv, i)" by blast
  with NewTCPServer_ready [OF this] show ?thesis by (auto simp: numeral_2_eq_2 upt_rec)
qed

end
