(* ===== verification/Echo.thy ===== *)
theory Echo
  imports Tcp_Conn
begin

text \<open>
  Two servers over the connection layer: the echo example (\<^verbatim>\<open>examples/echo/main.go\<close>) and the
  server of the benchmarks (\<^verbatim>\<open>benchmarks/goreactor-server/main.go\<close>). The locale \<open>echo_server\<close> is what makes a
  message callback an echo; the stream theorem is proved from it once.
\<close>

section \<open>The callbacks\<close>

datatype echo_val = EchoConnected | EchoMessage | EchoDisConnected | BenchMessage

definition echo_connected :: "nat \<Rightarrow> (echo_val, 'z) world_scheme \<Rightarrow> (echo_val, 'z) world_scheme res" where
  "echo_connected q s = SetDisConnectedCallback (Some (UserCb EchoDisConnected)) q s"

definition echo_message :: "kernel \<Rightarrow> ('u, 'z) user \<Rightarrow> nat \<Rightarrow> ('u, 'z) world_scheme \<Rightarrow> ('u, 'z) world_scheme res" where
  "echo_message K U q s =
     rbind (deref_conn q s) (\<lambda>tc.
     rbind (RetrieveAsString (inputBuffer tc)) (\<lambda>(str, buf).
       Send K U (gid s) q str (upd_conn q (tc\<lparr>inputBuffer := buf\<rparr>) s)))"

definition bench_message :: "kernel \<Rightarrow> ('u, 'z) user \<Rightarrow> nat \<Rightarrow> ('u, 'z) world_scheme \<Rightarrow> ('u, 'z) world_scheme res" where
  "bench_message K U q s =
     rbind (deref_conn q s) (\<lambda>tc.
     rbind (Peek (inputBuffer tc)) (\<lambda>bs.
     rbind (Send K U (gid s) q bs s) (\<lambda>s1.
     rbind (deref_conn q s1) (\<lambda>tc1. Inr (upd_conn q (tc1\<lparr>inputBuffer := RetrieveAll (inputBuffer tc1)\<rparr>) s1)))))"

text \<open>A callback value at work; calls nest at most \<open>n\<close> deep.\<close>

primrec echo_user :: "kernel \<Rightarrow> nat \<Rightarrow> (echo_val, 'z) user" where
  "echo_user K 0 u a = (\<lambda>s. Inl Hang)"
| "echo_user K (Suc n) u a =
     (case (u, a) of
        (EchoConnected, ArgConnected q) \<Rightarrow> echo_connected q
      | (EchoMessage, ArgMessage q) \<Rightarrow> echo_message K (echo_user K n) q
      | (EchoDisConnected, ArgDisConnected q) \<Rightarrow> Inr
      | (BenchMessage, ArgMessage q) \<Rightarrow> bench_message K (echo_user K n) q
      | _ \<Rightarrow> (\<lambda>s. Inl (PanicMsg ''not a callback of this type'')))"

section \<open>What \<^verbatim>\<open>Send\<close> and the write handler leave alone\<close>

text \<open>The bytes the kernel delivered on descriptor \<open>f\<close>, read off a history.\<close>

definition received :: "int \<Rightarrow> history \<Rightarrow> byte list" where
  "received f h = concat (map (\<lambda>e. case e of
     SysReadv g n (Some bs) \<Rightarrow> if g = f then bs else [] | _ \<Rightarrow> []) h)"

lemma received_simps [simp]:
  "received f [] = []" "received f (h @ h') = received f h @ received f h'" "received f [SysEpollCtl a b c d] = []"
  "received f [SysWrite g bs r] = []" "received f [SysShutdown g] = []" "received f [SysReadv f n (Some bs)] = bs"
  by (simp_all add: received_def)

lemma written_readv [simp]: "written f [SysReadv g n r] = []"
  by (simp add: written_def)

text \<open>\<open>t\<close> differs from \<open>s\<close> in one output buffer, channels and history, in which nothing was read.\<close>

definition out_frame :: "nat \<Rightarrow> int \<Rightarrow> ('u, 'z) world_scheme \<Rightarrow> ('u, 'z) world_scheme \<Rightarrow> bool" where
  "out_frame q f s t \<longleftrightarrow> running t = running s \<and> extraForReadFD t = extraForReadFD s
     \<and> (\<exists>h. hist t = hist s @ h \<and> received f h = [])
     \<and> (\<forall>tc. conns s q = Some tc \<longrightarrow> (\<exists>buf. conns t q = Some (tc\<lparr>outputBuffer := buf\<rparr>)))"

lemma same_output [simp]: "\<exists>buf. tc = tc\<lparr>outputBuffer := buf\<rparr>"
  by (rule exI [of _ "outputBuffer tc"]) simp

lemma out_frame_refl [simp]: "out_frame q f s s"
  by (simp add: out_frame_def)

lemma out_frame_trans:
  assumes "out_frame q f s t" "out_frame q f t u"
  shows "out_frame q f s u"
proof -
  obtain h h' where "hist t = hist s @ h" "received f h = []" "hist u = hist t @ h'" "received f h' = []"
    using assms by (auto simp: out_frame_def)
  then have "\<exists>h. hist u = hist s @ h \<and> received f h = []" by (intro exI [of _ "h @ h'"]) simp
  then show ?thesis using assms by (fastforce simp: out_frame_def)
qed

lemma out_frame_upd:
  "conns s q = Some tc \<Longrightarrow> out_frame q f s (upd_conn q (tc\<lparr>outputBuffer := buf\<rparr>) s)"
  by (auto simp: out_frame_def upd_conn_def)

lemma out_frame_chan: "out_frame q f s (upd_chan p c s)"
  using out_frame_refl [of q f s] by (simp add: out_frame_def upd_chan_def)

lemma out_frame_log: "received f [e] = [] \<Longrightarrow> out_frame q f s (log_sys e s)"
  using out_frame_refl [of q f s] by (simp add: out_frame_def log_sys_def)

lemma UpdateChannel_world:
  fixes s s' :: "('u, 'z) world_scheme"
  assumes "UpdateChannel K p s = Inr s'"
  shows "out_frame q f s s'"
proof -
  have e: "conns s' = conns s" "running s' = running s" "extraForReadFD s' = extraForReadFD s"
    by (subst UpdateChannel_frame [OF assms], simp)+
  obtain a b c where "hist s' = hist s @ [SysEpollCtl a b c None]" using UpdateChannel_hist [OF assms] by blast
  with e out_frame_refl [of q f s] show ?thesis by (simp add: out_frame_def)
qed

lemma send_frame:
  fixes s s' :: "('u, 'z) world_scheme"
  assumes "send_in_loop K U q bs s = Inr s'" "conns s q = Some tc" "highWaterCallback tc = Some DefaultCb"
  shows "out_frame q f s s'"
proof (cases "tstate tc = Connected")
  case False
  then have "s' = s" using assms by (simp add: send_in_loop_def)
  then show ?thesis by simp
next
  case True
  have "(if P then call_back U (highWaterCallback tc) (ArgHighWater q n) t else Inr t) = Inr t" for P n and t :: "('u, 'z) world_scheme"
    using assms(3) by simp
  then obtain buf c where k: "(if \<not> IsWriting c
        then UpdateChannel K (socketChannel tc) (upd_chan (socketChannel tc) (snd (EnableWrite c))
           (upd_conn q (tc\<lparr>outputBuffer := buf\<rparr>) s))
        else Inr (upd_conn q (tc\<lparr>outputBuffer := buf\<rparr>) s)) = Inr s'"
    using assms(1,2) True by (auto simp: send_in_loop_def rbind_eq_Inr Let_def)
  note u = out_frame_upd [OF assms(2)]
  show ?thesis
  proof (cases "IsWriting c")
    case False
    with k have "UpdateChannel K (socketChannel tc) (upd_chan (socketChannel tc) (snd (EnableWrite c))
        (upd_conn q (tc\<lparr>outputBuffer := buf\<rparr>) s)) = Inr s'" by simp
    from UpdateChannel_world [OF this] show ?thesis by (metis out_frame_trans out_frame_chan u)
  qed (use k u in auto)
qed

lemma handleWrite_out_frame:
  fixes s s' :: "('u, 'z) world_scheme"
  assumes "handleWrite K U q s = Inr s'" "conns s q = Some tc" "writeCompleteCallback tc = Some DefaultCb"
  shows "out_frame q f s s'"
proof -
  obtain c bs buf where b: "chans s (socketChannel tc) = Some c" "Peek (outputBuffer tc) = Inr bs"
      "Retrieve (case k_write K (hist s) (fd c) bs of Inl e \<Rightarrow> - 1 | Inr m \<Rightarrow> int m) (outputBuffer tc) = Inr buf"
    using assms(1,2) by (auto simp: handleWrite_def rbind_eq_Inr Let_def)
  let ?l = "log_sys (SysWrite (fd c) bs (k_write K (hist s) (fd c) bs)) s"
  let ?s2 = "upd_conn q (tc\<lparr>outputBuffer := buf\<rparr>) ?l"
  have s2: "out_frame q f s ?s2"
    by (rule out_frame_trans [OF out_frame_log out_frame_upd]) (use assms(2) in simp_all)
  show ?thesis
  proof (cases "ReadableBytes buf = 0")
    case False
    then have "s' = ?s2" using assms b by (simp add: handleWrite_def Let_def)
    with s2 show ?thesis by simp
  next
    case True
    obtain s4 where s4: "UpdateChannel K (socketChannel tc) (upd_chan (socketChannel tc) (snd (DisableWrite c)) ?s2) = Inr s4"
        "s' = s4 \<or> s' = log_sys (SysShutdown (fd c)) s4"
      using assms b True by (auto simp: handleWrite_def Let_def rbind_eq_Inr split: if_splits)
    have "out_frame q f s s4"
      by (rule out_frame_trans [OF out_frame_trans [OF s2 out_frame_chan] UpdateChannel_world [OF s4(1)]])
    moreover have "out_frame q f s4 (log_sys (SysShutdown (fd c)) s4)" by (rule out_frame_log) simp
    ultimately show ?thesis using s4(2) out_frame_trans by blast
  qed
qed

section \<open>An echo\<close>

text \<open>On an established connection of a running loop, the callback queues the whole input for output, empties the input
  buffer and touches nothing else of the connection.\<close>

locale echo_server =
  fixes K :: kernel and msg :: "nat \<Rightarrow> ('u, 'z) world_scheme \<Rightarrow> ('u, 'z) world_scheme res"
  assumes msg_echoes: "ctl_documented K \<Longrightarrow> out_ok q f w s \<Longrightarrow> running s = 1 \<Longrightarrow> conns s q = Some tc \<Longrightarrow>
    buf_inv (inputBuffer tc) \<Longrightarrow> fits (content (inputBuffer tc)) (outputBuffer tc) \<Longrightarrow>
    \<exists>s' h buf. msg q s = Inr s' \<and> out_ok q f w s' \<and> hist s' = hist s @ h \<and> written f h = [] \<and> received f h = []
      \<and> pending_out q s' = pending_out q s @ content (inputBuffer tc) \<and> running s' = 1
      \<and> extraForReadFD s' = extraForReadFD s
      \<and> conns s' q = Some (tc\<lparr>outputBuffer := buf, inputBuffer := RetrieveAll (inputBuffer tc)\<rparr>)"

lemma RetrieveAsString_all:
  "buf_inv buf \<Longrightarrow> RetrieveAsString buf = Inr (content buf, RetrieveAll buf)"
  using Peek_content [of buf] by (simp add: RetrieveAsString_def RetrieveAll_def Peek_def)

lemma out_ok_input:
  assumes "out_ok q f w s" "conns s q = Some tc"
  shows "out_ok q f w (upd_conn q (tc\<lparr>inputBuffer := b\<rparr>) s)"
  using assms world_inv_input [of "{}" s q tc b] by (auto simp: out_ok_def)

lemma Send_echo:
  fixes s :: "('u, 'z) world_scheme"
  assumes "out_ok q f w s" "ctl_documented K" "conns s q = Some tc" "fits bs (outputBuffer tc)" "running s = 1"
  obtains s' h buf where "Send K U (gid s) q bs s = Inr s'" "out_ok q f w s'" "hist s' = hist s @ h"
    "written f h = []" "received f h = []" "pending_out q s' = pending_out q s @ bs"
    "conns s' q = Some (tc\<lparr>outputBuffer := buf\<rparr>)" "running s' = 1" "extraForReadFD s' = extraForReadFD s"
proof -
  obtain s' h where s': "send_in_loop K U q bs s = Inr s'" "out_ok q f w s'" "hist s' = hist s @ h"
      "written f h = []" "pending_out q s' = pending_out q s @ bs"
    by (rule out_step_send [OF assms(1-4)])
  have "highWaterCallback tc = Some DefaultCb" using assms(1,3) by (auto simp: out_ok_def)
  from send_frame [OF s'(1) assms(3) this, of f] s'(3) assms(3,5) that [OF _ s'(2-4) _ s'(5)] s'(1) show thesis
    by (auto simp: out_frame_def Send_def RunInLoop_def run_functor_def run_conn_def)
qed

interpretation echo: echo_server K "echo_message K U" for K and U :: "('u, 'z) user"
proof unfold_locales
  fix q f w and s :: "('u, 'z) world_scheme" and tc
  assume a: "ctl_documented K" "out_ok q f w s" "running s = 1" "conns s q = Some tc" "buf_inv (inputBuffer tc)"
    "fits (content (inputBuffer tc)) (outputBuffer tc)"
  let ?tc = "tc\<lparr>inputBuffer := RetrieveAll (inputBuffer tc)\<rparr>"
  let ?s1 = "upd_conn q ?tc s"
  obtain s' h buf where s': "Send K U (gid ?s1) q (content (inputBuffer tc)) ?s1 = Inr s'" "out_ok q f w s'"
      "hist s' = hist ?s1 @ h" "written f h = []" "received f h = []"
      "pending_out q s' = pending_out q ?s1 @ content (inputBuffer tc)"
      "conns s' q = Some (?tc\<lparr>outputBuffer := buf\<rparr>)" "running s' = 1" "extraForReadFD s' = extraForReadFD ?s1"
    by (rule Send_echo [OF out_ok_input [OF a(2,4)] a(1), of _ ?tc]) (use a in \<open>simp_all add: upd_conn_def\<close>)
  have "echo_message K U q s = Inr s'"
    using s'(1) a(4) RetrieveAsString_all [OF a(5)] by (simp add: echo_message_def) (simp add: upd_conn_def)
  moreover have "pending_out q ?s1 = pending_out q s" using a(4) by (simp add: pending_out_def)
  ultimately show "\<exists>s' h buf. echo_message K U q s = Inr s' \<and> out_ok q f w s' \<and> hist s' = hist s @ h \<and> written f h = []
      \<and> received f h = [] \<and> pending_out q s' = pending_out q s @ content (inputBuffer tc) \<and> running s' = 1
      \<and> extraForReadFD s' = extraForReadFD s
      \<and> conns s' q = Some (tc\<lparr>outputBuffer := buf, inputBuffer := RetrieveAll (inputBuffer tc)\<rparr>)"
    using s' by (intro exI [of _ s'] exI [of _ h] exI [of _ buf]) (simp add: upd_conn_def)
qed

interpretation bench: echo_server K "bench_message K U" for K and U :: "('u, 'z) user"
proof unfold_locales
  fix q f w and s :: "('u, 'z) world_scheme" and tc
  assume a: "ctl_documented K" "out_ok q f w s" "running s = 1" "conns s q = Some tc" "buf_inv (inputBuffer tc)"
    "fits (content (inputBuffer tc)) (outputBuffer tc)"
  obtain s1 h buf where s1: "Send K U (gid s) q (content (inputBuffer tc)) s = Inr s1" "out_ok q f w s1"
      "hist s1 = hist s @ h" "written f h = []" "received f h = []"
      "pending_out q s1 = pending_out q s @ content (inputBuffer tc)"
      "conns s1 q = Some (tc\<lparr>outputBuffer := buf\<rparr>)" "running s1 = 1" "extraForReadFD s1 = extraForReadFD s"
    by (rule Send_echo [OF a(2,1,4,6,3)])
  let ?s' = "upd_conn q (tc\<lparr>outputBuffer := buf, inputBuffer := RetrieveAll (inputBuffer tc)\<rparr>) s1"
  have "bench_message K U q s = Inr ?s'" using s1(1,7) a(4) Peek_content [OF a(5)] by (simp add: bench_message_def)
  moreover have "out_ok q f w ?s'" using out_ok_input [OF s1(2,7)] by simp
  moreover have "pending_out q ?s' = pending_out q s1" using s1(7) by (simp add: pending_out_def)
  ultimately show "\<exists>s' h buf. bench_message K U q s = Inr s' \<and> out_ok q f w s' \<and> hist s' = hist s @ h \<and> written f h = []
      \<and> received f h = [] \<and> pending_out q s' = pending_out q s @ content (inputBuffer tc) \<and> running s' = 1
      \<and> extraForReadFD s' = extraForReadFD s
      \<and> conns s' q = Some (tc\<lparr>outputBuffer := buf, inputBuffer := RetrieveAll (inputBuffer tc)\<rparr>)"
    using s1 by (intro exI [of _ ?s'] exI [of _ h] exI [of _ buf]) (simp add: upd_conn_def)
qed

section \<open>The stream\<close>

datatype io_op = Readable | Writable

primrec io_step :: "kernel \<Rightarrow> ('u, 'z) user \<Rightarrow> nat \<Rightarrow> io_op \<Rightarrow> ('u, 'z) world_scheme \<Rightarrow> ('u, 'z) world_scheme res" where
  "io_step K U q Readable s = handleRead K U q s"
| "io_step K U q Writable s = handleWrite K U q s"

definition echoing :: "'u \<Rightarrow> nat \<Rightarrow> int \<Rightarrow> ('u, 'z) world_scheme \<Rightarrow> bool" where
  "echoing u q f s \<longleftrightarrow> out_ok q f (Some DefaultCb) s \<and> running s = 1 \<and> extraForReadFD s \<noteq> []
     \<and> (\<exists>tc. conns s q = Some tc \<and> messageCallback tc = Some (UserCb u) \<and> readIndex (inputBuffer tc) = 0
          \<and> writeIndex (inputBuffer tc) = 0 \<and> data (inputBuffer tc) \<noteq> [])"

text \<open>The bytes a read would deliver: none at the end of file and on an error.\<close>

definition arriving :: "kernel \<Rightarrow> nat \<Rightarrow> ('u, 'z) world_scheme \<Rightarrow> byte list" where
  "arriving K q s = (case conns s q of None \<Rightarrow> [] | Some tc \<Rightarrow> (case chans s (socketChannel tc) of None \<Rightarrow> [] | Some c \<Rightarrow>
     (case k_readv K (hist s) (fd c) (nat (int (length (data (inputBuffer tc))) - writeIndex (inputBuffer tc)
          + int (length (extraForReadFD s)))) of None \<Rightarrow> [] | Some bs \<Rightarrow> bs)))"

text \<open>The events that end the exchange: the end of the input or a read error, bytes whose echo does not fit the output buffer,
  a write that the kernel refuses.\<close>

primrec io_stops :: "kernel \<Rightarrow> nat \<Rightarrow> int \<Rightarrow> io_op \<Rightarrow> ('u, 'z) world_scheme \<Rightarrow> bool" where
  "io_stops K q f Readable s = (arriving K q s = []
     \<or> (\<exists>tc. conns s q = Some tc \<and> \<not> fits (arriving K q s) (outputBuffer tc)))"
| "io_stops K q f Writable s = (\<exists>e. k_write K (hist s) f (pending_out q s) = Inl e)"

text \<open>A read that delivers, on an empty input buffer.\<close>

lemma handleRead_arriving:
  fixes s :: "('u, 'z) world_scheme"
  assumes "echoing u q f s" "readv_documented K" "conns s q = Some tc" "arriving K q s \<noteq> []"
  obtains n b x where "handleRead K U q s = U u (ArgMessage q) (log_sys (SysReadv f n (Some (arriving K q s)))
      (upd_conn q (tc\<lparr>inputBuffer := b\<rparr>) (s\<lparr>extraForReadFD := x\<rparr>)))"
    "buf_inv b" "content b = arriving K q s" "x \<noteq> []" "data b \<noteq> []"
proof -
  obtain c where c: "chans s (socketChannel tc) = Some c" "fd c = f"
    using assms(1,3) by (auto simp: echoing_def out_ok_def)
  have e: "messageCallback tc = Some (UserCb u)" "readIndex (inputBuffer tc) = 0" "writeIndex (inputBuffer tc) = 0"
      "data (inputBuffer tc) \<noteq> []" "extraForReadFD s \<noteq> []"
    using assms(1,3) by (auto simp: echoing_def)
  let ?w = "int (length (data (inputBuffer tc)))"
  let ?n = "nat (?w + int (length (extraForReadFD s)))"
  obtain bs where bs: "k_readv K (hist s) f ?n = Some bs" "bs \<noteq> []"
    using assms(3,4) c e(3) by (auto simp: arriving_def split: option.splits)
  have le: "length bs \<le> ?n" using assms(2) bs(1) unfolding readv_documented_def by blast
  have a: "arriving K q s = bs" using assms(3) c e(3) bs(1) by (simp add: arriving_def)
  have i: "buf_inv (inputBuffer tc)" "content (inputBuffer tc) = []" using e(2,3) by (simp_all add: buf_inv_def content_def)
  have l: "int (length bs) \<le> ?w + int (length (extraForReadFD s))" using le by linarith
  obtain b x where r: "ReadFD (Some bs) (extraForReadFD s) (inputBuffer tc) = Inr (int (length bs), b, x)" "buf_inv b"
      "content b = bs" "length x = length (extraForReadFD s)"
    using ReadFD_ok [OF i(1) _ e(5) bs(2)] i(2) e(2-4) l by (auto simp: fits_def)
  have "data b \<noteq> []" using r(3) bs(2) by (auto simp: content_def)
  moreover have "x \<noteq> []" using r(4) e(5) by auto
  moreover have "handleRead K U q s = U u (ArgMessage q) (log_sys (SysReadv f ?n (Some bs))
      (upd_conn q (tc\<lparr>inputBuffer := b\<rparr>) (s\<lparr>extraForReadFD := x\<rparr>)))"
    using assms(3) c e bs r by (simp add: handleRead_def Let_def call_back_def)
  ultimately show thesis using that r a by simp
qed

context echo_server
begin

lemma echo_read:
  assumes "echoing u q f s" "ctl_documented K" "readv_documented K" "conns s q = Some tc" "U u (ArgMessage q) = msg q"
    "arriving K q s \<noteq> []" "fits (arriving K q s) (outputBuffer tc)"
  obtains s' h where "handleRead K U q s = Inr s'" "echoing u q f s'" "hist s' = hist s @ h" "written f h = []"
    "pending_out q s' = pending_out q s @ received f h"
proof -
  obtain n b x where r: "handleRead K U q s = msg q (log_sys (SysReadv f n (Some (arriving K q s)))
      (upd_conn q (tc\<lparr>inputBuffer := b\<rparr>) (s\<lparr>extraForReadFD := x\<rparr>)))"
    and b: "buf_inv b" "content b = arriving K q s" "x \<noteq> []" "data b \<noteq> []"
    using handleRead_arriving [OF assms(1,3,4,6)] assms(5) by metis
  let ?tc = "tc\<lparr>inputBuffer := b\<rparr>"
  let ?s1 = "log_sys (SysReadv f n (Some (arriving K q s))) (upd_conn q ?tc (s\<lparr>extraForReadFD := x\<rparr>))"
  have o: "out_ok q f (Some DefaultCb) s" "running s = 1" "messageCallback tc = Some (UserCb u)"
    using assms(1,4) by (auto simp: echoing_def)
  have "out_ok q f (Some DefaultCb) (upd_conn q ?tc (s\<lparr>extraForReadFD := x\<rparr>))"
    using o(1) assms(4) by (intro out_ok_input) (simp_all add: out_ok_def world_inv_extra)
  then have "out_ok q f (Some DefaultCb) ?s1" by (auto simp: out_ok_def intro: world_inv_log)
  from msg_echoes [OF assms(2) this, of ?tc] obtain s' h buf where
    s': "msg q ?s1 = Inr s'" "out_ok q f (Some DefaultCb) s'" "hist s' = hist ?s1 @ h" "written f h = []" "received f h = []"
      "pending_out q s' = pending_out q ?s1 @ content b" "running s' = 1" "extraForReadFD s' = x"
      "conns s' q = Some (?tc\<lparr>outputBuffer := buf, inputBuffer := RetrieveAll b\<rparr>)"
    using o b assms(7) by (auto simp: log_sys_def upd_conn_def)
  have "echoing u q f s'" using s' o(3) b by (simp add: echoing_def RetrieveAll_def)
  moreover have "pending_out q ?s1 = pending_out q s" using assms(4) by (simp add: pending_out_def)
  moreover have "hist s' = hist s @ SysReadv f n (Some (arriving K q s)) # h" using s'(3) by (simp add: log_sys_def upd_conn_def)
  moreover have "received f (SysReadv f n (Some (arriving K q s)) # h) = arriving K q s"
      "written f (SysReadv f n (Some (arriving K q s)) # h) = []"
    using s'(4,5) received_simps(2) [of f "[SysReadv f n (Some (arriving K q s))]" h]
      written_simps(2) [of f "[SysReadv f n (Some (arriving K q s))]" h] by simp_all
  ultimately show thesis using that [of s' "SysReadv f n (Some (arriving K q s)) # h"] r s'(1,6) b(2) by simp
qed

lemma echo_step:
  assumes "echoing u q f s" "ctl_documented K" "readv_documented K" "write_documented K" "U u (ArgMessage q) = msg q"
    "\<not> io_stops K q f op s"
  obtains s' h where "io_step K U q op s = Inr s'" "echoing u q f s'" "hist s' = hist s @ h"
    "written f h @ pending_out q s' = pending_out q s @ received f h"
proof -
  obtain tc where tc: "conns s q = Some tc" "writeCompleteCallback tc = Some DefaultCb"
    using assms(1) by (auto simp: echoing_def out_ok_def)
  show thesis
  proof (cases op)
    case Readable
    then have r: "arriving K q s \<noteq> []" "fits (arriving K q s) (outputBuffer tc)" using assms(6) tc by simp_all
    obtain s1 h1 where
      "handleRead K U q s = Inr s1" "echoing u q f s1" "hist s1 = hist s @ h1" "written f h1 = []"
      "pending_out q s1 = pending_out q s @ received f h1"
      by (rule echo_read [where U = U, OF assms(1-3) tc(1) assms(5) r])
    then show thesis using that [of s1 h1] Readable by simp
  next
    case Writable
    then obtain n where n: "k_write K (hist s) f (pending_out q s) = Inr n"
      using assms(6) by (cases "k_write K (hist s) f (pending_out q s)") auto
    have "out_ok q f (Some DefaultCb) s" using assms(1) by (simp add: echoing_def)
    from out_step_write [OF this assms(2,4) n] obtain s1 h1 where w: "handleWrite K U q s = Inr s1"
        "out_ok q f (Some DefaultCb) s1" "hist s1 = hist s @ h1" "written f h1 @ pending_out q s1 = pending_out q s" by blast
    have fr: "out_frame q f s s1" by (rule handleWrite_out_frame [OF w(1) tc])
    then have "echoing u q f s1" "received f h1 = []"
      using assms(1) w(2,3) tc(1) by (auto simp: echoing_def out_frame_def)
    then show thesis using that [of s1 h1] w Writable by simp
  qed
qed

lemma echo_stream:
  assumes "echoing u q f s" "ctl_documented K" "readv_documented K" "write_documented K" "U u (ArgMessage q) = msg q"
  shows "\<exists>pre rest s' h. ops = pre @ rest \<and> rfold (io_step K U q) pre s = Inr s' \<and> hist s' = hist s @ h \<and> echoing u q f s'
    \<and> written f h @ pending_out q s' = pending_out q s @ received f h
    \<and> (case rest of [] \<Rightarrow> True | op # _ \<Rightarrow> io_stops K q f op s')"
  using assms(1)
proof (induction ops arbitrary: s)
  case Nil
  then show ?case by (intro exI [of _ "[]"] exI [of _ s]) simp
next
  case (Cons op ops)
  show ?case
  proof (cases "io_stops K q f op s")
    case True
    then show ?thesis using Cons.prems by (intro exI [of _ "[]"] exI [of _ "op # ops"] exI [of _ s]) simp
  next
    case False
    obtain s1 h1 where s1: "io_step K U q op s = Inr s1" "echoing u q f s1" "hist s1 = hist s @ h1"
        "written f h1 @ pending_out q s1 = pending_out q s @ received f h1"
      by (rule echo_step [where U = U, OF Cons.prems assms(2-5) False])
    obtain pre rest s' h where s': "ops = pre @ rest" "rfold (io_step K U q) pre s1 = Inr s'" "hist s' = hist s1 @ h"
        "echoing u q f s'" "written f h @ pending_out q s' = pending_out q s1 @ received f h"
        "case rest of [] \<Rightarrow> True | op # _ \<Rightarrow> io_stops K q f op s'"
      using Cons.IH [OF s1(2)] by blast
    have "written f (h1 @ h) @ pending_out q s' = pending_out q s @ received f (h1 @ h)"
      using s'(5) s1(4) by (metis append_assoc received_simps(2) written_simps(2))
    then show ?thesis using s1 s'
      by (intro exI [of _ "op # pre"] exI [of _ rest] exI [of _ s'] exI [of _ "h1 @ h"]) simp
  qed
qed

end

section \<open>Properties\<close>

text \<open>C10. Echo, end to end: on an established connection of the echo example, and of the
  benchmark server, for every sequence of readable and writable events and every way in which the kernel cuts the
  stream (reads that deliver any number of bytes, partial writes), up to the end of the input, a read error, a refused write, or bytes
  whose echo does not fit the output buffer: nothing panics, the connection stays established with an empty input buffer, and the
  bytes written to the socket followed by those still queued are exactly the bytes queued before followed by the bytes read, in order.\<close>

theorem echo_exact:
  assumes "echoing u q f s" "u = EchoMessage \<or> u = BenchMessage" "ctl_documented K" "readv_documented K" "write_documented K"
  shows "\<exists>pre rest s' h. ops = pre @ rest \<and> rfold (io_step K (echo_user K (Suc n)) q) pre s = Inr s' \<and> hist s' = hist s @ h
    \<and> echoing u q f s' \<and> written f h @ pending_out q s' = pending_out q s @ received f h
    \<and> (case rest of [] \<Rightarrow> True | op # _ \<Rightarrow> io_stops K q f op s')"
  using assms(2)
proof
  assume u: "u = EchoMessage"
  show ?thesis
    by (rule echo.echo_stream [where Ua = "echo_user K n", OF assms(1,3-5)]) (simp add: u)
next
  assume u: "u = BenchMessage"
  show ?thesis
    by (rule bench.echo_stream [where Ua = "echo_user K n", OF assms(1,3-5)]) (simp add: u)
qed

text \<open>Concrete run: a kernel that delivers three bytes and takes one byte at a time; the socket is readable,
  then writable.\<close>

definition echo_tc :: "echo_val tcpConnection" where
  "echo_tc = \<lparr>tstate = Connected, socketChannel = 1, connectedCallback = Some (UserCb EchoConnected),
     disconnectedCallback = Some (UserCb EchoDisConnected), messageCallback = Some (UserCb EchoMessage),
     highWaterCallback = Some DefaultCb, writeCompleteCallback = Some DefaultCb, hignWaterLevel = 0,
     remoteAddrPort = (0, 0), outputBuffer = NewBuffer, inputBuffer = NewBuffer, conn_ctx = NewContext\<rparr>"

definition echo_kernel :: kernel where
  "echo_kernel = sample_kernel []\<lparr>k_readv := \<lambda>h f n. Some (take n [4, 5, 6]), k_write := \<lambda>h f bs. Inr (min 1 (length bs))\<rparr>"

theorem echo_exact_witness:
  "\<exists>s' h. rfold (io_step echo_kernel (echo_user echo_kernel (Suc 0)) 0) [Readable, Writable] (sample_world echo_tc sample_chan) = Inr s'
     \<and> written 7 h @ pending_out 0 s' = received 7 h"
proof -
  let ?s = "sample_world echo_tc sample_chan" and ?U = "echo_user echo_kernel (Suc 0)"
  have e: "echoing EchoMessage 0 7 ?s"
    using sample_world_inv [of sample_chan echo_tc "{}"] NewBuffer_inv
    by (simp add: echoing_def out_ok_def echo_tc_def) (simp add: sample_world_def NewBuffer_def)
  have K: "ctl_documented echo_kernel" "readv_documented echo_kernel" "write_documented echo_kernel"
    using sample_ctl [of "[]"]
    by (auto simp: ctl_documented_def readv_documented_def write_documented_def echo_kernel_def)
  have w: "k_write echo_kernel h f bs = Inr (min 1 (length bs))" for h f bs by (simp add: echo_kernel_def)
  have p: "pending_out 0 ?s = []" using NewBuffer_content by (simp add: pending_out_def echo_tc_def)
  from echo_exact [OF e _ K, of "[Readable, Writable]" 0] obtain pre rest s' h where
    r: "[Readable, Writable] = pre @ rest" "rfold (io_step echo_kernel ?U 0) pre ?s = Inr s'"
      "written 7 h @ pending_out 0 s' = received 7 h" "case rest of [] \<Rightarrow> True | op # _ \<Rightarrow> io_stops echo_kernel 0 7 op s'"
    unfolding p by auto
  have "rest = []"
  proof (cases pre)
    case Nil
    have "arriving echo_kernel 0 ?s = [4, 5, 6]"
      by (simp add: arriving_def echo_tc_def echo_kernel_def NewBuffer_def sample_world_def)
    with Nil r NewBuffer_read show ?thesis by (auto simp: fits_def echo_tc_def)
  next
    case (Cons op ops)
    with r w show ?thesis by (cases ops) auto
  qed
  with r show ?thesis by auto
qed

end
