(* ===== verification/Cond.thy ===== *)
theory Cond
  imports Prelude
begin

text \<open>
  The condition variable with timeout of \<^verbatim>\<open>pkg/cond/cond.go\<close>, used by the asynchronous logger. The
  current channel is replaced by an atomic swap and the old one is closed afterwards, so
  several broadcasts may be between the two at the same time. \<open>cchans\<close> tells which
  channels are closed; \<open>swapped\<close> lists the channels whose broadcaster has swapped and not closed yet;
  \<open>waiters\<close> gives the position of each goroutine inside \<^verbatim>\<open>Wait\<close> or \<^verbatim>\<open>WaitWithTimeout\<close>. Goroutine
  0 means that nobody holds the lock.
\<close>

text \<open>\<open>GotChan\<close> has loaded the channel and still holds the lock, \<open>Blocked\<close> has unlocked and receives from it,
  \<open>Woken\<close> is about to lock again. The flag tells \<^verbatim>\<open>WaitWithTimeout\<close>.\<close>

datatype wait_pc =
    GotChan nat bool
  | Blocked nat bool
  | Woken           

record cond_state =
  cn :: nat
  cchans :: "nat \<rightharpoonup> bool"
  swapped :: "nat list"
  waiters :: "nat \<rightharpoonup> wait_pc"
  lock_holder :: nat

definition NewCond :: cond_state where
  "NewCond = \<lparr>cn = 0, cchans = [0 \<mapsto> False], swapped = [], waiters = Map.empty, lock_holder = 0\<rparr>"

definition NotifyChan :: "cond_state \<Rightarrow> nat" where
  "NotifyChan s = cn s"

text \<open>The two atomic actions of \<^verbatim>\<open>Broadcast\<close>; channels are numbered by their creation.\<close>

definition broadcast_swap :: "cond_state \<Rightarrow> cond_state" where
  "broadcast_swap s = s\<lparr>cn := cn s + 1, cchans := (cchans s)(cn s + 1 \<mapsto> False), swapped := swapped s @ [cn s]\<rparr>"

definition broadcast_close :: "nat \<Rightarrow> cond_state \<Rightarrow> cond_state res" where
  "broadcast_close n s =
     (case cchans s n of
        None \<Rightarrow> Inl NilDeref
      | Some closed \<Rightarrow>
          if closed then Inl CloseOfClosed
          else Inr (s\<lparr>cchans := (cchans s)(n \<mapsto> True), swapped := remove1 n (swapped s)\<rparr>))"

text \<open>The actions of a waiting goroutine \<open>g\<close>, in order.\<close>

definition wait_begin :: "nat \<Rightarrow> bool \<Rightarrow> cond_state \<Rightarrow> cond_state" where
  "wait_begin g tmo s = s\<lparr>waiters := (waiters s)(g \<mapsto> GotChan (NotifyChan s) tmo)\<rparr>"

definition wait_unlock :: "nat \<Rightarrow> nat \<Rightarrow> bool \<Rightarrow> cond_state \<Rightarrow> cond_state" where
  "wait_unlock g n tmo s = s\<lparr>waiters := (waiters s)(g \<mapsto> Blocked n tmo), lock_holder := 0\<rparr>"

definition can_return :: "nat \<Rightarrow> bool \<Rightarrow> cond_state \<Rightarrow> bool" where
  "can_return n tmo s \<longleftrightarrow> tmo \<or> cchans s n = Some True"

definition wait_return :: "nat \<Rightarrow> cond_state \<Rightarrow> cond_state" where
  "wait_return g s = s\<lparr>waiters := (waiters s)(g \<mapsto> Woken)\<rparr>"

definition wait_lock :: "nat \<Rightarrow> cond_state \<Rightarrow> cond_state" where
  "wait_lock g s = s\<lparr>waiters := (waiters s)(g := None), lock_holder := g\<rparr>"

text \<open>\<open>cs_lock\<close> and \<open>cs_unlock\<close> are the clients' own uses of the lock.\<close>

inductive cond_step :: "cond_state \<Rightarrow> cond_state \<Rightarrow> bool" where
  cs_swap: "cond_step s (broadcast_swap s)"
| cs_close: "n \<in> set (swapped s) \<Longrightarrow> broadcast_close n s = Inr s' \<Longrightarrow> cond_step s s'"
| cs_begin: "lock_holder s = g \<Longrightarrow> g \<noteq> 0 \<Longrightarrow> waiters s g = None \<Longrightarrow> cond_step s (wait_begin g tmo s)"
| cs_wait: "waiters s g = Some (GotChan n tmo) \<Longrightarrow> cond_step s (wait_unlock g n tmo s)"
| cs_return: "waiters s g = Some (Blocked n tmo) \<Longrightarrow> can_return n tmo s \<Longrightarrow> cond_step s (wait_return g s)"
| cs_relock: "waiters s g = Some Woken \<Longrightarrow> lock_holder s = 0 \<Longrightarrow> cond_step s (wait_lock g s)"
| cs_lock: "lock_holder s = 0 \<Longrightarrow> g \<noteq> 0 \<Longrightarrow> waiters s g = None \<Longrightarrow> cond_step s (s\<lparr>lock_holder := g\<rparr>)"
| cs_unlock: "lock_holder s = g \<Longrightarrow> waiters s g = None \<Longrightarrow> cond_step s (s\<lparr>lock_holder := 0\<rparr>)"

inductive cond_reach :: "cond_state \<Rightarrow> bool" where
  cr_init: "cond_reach NewCond"
| cr_step: "cond_reach s \<Longrightarrow> cond_step s s' \<Longrightarrow> cond_reach s'"

definition waits_on :: "wait_pc \<Rightarrow> nat option" where
  "waits_on w = (case w of GotChan n tmo \<Rightarrow> Some n | Blocked n tmo \<Rightarrow> Some n | Woken \<Rightarrow> None)"

text \<open>The current channel is the newest and open; every older one is closed, or about to be closed by
  exactly one broadcaster; waiters hold existing channels.\<close>

definition cond_inv :: "cond_state \<Rightarrow> bool" where
  "cond_inv s \<longleftrightarrow> dom (cchans s) = {..cn s} \<and> cchans s (cn s) = Some False \<and> distinct (swapped s)
     \<and> (\<forall>n < cn s. cchans s n = Some (n \<notin> set (swapped s))) \<and> (\<forall>n \<in> set (swapped s). n < cn s)
     \<and> (\<forall>g w n. waiters s g = Some w \<longrightarrow> waits_on w = Some n \<longrightarrow> n \<le> cn s)"

lemma cond_invD:
  assumes "cond_inv s"
  shows "dom (cchans s) = {..cn s}" "cchans s (cn s) = Some False" "distinct (swapped s)"
    "\<And>n. n < cn s \<Longrightarrow> cchans s n = Some (n \<notin> set (swapped s))" "\<And>n. n \<in> set (swapped s) \<Longrightarrow> n < cn s"
    "\<And>g w n. waiters s g = Some w \<Longrightarrow> waits_on w = Some n \<Longrightarrow> n \<le> cn s"
  using assms unfolding cond_inv_def by blast+

lemma swap_inv: "cond_inv s \<Longrightarrow> cond_inv (broadcast_swap s)"
  unfolding cond_inv_def broadcast_swap_def
  by (auto simp: less_Suc_eq le_Suc_eq)

lemma close_inv:
  assumes "cond_inv s" "n \<in> set (swapped s)"
  shows "\<exists>s'. broadcast_close n s = Inr s' \<and> cond_inv s' \<and> cn s' = cn s \<and> waiters s' = waiters s \<and> cchans s' n = Some True"
proof -
  note inv = cond_invD [OF assms(1)]
  have n: "n < cn s" "cchans s n = Some False" using inv(4,5) assms(2) by auto
  let ?s = "s\<lparr>cchans := (cchans s)(n \<mapsto> True), swapped := remove1 n (swapped s)\<rparr>"
  have "set (remove1 n (swapped s)) = set (swapped s) - {n}" using inv(3) by simp
  moreover have "dom (cchans ?s) = {..cn ?s}" using inv(1) n by auto
  ultimately have "cond_inv ?s"
    unfolding cond_inv_def using inv(2-6) n by (auto simp: distinct_remove1)
  then show ?thesis using n(2) by (simp add: broadcast_close_def)
qed

lemma waiters_inv:
  assumes "cond_inv s" "\<And>g w n. ws g = Some w \<Longrightarrow> waits_on w = Some n \<Longrightarrow> n \<le> cn s"
  shows "cond_inv (s\<lparr>waiters := ws\<rparr>)" "cond_inv (s\<lparr>waiters := ws, lock_holder := h\<rparr>)"
  using assms unfolding cond_inv_def by auto

lemma cond_step_inv:
  assumes "cond_step s s'" "cond_inv s"
  shows "cond_inv s'"
  using assms(1)
proof cases
  case cs_swap
  then show ?thesis using swap_inv assms(2) by simp
next
  case (cs_close n)
  then show ?thesis using close_inv [OF assms(2), of n] by auto
next
  case (cs_begin g tmo)
  then show ?thesis using cond_invD(6) [OF assms(2)]
    by (auto simp: wait_begin_def NotifyChan_def waits_on_def intro!: waiters_inv assms(2) split: if_splits)
next
  case (cs_wait g n tmo)
  have "n \<le> cn s" using cond_invD(6) [OF assms(2) cs_wait(2)] by (simp add: waits_on_def)
  then show ?thesis using cond_invD(6) [OF assms(2)] cs_wait(1)
    by (auto simp: wait_unlock_def waits_on_def intro!: waiters_inv assms(2) split: if_splits)
next
  case (cs_return g n tmo)
  then show ?thesis using cond_invD(6) [OF assms(2)]
    by (auto simp: wait_return_def waits_on_def intro!: waiters_inv assms(2) split: if_splits)
next
  case (cs_relock g)
  then show ?thesis using cond_invD(6) [OF assms(2)]
    by (auto simp: wait_lock_def intro!: waiters_inv assms(2) split: if_splits)
qed (use assms(2) in \<open>auto simp: cond_inv_def\<close>)

lemma cond_reach_inv: "cond_reach s \<Longrightarrow> cond_inv s"
proof (induction rule: cond_reach.induct)
  case cr_init
  then show ?case by (auto simp: cond_inv_def NewCond_def)
qed (rule cond_step_inv)

text \<open>C34. \<^verbatim>\<open>Broadcast\<close> never closes a channel twice, and wakes everyone who was waiting: in every
  interleaving of waiters and broadcasters, the close of a swapped-out channel succeeds; a
  goroutine that loaded its channel before some broadcast's swap can return as soon as that channel is
  closed, and until then exactly one broadcaster is left to close it; a goroutine on the current
  channel is not released without its timeout.\<close>

theorem Broadcast_wakes:
  assumes "cond_reach s"
  shows "distinct (swapped s) \<and> (\<forall>n \<in> set (swapped s). \<exists>s'. broadcast_close n s = Inr s' \<and> can_return n tmo s')
    \<and> (\<forall>g n. waiters s g = Some (Blocked n tmo) \<and> n \<noteq> cn s \<longrightarrow> can_return n tmo s \<or> n \<in> set (swapped s))
    \<and> (\<forall>g. waiters s g = Some (Blocked (cn s) False) \<longrightarrow> \<not> can_return (cn s) False s)"
proof (intro conjI ballI allI impI)
  note inv = cond_invD [OF cond_reach_inv [OF assms]]
  show "distinct (swapped s)" by (rule inv(3))
  show "\<exists>s'. broadcast_close n s = Inr s' \<and> can_return n tmo s'" if "n \<in> set (swapped s)" for n
    using close_inv [OF cond_reach_inv [OF assms] that] by (auto simp: can_return_def)
  fix g n assume "waiters s g = Some (Blocked n tmo) \<and> n \<noteq> cn s"
  then have "n < cn s" using inv(6) [of g "Blocked n tmo" n] by (simp add: waits_on_def)
  then show "can_return n tmo s \<or> n \<in> set (swapped s)" using inv(4) by (simp add: can_return_def)
next
  fix g assume "waiters s g = Some (Blocked (cn s) False)"
  then show "\<not> can_return (cn s) False s"
    using cond_invD(2) [OF cond_reach_inv [OF assms]] by (simp add: can_return_def)
qed

theorem Broadcast_wakes_witness:
  "distinct (swapped (broadcast_swap (broadcast_swap NewCond)))
   \<and> (\<exists>s'. broadcast_close 0 (broadcast_swap (broadcast_swap NewCond)) = Inr s' \<and> can_return 0 False s')"
proof -
  have r: "cond_reach (broadcast_swap (broadcast_swap NewCond))"
    by (rule cr_step [OF cr_step [OF cr_init cs_swap] cs_swap])
  have "0 \<in> set (swapped (broadcast_swap (broadcast_swap NewCond)))" by (simp add: broadcast_swap_def NewCond_def)
  then show ?thesis using Broadcast_wakes [OF r, of False] by blast
qed

end
