(* ===== verification/Async_Log.thy ===== *)
theory Async_Log
  imports Prelude
begin

text \<open>
  The asynchronous logger of \<^verbatim>\<open>pkg/async_log\<close>: \<^verbatim>\<open>Logf\<close>, called by any goroutine, appends a line to the
  current buffer; a background goroutine takes the filled buffers, writes them to the file
  and returns them to the pool. Buffers are shared objects and live in a store of pointers.
  Every section under \<^verbatim>\<open>mu\<close> is one atomic step, and so is each file write of the background
  goroutine, which happens outside the lock; \<open>log_step\<close> interleaves them freely. The time stamp and the text of
  \<^verbatim>\<open>fmt.Sprintf\<close> are arguments; \<open>W\<close> tells how many bytes a file write accepts, given the writes before it; the source ignores its result.
  \<open>fwrites\<close> records the writes with their results, so that the file is what it held at the start and what they accepted
  (\<open>lfile\<close>), and \<open>logged\<close> is a ghost log.
\<close>

section \<open>Buffers (\<^verbatim>\<open>log_buffer.go\<close>)\<close>

record log_buffer =
  ldata :: string
  lcap :: nat

definition newLogBuffer :: "nat \<Rightarrow> log_buffer" where
  "newLogBuffer sz = \<lparr>ldata = [], lcap = sz\<rparr>"

definition lb_Empty :: "log_buffer \<Rightarrow> bool" where
  "lb_Empty b \<longleftrightarrow> length (ldata b) = 0"

definition lb_Reset :: "log_buffer \<Rightarrow> log_buffer" where
  "lb_Reset b = b\<lparr>ldata := []\<rparr>"

definition lb_Append :: "string \<Rightarrow> log_buffer \<Rightarrow> bool \<times> log_buffer" where
  "lb_Append bs b =
     (if lcap b < length (ldata b) + length bs then (False, b)
      else (True, b\<lparr>ldata := ldata b @ bs\<rparr>))"

section \<open>The logger (\<^verbatim>\<open>log.go\<close>)\<close>

definition level_String :: "int \<Rightarrow> string" where
  "level_String le =
     (if le = 0 then ''DEBUG'' else if le = 1 then ''INFO'' else if le = 2 then ''WARN''
      else if le = 3 then ''ERROR'' else if le = 4 then ''FATAL'' else ''UNKNOWN'')"

text \<open>The position of the background goroutine: before the lock, waiting on the condition, or writing
  the buffers \<open>todo\<close> having written \<open>finished\<close>.\<close>

datatype flusher_pc = FTop | FWaiting | FWriting "nat list" "nat list"

record logger =
  lbufs :: "nat \<rightharpoonup> log_buffer"
  nextBuf :: nat
  currentBuffer :: nat
  backupBuffers :: "nat list"
  fullBuffers :: "nat list"
  bufferSize :: nat
  llevel :: int
  opened_with :: string
  fwrites :: "(string \<times> nat) list"
  fpc :: flusher_pc
  broadcasts :: nat
  logged :: string

text \<open>What the file holds, and what it would hold had every write been complete.\<close>

abbreviation lfile :: "logger \<Rightarrow> string" where
  "lfile lo \<equiv> opened_with lo @ concat (map (\<lambda>(bs, n). take n bs) (fwrites lo))"

abbreviation handed :: "logger \<Rightarrow> string" where
  "handed lo \<equiv> opened_with lo @ concat (map fst (fwrites lo))"

definition deref_buf :: "nat \<Rightarrow> logger \<Rightarrow> log_buffer res" where
  "deref_buf p lo = (case lbufs lo p of None \<Rightarrow> Inl NilDeref | Some b \<Rightarrow> Inr b)"

definition alloc_buf :: "logger \<Rightarrow> nat \<times> logger" where
  "alloc_buf lo = (nextBuf lo,
     lo\<lparr>lbufs := (lbufs lo)(nextBuf lo \<mapsto> newLogBuffer (bufferSize lo)), nextBuf := nextBuf lo + 1\<rparr>)"

fun alloc_bufs :: "nat \<Rightarrow> logger \<Rightarrow> nat list \<times> logger" where
  "alloc_bufs 0 lo = ([], lo)"
| "alloc_bufs (Suc n) lo =
     (case alloc_buf lo of (p, lo1) \<Rightarrow> case alloc_bufs n lo1 of (ps, lo2) \<Rightarrow> (p # ps, lo2))"

text \<open>\<open>opened\<close> is the outcome of \<^verbatim>\<open>os.OpenFile\<close>, with the bytes the file already holds. The level
  field is left at its zero value, as in the source.\<close>

definition NewLogger :: "int \<Rightarrow> errno + string \<Rightarrow> int \<Rightarrow> int \<Rightarrow> logger res" where
  "NewLogger level opened backupBufferNums sz =
     (if backupBufferNums \<le> 0 \<or> sz \<le> 0 then Inl (PanicMsg ''check your params'')
      else
        (let lo0 = \<lparr>lbufs = Map.empty, nextBuf = 0, currentBuffer = 0, backupBuffers = [], fullBuffers = [],
               bufferSize = nat sz, llevel = 0, opened_with = [], fwrites = [], fpc = FTop, broadcasts = 0, logged = []\<rparr>
         in case alloc_bufs (nat backupBufferNums) lo0 of (backup, lo1) \<Rightarrow>
            case alloc_buf lo1 of (p, lo2) \<Rightarrow>
            (case opened of
               Inl e \<Rightarrow> Inl (PanicErr e)
             | Inr old \<Rightarrow> Inr (lo2\<lparr>currentBuffer := p, backupBuffers := backup, opened_with := old, logged := old\<rparr>))))"

text \<open>Both \<^verbatim>\<open>Logf\<close> and the background goroutine retire the current buffer this way.\<close>

definition rotate_buffer :: "logger \<Rightarrow> logger" where
  "rotate_buffer lo =
     (let lo1 = lo\<lparr>fullBuffers := fullBuffers lo @ [currentBuffer lo]\<rparr>
      in if backupBuffers lo1 \<noteq> []
         then lo1\<lparr>currentBuffer := last (backupBuffers lo1), backupBuffers := butlast (backupBuffers lo1)\<rparr>
         else (case alloc_buf lo1 of (p, lo2) \<Rightarrow> lo2\<lparr>currentBuffer := p\<rparr>))"

definition log_line :: "string \<Rightarrow> int \<Rightarrow> string \<Rightarrow> string" where
  "log_line ts level msg = ts @ '' '' @ level_String level @ '' '' @ msg @ [CHR 0x0A]"

definition Logf :: "errno + string \<Rightarrow> int \<Rightarrow> string \<Rightarrow> logger \<Rightarrow> logger res" where
  "Logf tv level msg lo =
     (if llevel lo > level then Inr lo
      else case tv of
        Inl e \<Rightarrow> Inl (PanicErr e)
      | Inr ts \<Rightarrow>
          (let s = log_line ts level msg
           in if length s > bufferSize lo then Inl (PanicMsg ''log is too large'')
              else rbind (deref_buf (currentBuffer lo) lo) (\<lambda>b.
                case lb_Append s b of (ok, b1) \<Rightarrow>
                if ok then Inr (lo\<lparr>lbufs := (lbufs lo)(currentBuffer lo \<mapsto> b1), logged := logged lo @ s\<rparr>)
                else
                  (let lo1 = rotate_buffer lo
                   in rbind (deref_buf (currentBuffer lo1) lo1) (\<lambda>c.
                        Inr (lo1\<lparr>lbufs := (lbufs lo1)(currentBuffer lo1 \<mapsto> snd (lb_Append s c)),
                               broadcasts := broadcasts lo1 + 1, logged := logged lo1 @ s\<rparr>))))))"

definition Metrics :: "logger \<Rightarrow> nat \<times> nat" where
  "Metrics lo = (length (backupBuffers lo), length (fullBuffers lo))"

section \<open>The background goroutine\<close>

text \<open>From the end of the wait to the first unlock: retire a non-empty current buffer, take the full
  ones.\<close>

definition take_full :: "logger \<Rightarrow> logger res" where
  "take_full lo =
     rbind (deref_buf (currentBuffer lo) lo) (\<lambda>b.
       let lo1 = (if \<not> lb_Empty b then rotate_buffer lo else lo)
       in Inr (lo1\<lparr>fullBuffers := [], fpc := FWriting (fullBuffers lo1) []\<rparr>))"

text \<open>One step; in \<open>FWaiting\<close> it is the end of the wait, by \<^verbatim>\<open>Broadcast\<close> or by the timeout of three
  seconds.\<close>

definition flusher_next :: "((string \<times> nat) list \<Rightarrow> string \<Rightarrow> nat) \<Rightarrow> logger \<Rightarrow> logger res" where
  "flusher_next W lo =
     (case fpc lo of
        FTop \<Rightarrow> rbind (deref_buf (currentBuffer lo) lo) (\<lambda>b.
          if lb_Empty b then Inr (lo\<lparr>fpc := FWaiting\<rparr>) else take_full lo)
      | FWaiting \<Rightarrow> take_full lo
      | FWriting (v # todo) finished \<Rightarrow> rbind (deref_buf v lo) (\<lambda>b.
          Inr (lo\<lparr>fwrites := fwrites lo @ [(ldata b, W (fwrites lo) (ldata b))],
                 lbufs := (lbufs lo)(v \<mapsto> lb_Reset b), fpc := FWriting todo (finished @ [v])\<rparr>))
      | FWriting [] finished \<Rightarrow>
          Inr (lo\<lparr>backupBuffers := backupBuffers lo @ finished, fpc := FTop\<rparr>))"

inductive log_step :: "((string \<times> nat) list \<Rightarrow> string \<Rightarrow> nat) \<Rightarrow> logger \<Rightarrow> logger \<Rightarrow> bool" for W where
  log_call: "Logf tv level msg lo = Inr lo' \<Longrightarrow> log_step W lo lo'"
| log_flush: "flusher_next W lo = Inr lo' \<Longrightarrow> log_step W lo lo'"

inductive log_reach :: "((string \<times> nat) list \<Rightarrow> string \<Rightarrow> nat) \<Rightarrow> logger \<Rightarrow> logger \<Rightarrow> bool" for W where
  log_start: "log_reach W lo lo"
| log_next: "log_reach W lo lo' \<Longrightarrow> log_step W lo' lo'' \<Longrightarrow> log_reach W lo lo''"

section \<open>Invariant\<close>

definition todo_of :: "logger \<Rightarrow> nat list" where
  "todo_of lo = (case fpc lo of FWriting todo finished \<Rightarrow> todo | _ \<Rightarrow> [])"

definition done_of :: "logger \<Rightarrow> nat list" where
  "done_of lo = (case fpc lo of FWriting todo finished \<Rightarrow> finished | _ \<Rightarrow> [])"

definition bytes_of :: "logger \<Rightarrow> nat list \<Rightarrow> string" where
  "bytes_of lo ps = concat (map (\<lambda>p. case lbufs lo p of None \<Rightarrow> [] | Some b \<Rightarrow> ldata b) ps)"

definition buf_ptrs :: "logger \<Rightarrow> nat list" where
  "buf_ptrs lo = todo_of lo @ fullBuffers lo @ [currentBuffer lo] @ backupBuffers lo @ done_of lo"

text \<open>Every buffer has exactly one owner and the configured capacity, which it does not exceed;
  the spare ones are empty; what was handed to the file, followed by what the background goroutine
  has still to write, the full buffers and the current one, is what was logged.\<close>

definition log_inv :: "logger \<Rightarrow> bool" where
  "log_inv lo \<longleftrightarrow>
     distinct (buf_ptrs lo) \<and> set (buf_ptrs lo) = dom (lbufs lo) \<and> (\<forall>p \<in> dom (lbufs lo). p < nextBuf lo)
   \<and> (\<forall>p b. lbufs lo p = Some b \<longrightarrow> lcap b = bufferSize lo \<and> length (ldata b) \<le> bufferSize lo)
   \<and> (\<forall>p \<in> set (backupBuffers lo @ done_of lo). \<exists>b. lbufs lo p = Some b \<and> ldata b = [])
   \<and> handed lo @ bytes_of lo (todo_of lo @ fullBuffers lo @ [currentBuffer lo]) = logged lo"

lemma bytes_simps [simp]:
  "bytes_of lo [] = []" "bytes_of lo (ps @ qs) = bytes_of lo ps @ bytes_of lo qs"
  "lbufs lo p = Some b \<Longrightarrow> bytes_of lo (p # ps) = ldata b @ bytes_of lo ps"
  by (simp_all add: bytes_of_def)

text \<open>What the derived observations depend on.\<close>

lemma todo_done_fields [simp]:
  "todo_of (lo\<lparr>lbufs := x0\<rparr>) = todo_of lo" "done_of (lo\<lparr>lbufs := x0\<rparr>) = done_of lo"
  "todo_of (lo\<lparr>nextBuf := x1\<rparr>) = todo_of lo" "done_of (lo\<lparr>nextBuf := x1\<rparr>) = done_of lo"
  "todo_of (lo\<lparr>currentBuffer := x2\<rparr>) = todo_of lo" "done_of (lo\<lparr>currentBuffer := x2\<rparr>) = done_of lo"
  "todo_of (lo\<lparr>backupBuffers := x3\<rparr>) = todo_of lo" "done_of (lo\<lparr>backupBuffers := x3\<rparr>) = done_of lo"
  "todo_of (lo\<lparr>fullBuffers := x4\<rparr>) = todo_of lo" "done_of (lo\<lparr>fullBuffers := x4\<rparr>) = done_of lo"
  "todo_of (lo\<lparr>fwrites := x5\<rparr>) = todo_of lo" "done_of (lo\<lparr>fwrites := x5\<rparr>) = done_of lo"
  "todo_of (lo\<lparr>broadcasts := x6\<rparr>) = todo_of lo" "done_of (lo\<lparr>broadcasts := x6\<rparr>) = done_of lo"
  "todo_of (lo\<lparr>logged := x7\<rparr>) = todo_of lo" "done_of (lo\<lparr>logged := x7\<rparr>) = done_of lo"
  by (simp_all add: todo_of_def done_of_def)

lemma bytes_fields [simp]:
  "bytes_of (lo\<lparr>nextBuf := x0\<rparr>) = bytes_of lo"
  "bytes_of (lo\<lparr>currentBuffer := x1\<rparr>) = bytes_of lo"
  "bytes_of (lo\<lparr>backupBuffers := x2\<rparr>) = bytes_of lo"
  "bytes_of (lo\<lparr>fullBuffers := x3\<rparr>) = bytes_of lo"
  "bytes_of (lo\<lparr>fwrites := x4\<rparr>) = bytes_of lo"
  "bytes_of (lo\<lparr>broadcasts := x5\<rparr>) = bytes_of lo"
  "bytes_of (lo\<lparr>logged := x6\<rparr>) = bytes_of lo"
  "bytes_of (lo\<lparr>fpc := x7\<rparr>) = bytes_of lo"
  by (simp_all add: bytes_of_def fun_eq_iff)

lemma bytes_cong:
  "(\<And>p. p \<in> set ps \<Longrightarrow> lbufs lo' p = lbufs lo p) \<Longrightarrow> bytes_of lo' ps = bytes_of lo ps"
  by (simp add: bytes_of_def cong: map_cong)

lemma log_invD:
  assumes "log_inv lo"
  shows "distinct (buf_ptrs lo)" "set (buf_ptrs lo) = dom (lbufs lo)" "\<And>p. p \<in> dom (lbufs lo) \<Longrightarrow> p < nextBuf lo"
    "\<And>p b. lbufs lo p = Some b \<Longrightarrow> lcap b = bufferSize lo \<and> length (ldata b) \<le> bufferSize lo"
    "\<And>p. p \<in> set (backupBuffers lo @ done_of lo) \<Longrightarrow> \<exists>b. lbufs lo p = Some b \<and> ldata b = []"
    "handed lo @ bytes_of lo (todo_of lo @ fullBuffers lo @ [currentBuffer lo]) = logged lo"
  using assms unfolding log_inv_def by blast+

lemma current_live: "log_inv lo \<Longrightarrow> \<exists>b. lbufs lo (currentBuffer lo) = Some b"
  using log_invD(2) [of lo] by (auto simp: buf_ptrs_def)

lemma rotate_inv:
  assumes "log_inv lo"
  shows "log_inv (rotate_buffer lo)"
    and "\<exists>b. lbufs (rotate_buffer lo) (currentBuffer (rotate_buffer lo)) = Some b \<and> ldata b = []"
    and "fullBuffers (rotate_buffer lo) = fullBuffers lo @ [currentBuffer lo]"
    and "handed (rotate_buffer lo) = handed lo" "logged (rotate_buffer lo) = logged lo" "fpc (rotate_buffer lo) = fpc lo"
    and "bufferSize (rotate_buffer lo) = bufferSize lo" "llevel (rotate_buffer lo) = llevel lo"
proof -
  let ?r = "rotate_buffer lo"
  note inv = log_invD [OF assms]
  have "log_inv ?r \<and> (\<exists>b. lbufs ?r (currentBuffer ?r) = Some b \<and> ldata b = [])"
  proof (cases "backupBuffers lo = []")
    case False
    then obtain xs x where x: "backupBuffers lo = xs @ [x]" by (metis append_butlast_last_id)
    obtain b where b: "lbufs lo x = Some b" "ldata b = []" using inv(5) [of x] x by auto
    have r: "?r = lo\<lparr>fullBuffers := fullBuffers lo @ [currentBuffer lo], currentBuffer := x, backupBuffers := xs\<rparr>"
      using x by (simp add: rotate_buffer_def)
    have "distinct (buf_ptrs ?r)" "set (buf_ptrs ?r) = set (buf_ptrs lo)"
      using inv(1) unfolding r by (auto simp: buf_ptrs_def x)
    moreover have "handed ?r @ bytes_of ?r (todo_of ?r @ fullBuffers ?r @ [currentBuffer ?r]) = logged ?r"
      using inv(6) b current_live [OF assms] unfolding r by auto
    moreover have "\<forall>p \<in> set (backupBuffers ?r @ done_of ?r). \<exists>b. lbufs ?r p = Some b \<and> ldata b = []"
      using inv(5) x unfolding r by simp
    ultimately show ?thesis
      unfolding log_inv_def using inv(2-4) b by (simp add: r)
  next
    case True
    let ?n = "nextBuf lo"
    have fresh: "?n \<notin> dom (lbufs lo)" using inv(3) by blast
    then have live: "?n \<notin> set (buf_ptrs lo)" using inv(2) by blast
    have r: "?r = lo\<lparr>lbufs := (lbufs lo)(?n \<mapsto> newLogBuffer (bufferSize lo)), nextBuf := ?n + 1,
        fullBuffers := fullBuffers lo @ [currentBuffer lo], currentBuffer := ?n\<rparr>"
      using True by (simp add: rotate_buffer_def alloc_buf_def)
    let ?f = "lo\<lparr>lbufs := (lbufs lo)(?n \<mapsto> newLogBuffer (bufferSize lo))\<rparr>"
    have bt: "bytes_of ?f ps = bytes_of lo ps" if "?n \<notin> set ps" for ps
      using that by (intro bytes_cong) auto
    have ptrs: "buf_ptrs ?r = todo_of lo @ fullBuffers lo @ [currentBuffer lo] @ [?n] @ done_of lo"
      unfolding r using True by (simp add: buf_ptrs_def)
    have "distinct (buf_ptrs ?r)" "set (buf_ptrs ?r) = insert ?n (set (buf_ptrs lo))"
      using inv(1) live unfolding ptrs by (auto simp: buf_ptrs_def True)
    moreover have "handed ?r @ bytes_of ?r (todo_of ?r @ fullBuffers ?r @ [currentBuffer ?r]) = logged ?r"
    proof -
      have "?n \<notin> set (todo_of lo)" "?n \<notin> set (fullBuffers lo)" "?n \<notin> set [currentBuffer lo]"
        using live by (auto simp: buf_ptrs_def)
      moreover have "bytes_of ?f [currentBuffer lo, ?n] = bytes_of ?f [currentBuffer lo]"
        by (simp add: bytes_of_def newLogBuffer_def)
      ultimately show ?thesis using inv(6) unfolding r by (simp add: bt)
    qed
    moreover have "\<forall>p b. lbufs ?r p = Some b \<longrightarrow> lcap b = bufferSize ?r \<and> length (ldata b) \<le> bufferSize ?r"
      using inv(4) unfolding r by (simp add: newLogBuffer_def)
    moreover have "\<forall>p \<in> dom (lbufs ?r). p < nextBuf ?r"
      using inv(3) unfolding r by (auto intro: less_SucI)
    moreover have "\<forall>p \<in> set (backupBuffers ?r @ done_of ?r). \<exists>b. lbufs ?r p = Some b \<and> ldata b = []"
      using inv(5) fresh True unfolding r by auto
    ultimately show ?thesis
      unfolding log_inv_def using inv(2) by (simp add: r newLogBuffer_def)
  qed
  then show "log_inv ?r" "\<exists>b. lbufs ?r (currentBuffer ?r) = Some b \<and> ldata b = []" by auto
  show "fullBuffers ?r = fullBuffers lo @ [currentBuffer lo]" "handed ?r = handed lo" "logged ?r = logged lo"
    "fpc ?r = fpc lo" "bufferSize ?r = bufferSize lo" "llevel ?r = llevel lo"
    by (simp_all add: rotate_buffer_def alloc_buf_def Let_def)
qed

text \<open>Writing a line into the current buffer.\<close>

lemma append_current_inv:
  assumes "log_inv lo" "lbufs lo (currentBuffer lo) = Some b" "length (ldata b) + length s \<le> lcap b"
  shows "log_inv (lo\<lparr>lbufs := (lbufs lo)(currentBuffer lo \<mapsto> b\<lparr>ldata := ldata b @ s\<rparr>), logged := logged lo @ s\<rparr>)"
proof -
  let ?c = "currentBuffer lo"
  let ?f = "lo\<lparr>lbufs := (lbufs lo)(?c \<mapsto> b\<lparr>ldata := ldata b @ s\<rparr>)\<rparr>"
  let ?l = "?f\<lparr>logged := logged lo @ s\<rparr>"
  note inv = log_invD [OF assms(1)]
  have nin: "?c \<notin> set (todo_of lo)" "?c \<notin> set (fullBuffers lo)" "?c \<notin> set (backupBuffers lo)" "?c \<notin> set (done_of lo)"
    using inv(1) by (auto simp: buf_ptrs_def)
  have bt: "bytes_of ?f ps = bytes_of lo ps" if "?c \<notin> set ps" for ps
    using that by (intro bytes_cong) auto
  have "bytes_of ?f [?c] = ldata b @ s" by (simp add: bytes_of_def)
  then have "handed ?l @ bytes_of ?l (todo_of ?l @ fullBuffers ?l @ [currentBuffer ?l]) = logged ?l"
    using inv(6) assms(2) nin by (simp add: bt flip: append_assoc)
  moreover have "buf_ptrs ?l = buf_ptrs lo" by (simp add: buf_ptrs_def)
  moreover have "\<forall>p \<in> set (backupBuffers ?l @ done_of ?l). \<exists>b. lbufs ?l p = Some b \<and> ldata b = []"
    using inv(5) nin(3,4) by auto
  moreover have "dom (lbufs ?l) = dom (lbufs lo)" using assms(2) by auto
  moreover have "\<forall>p b. lbufs ?l p = Some b \<longrightarrow> lcap b = bufferSize ?l \<and> length (ldata b) \<le> bufferSize ?l"
    using inv(4) assms(2,3) by auto
  ultimately have "log_inv ?l" unfolding log_inv_def using inv(1-3) by simp
  then show ?thesis by simp
qed

lemma log_inv_broadcasts: "log_inv (lo\<lparr>broadcasts := x\<rparr>) = log_inv lo"
  by (simp add: log_inv_def buf_ptrs_def)

text \<open>\<^verbatim>\<open>Logf\<close> of a line that fits a buffer always succeeds, and logs exactly that line.\<close>

lemma Logf_ok:
  assumes "log_inv lo" "\<not> llevel lo > level" "s = log_line ts level msg" "length s \<le> bufferSize lo"
  obtains lo' where "Logf (Inr ts) level msg lo = Inr lo'" "log_inv lo'" "logged lo' = logged lo @ s"
    "handed lo' = handed lo" "llevel lo' = llevel lo" "bufferSize lo' = bufferSize lo" "fpc lo' = fpc lo"
proof -
  note inv = log_invD [OF assms(1)]
  obtain b where b: "lbufs lo (currentBuffer lo) = Some b" using current_live [OF assms(1)] by blast
  show thesis
  proof (cases "lcap b < length (ldata b) + length s")
    case False
    let ?l = "lo\<lparr>lbufs := (lbufs lo)(currentBuffer lo \<mapsto> b\<lparr>ldata := ldata b @ s\<rparr>), logged := logged lo @ s\<rparr>"
    have "Logf (Inr ts) level msg lo = Inr ?l"
      using assms(2-4) b False by (simp add: Logf_def deref_buf_def lb_Append_def Let_def)
    moreover have "log_inv ?l" using append_current_inv [OF assms(1) b] False by simp
    ultimately show thesis by (rule that) simp_all
  next
    case True
    let ?r = "rotate_buffer lo"
    note r = rotate_inv [OF assms(1)]
    obtain c where c: "lbufs ?r (currentBuffer ?r) = Some c" "ldata c = []" using r(2) by blast
    have cap: "length (ldata c) + length s \<le> lcap c"
      using log_invD(4) [OF r(1) c(1)] c(2) assms(4) r(7) by simp
    let ?l = "?r\<lparr>lbufs := (lbufs ?r)(currentBuffer ?r \<mapsto> c\<lparr>ldata := ldata c @ s\<rparr>), logged := logged ?r @ s\<rparr>"
    have "Logf (Inr ts) level msg lo = Inr (?l\<lparr>broadcasts := broadcasts ?r + 1\<rparr>)"
      using assms(2-4) b True c cap by (simp add: Logf_def deref_buf_def lb_Append_def Let_def)
    moreover have "log_inv ?l" using append_current_inv [OF r(1) c(1) cap] .
    ultimately show thesis
      using r(4-8) by (intro that [of "?l\<lparr>broadcasts := broadcasts ?r + 1\<rparr>"]) (simp_all add: log_inv_broadcasts)
  qed
qed

lemma Logf_inv:
  assumes "log_inv lo" "Logf tv level msg lo = Inr lo'"
  shows "log_inv lo'" "\<exists>s. logged lo' = logged lo @ s" "fpc lo' = fpc lo" "handed lo' = handed lo"
    "llevel lo' = llevel lo" "bufferSize lo' = bufferSize lo"
proof -
  have "log_inv lo' \<and> (\<exists>s. logged lo' = logged lo @ s) \<and> fpc lo' = fpc lo \<and> handed lo' = handed lo \<and> llevel lo' = llevel lo
      \<and> bufferSize lo' = bufferSize lo"
  proof (cases "llevel lo > level")
    case True
    then show ?thesis using assms by (simp add: Logf_def)
  next
    case False
    then obtain ts where ts: "tv = Inr ts" "length (log_line ts level msg) \<le> bufferSize lo"
      using assms(2) by (auto simp: Logf_def Let_def split: sum.splits if_splits)
    obtain l where "Logf (Inr ts) level msg lo = Inr l" "log_inv l" "logged l = logged lo @ log_line ts level msg"
        "handed l = handed lo" "llevel l = llevel lo" "bufferSize l = bufferSize lo" "fpc l = fpc lo"
      by (rule Logf_ok [OF assms(1) False refl ts(2)])
    then show ?thesis using assms(2) ts(1) by auto
  qed
  then show "log_inv lo'" "\<exists>s. logged lo' = logged lo @ s" "fpc lo' = fpc lo" "handed lo' = handed lo"
    "llevel lo' = llevel lo" "bufferSize lo' = bufferSize lo" by auto
qed

lemma take_full_inv:
  assumes "log_inv lo" "fpc lo \<in> {FTop, FWaiting}"
  obtains lo' todo where "take_full lo = Inr lo'" "log_inv lo'" "fpc lo' = FWriting todo []" "logged lo' = logged lo"
    "handed lo' = handed lo" "logged lo = handed lo @ bytes_of lo' todo"
proof -
  obtain b where b: "lbufs lo (currentBuffer lo) = Some b" using current_live [OF assms(1)] by blast
  define r where "r = (if \<not> lb_Empty b then rotate_buffer lo else lo)"
  have r: "log_inv r" "fpc r = fpc lo" "logged r = logged lo" "handed r = handed lo"
      "\<exists>c. lbufs r (currentBuffer r) = Some c \<and> ldata c = []"
    using rotate_inv [OF assms(1)] assms(1) b by (auto simp: r_def lb_Empty_def)
  let ?l = "r\<lparr>fullBuffers := [], fpc := FWriting (fullBuffers r) []\<rparr>"
  have e: "todo_of r = []" "done_of r = []" "todo_of ?l = fullBuffers r" "done_of ?l = []"
    using r(2) assms(2) by (auto simp: todo_of_def done_of_def)
  have "log_inv ?l"
    using log_invD [OF r(1)] e unfolding log_inv_def by (simp add: buf_ptrs_def)
  moreover have "logged lo = handed lo @ bytes_of ?l (fullBuffers r)"
    using log_invD(6) [OF r(1)] e r(3-5) by auto
  moreover have "take_full lo = Inr ?l" using b by (simp add: take_full_def deref_buf_def r_def Let_def)
  ultimately show thesis using r(3,4) by (intro that [of ?l "fullBuffers r"]) simp_all
qed

lemma rotate_level: "llevel (rotate_buffer lo) = llevel lo" "bufferSize (rotate_buffer lo) = bufferSize lo"
  by (simp_all add: rotate_buffer_def alloc_buf_def Let_def)

lemma take_full_level: "take_full lo = Inr lo' \<Longrightarrow> llevel lo' = llevel lo \<and> bufferSize lo' = bufferSize lo"
  by (auto simp: take_full_def rbind_eq_Inr Let_def rotate_level)

lemma write_one_inv:
  assumes "log_inv lo" "fpc lo = FWriting (v # todo) fin"
  obtains b where "lbufs lo v = Some b"
    "flusher_next W lo = Inr (lo\<lparr>fwrites := fwrites lo @ [(ldata b, W (fwrites lo) (ldata b))], lbufs := (lbufs lo)(v \<mapsto> lb_Reset b),
       fpc := FWriting todo (fin @ [v])\<rparr>)"
    "log_inv (lo\<lparr>fwrites := fwrites lo @ [(ldata b, W (fwrites lo) (ldata b))], lbufs := (lbufs lo)(v \<mapsto> lb_Reset b),
       fpc := FWriting todo (fin @ [v])\<rparr>)"
proof -
  note inv = log_invD [OF assms(1)]
  have t: "todo_of lo = v # todo" "done_of lo = fin" using assms(2) by (simp_all add: todo_of_def done_of_def)
  obtain b where b: "lbufs lo v = Some b" using inv(2) t by (auto simp: buf_ptrs_def)
  let ?f = "lo\<lparr>fwrites := fwrites lo @ [(ldata b, W (fwrites lo) (ldata b))], lbufs := (lbufs lo)(v \<mapsto> lb_Reset b)\<rparr>"
  let ?l = "lo\<lparr>fwrites := fwrites lo @ [(ldata b, W (fwrites lo) (ldata b))], lbufs := (lbufs lo)(v \<mapsto> lb_Reset b), fpc := FWriting todo (fin @ [v])\<rparr>"
  have l: "todo_of ?l = todo" "done_of ?l = fin @ [v]" by (simp_all add: todo_of_def done_of_def)
  have nin: "v \<notin> set todo" "v \<notin> set (fullBuffers lo)" "v \<notin> set [currentBuffer lo]"
    using inv(1) t by (auto simp: buf_ptrs_def)
  have bt: "bytes_of ?f ps = bytes_of lo ps" if "v \<notin> set ps" for ps
    using that by (intro bytes_cong) auto
  have "handed ?l @ bytes_of ?l (todo_of ?l @ fullBuffers ?l @ [currentBuffer ?l]) = logged ?l"
    using inv(6) b nin by (simp add: l t bt)
  moreover have "distinct (buf_ptrs ?l)" "set (buf_ptrs ?l) = set (buf_ptrs lo)"
    using inv(1) by (auto simp: buf_ptrs_def l t)
  moreover have "\<forall>p b. lbufs ?l p = Some b \<longrightarrow> lcap b = bufferSize ?l \<and> length (ldata b) \<le> bufferSize ?l"
    using inv(4) b by (auto simp: lb_Reset_def)
  moreover have "\<forall>p \<in> set (backupBuffers ?l @ done_of ?l). \<exists>b. lbufs ?l p = Some b \<and> ldata b = []"
    unfolding l using inv(5) t by (auto simp: lb_Reset_def)
  moreover have "dom (lbufs ?l) = dom (lbufs lo)" using b by auto
  ultimately have "log_inv ?l" unfolding log_inv_def using inv(2,3) by simp
  then show thesis using b assms(2) by (intro that [of b]) (simp_all add: flusher_next_def deref_buf_def)
qed

lemma return_inv:
  assumes "log_inv lo" "fpc lo = FWriting [] fin"
  shows "log_inv (lo\<lparr>backupBuffers := backupBuffers lo @ fin, fpc := FTop\<rparr>)"
proof -
  let ?l = "lo\<lparr>backupBuffers := backupBuffers lo @ fin, fpc := FTop\<rparr>"
  have t: "todo_of lo = []" "done_of lo = fin" "todo_of ?l = []" "done_of ?l = []"
    using assms(2) by (simp_all add: todo_of_def done_of_def)
  then show ?thesis
    using log_invD [OF assms(1)] unfolding log_inv_def by (simp add: buf_ptrs_def)
qed

text \<open>The background goroutine never panics and keeps the invariant.\<close>

lemma flusher_inv:
  assumes "log_inv lo"
  obtains lo' where "flusher_next W lo = Inr lo'" "log_inv lo'" "logged lo' = logged lo" "llevel lo' = llevel lo"
    "bufferSize lo' = bufferSize lo"
proof (cases "fpc lo")
  case FTop
  obtain b where b: "lbufs lo (currentBuffer lo) = Some b" using current_live [OF assms(1)] by blast
  show thesis
  proof (cases "lb_Empty b")
    case True
    have "todo_of (lo\<lparr>fpc := FWaiting\<rparr>) = todo_of lo" "done_of (lo\<lparr>fpc := FWaiting\<rparr>) = done_of lo"
      using FTop by (simp_all add: todo_of_def done_of_def)
    then have "log_inv (lo\<lparr>fpc := FWaiting\<rparr>)" using assms(1) by (simp add: log_inv_def buf_ptrs_def)
    then show thesis using FTop b True by (intro that [of "lo\<lparr>fpc := FWaiting\<rparr>"]) (simp_all add: flusher_next_def deref_buf_def)
  next
    case False
    obtain l where "take_full lo = Inr l" "log_inv l" "logged l = logged lo" "llevel l = llevel lo" "bufferSize l = bufferSize lo"
      using take_full_inv [OF assms(1)] FTop take_full_level by (metis insertCI)
    then show thesis using FTop b False by (intro that [of l]) (simp_all add: flusher_next_def deref_buf_def)
  qed
next
  case FWaiting
  obtain l where "take_full lo = Inr l" "log_inv l" "logged l = logged lo" "llevel l = llevel lo" "bufferSize l = bufferSize lo"
    using take_full_inv [OF assms(1)] FWaiting take_full_level by (metis insertCI)
  then show thesis using FWaiting by (intro that [of l]) (simp_all add: flusher_next_def)
next
  case (FWriting todo fin)
  show thesis
  proof (cases todo)
    case Nil
    then show thesis
      using return_inv [OF assms(1)] FWriting
      by (intro that [of "lo\<lparr>backupBuffers := backupBuffers lo @ fin, fpc := FTop\<rparr>"]) (simp_all add: flusher_next_def)
  next
    case (Cons v vs)
    have f: "fpc lo = FWriting (v # vs) fin" using FWriting Cons by simp
    show thesis by (rule write_one_inv [OF assms f]) (erule (1) that, simp_all)
  qed
qed

lemma take_full_opened: "take_full lo = Inr lo' \<Longrightarrow> opened_with lo' = opened_with lo"
  by (auto simp: take_full_def rbind_eq_Inr Let_def rotate_buffer_def alloc_buf_def)

lemma flusher_opened: "flusher_next W lo = Inr lo' \<Longrightarrow> opened_with lo' = opened_with lo"
  by (auto simp: flusher_next_def rbind_eq_Inr take_full_opened split: flusher_pc.splits list.splits if_splits)

lemma Logf_opened: "Logf tv level msg lo = Inr lo' \<Longrightarrow> opened_with lo' = opened_with lo"
  by (auto simp: Logf_def rbind_eq_Inr Let_def rotate_buffer_def alloc_buf_def lb_Append_def
      split: if_splits sum.splits prod.splits)

section \<open>From construction to every reachable state\<close>

lemma alloc_bufs_spec:
  assumes "alloc_bufs n lo = (ps, lo')"
  shows "ps = [nextBuf lo..<nextBuf lo + n]
    \<and> lo' = lo\<lparr>lbufs := (\<lambda>p. if p \<in> set ps then Some (newLogBuffer (bufferSize lo)) else lbufs lo p), nextBuf := nextBuf lo + n\<rparr>"
  using assms
proof (induction n arbitrary: lo ps lo')
  case (Suc n)
  let ?l = "lo\<lparr>lbufs := (lbufs lo)(nextBuf lo \<mapsto> newLogBuffer (bufferSize lo)), nextBuf := nextBuf lo + 1\<rparr>"
  obtain qs where q: "alloc_bufs n ?l = (qs, lo')" "ps = nextBuf lo # qs"
    using Suc.prems by (auto simp: alloc_buf_def split: prod.splits)
  have "qs = [nextBuf lo + 1..<nextBuf lo + 1 + n]" using Suc.IH [OF q(1)] by simp
  then have "ps = [nextBuf lo..<nextBuf lo + Suc n]" using q(2) by (simp add: upt_rec)
  moreover have "lo' = lo\<lparr>lbufs := (\<lambda>p. if p \<in> set ps then Some (newLogBuffer (bufferSize lo)) else lbufs lo p),
      nextBuf := nextBuf lo + Suc n\<rparr>"
    using Suc.IH [OF q(1)] q(2) by (simp add: fun_eq_iff) (auto simp: fun_upd_def fun_eq_iff intro!: arg_cong2 [where f = "\<lambda>f n. lo\<lparr>lbufs := f, nextBuf := n\<rparr>"])
  ultimately show ?case by simp
qed simp

lemma NewLogger_inv:
  assumes "NewLogger level (Inr old) num sz = Inr lo"
  shows "log_inv lo" "llevel lo = 0" "bufferSize lo = nat sz" "length (backupBuffers lo) = nat num"
    "logged lo = old" "opened_with lo = old" "fpc lo = FTop"
proof -
  let ?n = "nat num"
  obtain ps lo1 where a: "alloc_bufs ?n \<lparr>lbufs = Map.empty, nextBuf = 0, currentBuffer = 0, backupBuffers = [], fullBuffers = [],
        bufferSize = nat sz, llevel = 0, opened_with = [], fwrites = [], fpc = FTop, broadcasts = 0, logged = []\<rparr> = (ps, lo1)"
    by (metis surj_pair)
  note sp = alloc_bufs_spec [OF a]
  have lo: "lo = \<lparr>lbufs = (\<lambda>p. if p \<in> set [0..<?n] then Some (newLogBuffer (nat sz)) else None)(?n \<mapsto> newLogBuffer (nat sz)),
      nextBuf = ?n + 1, currentBuffer = ?n, backupBuffers = [0..<?n], fullBuffers = [], bufferSize = nat sz,
      llevel = 0, opened_with = old, fwrites = [], fpc = FTop, broadcasts = 0, logged = old\<rparr>"
    using assms a sp by (auto simp: NewLogger_def alloc_buf_def split: if_splits)
  show "llevel lo = 0" "bufferSize lo = nat sz" "length (backupBuffers lo) = ?n" "logged lo = old" "opened_with lo = old" "fpc lo = FTop"
    by (simp_all add: lo)
  show "log_inv lo"
    unfolding log_inv_def
    by (auto simp: lo buf_ptrs_def todo_of_def done_of_def newLogBuffer_def bytes_of_def split: if_splits)
qed

lemma log_reach_inv:
  assumes "log_reach W lo0 lo" "log_inv lo0"
  shows "log_inv lo \<and> llevel lo = llevel lo0 \<and> bufferSize lo = bufferSize lo0 \<and> (\<exists>s. logged lo = logged lo0 @ s)
    \<and> opened_with lo = opened_with lo0"
  using assms
proof (induction rule: log_reach.induct)
  case (log_next lo lo' lo'')
  then have ih: "log_inv lo'" "llevel lo' = llevel lo" "bufferSize lo' = bufferSize lo" "\<exists>s. logged lo' = logged lo @ s" "opened_with lo' = opened_with lo" by auto
  from log_next.hyps(2) show ?case
  proof cases
    case (log_call tv level msg)
    then show ?thesis using ih Logf_inv [OF ih(1) log_call] Logf_opened [OF log_call] by (metis append_assoc)
  next
    case log_flush
    then show ?thesis using flusher_inv [where W = W, OF ih(1)] flusher_opened [OF log_flush] ih by (metis sum.inject(2))
  qed
qed auto

section \<open>Draining\<close>

fun flush_n :: "((string \<times> nat) list \<Rightarrow> string \<Rightarrow> nat) \<Rightarrow> nat \<Rightarrow> logger \<Rightarrow> logger res" where
  "flush_n W 0 lo = Inr lo"
| "flush_n W (Suc n) lo = rbind (flusher_next W lo) (flush_n W n)"

lemma flush_n_add: "flush_n W m lo = Inr lo' \<Longrightarrow> flush_n W (m + n) lo = flush_n W n lo'"
  by (induction m arbitrary: lo) (auto simp: rbind_eq_Inr)

lemma flush_n_opened: "flush_n W n lo = Inr lo' \<Longrightarrow> opened_with lo' = opened_with lo"
  by (induction n arbitrary: lo) (auto simp: rbind_eq_Inr flusher_opened)

text \<open>The buffers in hand are written, in order, and returned.\<close>

lemma flush_writing:
  assumes "log_inv lo" "fpc lo = FWriting todo fin"
  obtains lo' where "flush_n W (length todo + 1) lo = Inr lo'" "log_inv lo'" "fpc lo' = FTop"
    "handed lo' = handed lo @ bytes_of lo todo" "logged lo' = logged lo"
  using assms
proof (induction todo arbitrary: lo fin thesis)
  case Nil
  let ?l = "lo\<lparr>backupBuffers := backupBuffers lo @ fin, fpc := FTop\<rparr>"
  have "flusher_next W lo = Inr ?l" using Nil.prems(3) by (simp add: flusher_next_def)
  then show ?case using Nil.prems(1) [of ?l] return_inv [OF Nil.prems(2,3)] by simp
next
  case (Cons v todo)
  obtain b where b: "lbufs lo v = Some b"
      "flusher_next W lo = Inr (lo\<lparr>fwrites := fwrites lo @ [(ldata b, W (fwrites lo) (ldata b))], lbufs := (lbufs lo)(v \<mapsto> lb_Reset b),
         fpc := FWriting todo (fin @ [v])\<rparr>)"
      "log_inv (lo\<lparr>fwrites := fwrites lo @ [(ldata b, W (fwrites lo) (ldata b))], lbufs := (lbufs lo)(v \<mapsto> lb_Reset b),
         fpc := FWriting todo (fin @ [v])\<rparr>)"
    by (rule write_one_inv [OF Cons.prems(2,3)])
  let ?l = "lo\<lparr>fwrites := fwrites lo @ [(ldata b, W (fwrites lo) (ldata b))], lbufs := (lbufs lo)(v \<mapsto> lb_Reset b), fpc := FWriting todo (fin @ [v])\<rparr>"
  obtain lo' where l: "flush_n W (length todo + 1) ?l = Inr lo'" "log_inv lo'" "fpc lo' = FTop"
      "handed lo' = handed ?l @ bytes_of ?l todo" "logged lo' = logged ?l"
  proof -
    have f: "fpc ?l = FWriting todo (fin @ [v])" by simp
    show thesis by (rule Cons.IH [OF _ b(3) f]) (rule that)
  qed
  have "v \<notin> set todo"
    using log_invD(1) [OF Cons.prems(2)] Cons.prems(3) by (simp add: buf_ptrs_def todo_of_def)
  then have "bytes_of ?l todo = bytes_of lo todo" by (intro bytes_cong) auto
  then show ?case using Cons.prems(1) [of lo'] l b by simp
qed

lemma flush_taken:
  assumes "log_inv lo" "fpc lo \<in> {FTop, FWaiting}" "take_full lo = Inr lo1" "flusher_next W lo = Inr lo1"
  shows "\<exists>n lo'. flush_n W n lo = Inr lo' \<and> handed lo' = logged lo"
proof -
  obtain l todo where l: "take_full lo = Inr l" "log_inv l" "fpc l = FWriting todo []" "handed l = handed lo"
      "logged lo = handed lo @ bytes_of l todo"
    by (rule take_full_inv [OF assms(1,2)])
  obtain lo' where "flush_n W (length todo + 1) l = Inr lo'" "handed lo' = handed l @ bytes_of l todo"
    by (rule flush_writing [OF l(2,3)])
  then show ?thesis using l assms(3,4) by (intro exI [of _ "Suc (length todo + 1)"] exI [of _ lo']) simp
qed

lemma flush_idle:
  assumes "log_inv lo" "fpc lo \<in> {FTop, FWaiting}"
  shows "\<exists>n lo'. flush_n W n lo = Inr lo' \<and> handed lo' = logged lo"
proof -
  obtain b where b: "lbufs lo (currentBuffer lo) = Some b" using current_live [OF assms(1)] by blast
  obtain l where l: "take_full lo = Inr l" using take_full_inv [OF assms(1,2)] by metis
  show ?thesis
  proof (cases "fpc lo = FTop \<and> lb_Empty b")
    case True
    let ?w = "lo\<lparr>fpc := FWaiting\<rparr>"
    have n: "flusher_next W lo = Inr ?w" using True b by (simp add: flusher_next_def deref_buf_def)
    have w: "log_inv ?w" using flusher_inv [where W = W, OF assms(1)] n by (metis sum.inject(2))
    have p: "fpc ?w \<in> {FTop, FWaiting}" by simp
    obtain l' where l': "take_full ?w = Inr l'" by (rule take_full_inv [OF w p])
    then have "flusher_next W ?w = Inr l'" by (simp add: flusher_next_def)
    from flush_taken [OF w p l' this] obtain k lo' where "flush_n W k ?w = Inr lo'" "handed lo' = logged ?w" by blast
    then show ?thesis using n by (intro exI [of _ "Suc k"] exI [of _ lo']) simp
  next
    case False
    then have "flusher_next W lo = Inr l" using assms(2) b l by (auto simp: flusher_next_def deref_buf_def)
    then show ?thesis using flush_taken [where W = W, OF assms(1,2) l] by blast
  qed
qed

section \<open>Properties\<close>

text \<open>Every write of the background goroutine was complete.\<close>

definition all_written :: "logger \<Rightarrow> bool" where
  "all_written lo \<longleftrightarrow> (\<forall>(bs, n) \<in> set (fwrites lo). length bs \<le> n)"

lemma lfile_handed: "all_written lo \<Longrightarrow> lfile lo = handed lo"
  by (auto simp: all_written_def intro!: arg_cong [where f = concat] map_cong)

text \<open>C11. No record is lost, duplicated, reordered or torn on its way to the file: in every interleaving of \<^verbatim>\<open>Logf\<close> calls with the
  background goroutine, starting from \<^verbatim>\<open>NewLogger\<close>, what the file held, followed by everything given to \<^verbatim>\<open>Write\<close>,
  the buffers in the background goroutine's hands, the full buffers and the
  current one, is exactly what was logged, in order. The file itself holds what each \<^verbatim>\<open>Write\<close> accepted: the results are ignored, so a
  short or failed write loses the bytes it did not take, and while every write is complete the file followed by the buffers is exactly what was
  logged. Each buffer has one owner, so none is written to while it is flushed or recycled, and never exceeds its size; the background
  goroutine never panics; and every line that fits a buffer is accepted and appended, at every level from
  \<^verbatim>\<open>DEBUG\<close> on, whatever level the logger was created with.\<close>

theorem log_in_order:
  assumes "NewLogger level (Inr old) num sz = Inr lo0" "log_reach W lo0 lo"
  shows "old @ concat (map fst (fwrites lo)) @ bytes_of lo (todo_of lo @ fullBuffers lo @ [currentBuffer lo]) = logged lo
    \<and> lfile lo = old @ concat (map (\<lambda>(bs, n). take n bs) (fwrites lo))
    \<and> (all_written lo \<longrightarrow> lfile lo @ bytes_of lo (todo_of lo @ fullBuffers lo @ [currentBuffer lo]) = logged lo)
    \<and> distinct (buf_ptrs lo) \<and> (\<forall>p b. lbufs lo p = Some b \<longrightarrow> int (length (ldata b)) \<le> sz)
    \<and> is_ok (flusher_next W lo)
    \<and> (\<forall>ts lvl msg. 0 \<le> lvl \<and> length (log_line ts lvl msg) \<le> bufferSize lo \<longrightarrow>
         (\<exists>lo'. Logf (Inr ts) lvl msg lo = Inr lo' \<and> logged lo' = logged lo @ log_line ts lvl msg))"
proof -
  note new = NewLogger_inv [OF assms(1)]
  have inv: "log_inv lo" "llevel lo = 0" "bufferSize lo = nat sz" "opened_with lo = old"
    using log_reach_inv [OF assms(2) new(1)] new(2,3,6) by auto
  have sz: "0 < sz" using assms(1) by (auto simp: NewLogger_def split: if_splits)
  have ok: "is_ok (flusher_next W lo)" by (rule flusher_inv [where W = W, OF inv(1)]) (simp add: is_ok_iff)
  have line: "\<exists>lo'. Logf (Inr ts) lvl msg lo = Inr lo' \<and> logged lo' = logged lo @ log_line ts lvl msg"
    if "0 \<le> lvl" "length (log_line ts lvl msg) \<le> bufferSize lo" for ts lvl msg
    by (rule Logf_ok [OF inv(1) _ refl that(2)]) (use that(1) inv(2) in auto)
  have "int (length (ldata b)) \<le> sz" if "lbufs lo p = Some b" for p b
    using log_invD(4) [OF inv(1) that] inv(3) sz by linarith
  with log_invD(1,6) [OF inv(1)] ok line inv(4) lfile_handed [of lo] show ?thesis by auto
qed

text \<open>C21. Every record is written: from every reachable state, the background goroutine, left to run
  (its wait ends at the latest by its timeout), gives everything that has been logged to \<^verbatim>\<open>Write\<close>, in order and
  in finitely many steps; if every write is complete, the file then holds exactly what has been logged, and otherwise the part of each write
  that was accepted.\<close>

theorem log_flushed:
  assumes "NewLogger level (Inr old) num sz = Inr lo0" "log_reach W lo0 lo"
  shows "\<exists>n lo'. flush_n W n lo = Inr lo' \<and> old @ concat (map fst (fwrites lo')) = logged lo
    \<and> lfile lo' = old @ concat (map (\<lambda>(bs, n). take n bs) (fwrites lo')) \<and> (all_written lo' \<longrightarrow> lfile lo' = logged lo)"
proof -
  note new = NewLogger_inv [OF assms(1)]
  have inv: "log_inv lo" "opened_with lo = old" using log_reach_inv [OF assms(2) new(1)] new(6) by auto
  have "\<exists>n lo'. flush_n W n lo = Inr lo' \<and> handed lo' = logged lo"
  proof (cases "fpc lo")
    case (FWriting todo fin)
    obtain l where l: "flush_n W (length todo + 1) lo = Inr l" "log_inv l" "fpc l = FTop" "logged l = logged lo"
      by (rule flush_writing [OF inv(1) FWriting])
    obtain n lo' where "flush_n W n l = Inr lo'" "handed lo' = logged l"
      using flush_idle [where W = W, OF l(2)] l(3) by auto
    then show ?thesis using flush_n_add [OF l(1), of n] l(4) by (intro exI [of _ "length todo + 1 + n"] exI [of _ lo']) simp
  qed (use flush_idle [where W = W, OF inv(1)] in auto)
  then obtain n lo' where n: "flush_n W n lo = Inr lo'" "handed lo' = logged lo" by blast
  moreover have "opened_with lo' = old" using flush_n_opened [OF n(1)] inv(2) by simp
  ultimately show ?thesis using lfile_handed [of lo'] by auto
qed

text \<open>Concrete run: two spare buffers of 40 bytes, one line logged.\<close>

lemma sample_log:
  obtains lo0 lo where "NewLogger 3 (Inr []) 2 40 = Inr lo0"
    "log_reach (\<lambda>ws bs. length bs) lo0 lo" "logged lo = ''t DEBUG hi'' @ [CHR 0x0A]"
proof -
  obtain lo0 where lo0: "NewLogger 3 (Inr []) 2 40 = Inr lo0"
    by (simp add: NewLogger_def numeral_2_eq_2 alloc_buf_def)
  note new = NewLogger_inv [OF lo0]
  have len: "length (log_line ''t'' 0 ''hi'') \<le> bufferSize lo0"
    by (simp add: log_line_def level_String_def new(3))
  obtain lo where "Logf (Inr ''t'') 0 ''hi'' lo0 = Inr lo" "logged lo = logged lo0 @ log_line ''t'' 0 ''hi''"
    by (rule Logf_ok [OF new(1) _ refl len]) (use new(2) in auto)
  then show thesis
    using that [OF lo0, of lo] new(5) log_next [OF log_start log_call] by (simp add: log_line_def level_String_def)
qed

theorem log_in_order_witness:
  "\<exists>lo. logged lo = ''t DEBUG hi'' @ [CHR 0x0A] \<and> distinct (buf_ptrs lo)"
proof -
  obtain lo0 lo where "NewLogger 3 (Inr []) 2 40 = Inr lo0" "log_reach (\<lambda>ws bs. length bs) lo0 lo"
      "logged lo = ''t DEBUG hi'' @ [CHR 0x0A]"
    by (rule sample_log)
  with log_in_order [OF this(1,2)] show ?thesis by blast
qed

theorem log_flushed_witness:
  "\<exists>lo n lo'. flush_n (\<lambda>ws bs. length bs) n lo = Inr lo' \<and> concat (map fst (fwrites lo')) = ''t DEBUG hi'' @ [CHR 0x0A]"
proof -
  obtain lo0 lo where "NewLogger 3 (Inr []) 2 40 = Inr lo0" "log_reach (\<lambda>ws bs. length bs) lo0 lo"
      "logged lo = ''t DEBUG hi'' @ [CHR 0x0A]"
    by (rule sample_log)
  with log_flushed [OF this(1,2)] show ?thesis by fastforce
qed

end
