(* ===== verification/Bench_Client.thy ===== *)
theory Bench_Client
  imports Prelude "HOL-Library.Signed_Division"
begin

text \<open>
  The load generator \<^verbatim>\<open>benchmarks/echo-client/main.go\<close>: a number of connections, each with a goroutine that
  sends a message and from then on writes back what it reads, until \<^verbatim>\<open>main\<close> closes a channel and collects the
  counts. What each connection answers is an argument, and so is the order in which the counts arrive.
\<close>

section \<open>The goroutine of a connection\<close>

text \<open>One turn of its loop: \<^verbatim>\<open>closeC\<close> is closed, or \<^verbatim>\<open>Read\<close> returns bytes and an error, and \<^verbatim>\<open>Write\<close>
  answers. When the list of turns ends, the next \<^verbatim>\<open>Read\<close> does not return.\<close>

datatype bench_turn = Closed | Turn "byte list" "errno option" "errno option"

record bench_handler =
  count :: "64 word"
  reqCount :: "64 word"
  conn_writes :: "byte list list"
  result_sent :: "64 word list"
  req_sent :: "64 word list"
  conn_closed :: bool

text \<open>\<open>e\<close> is the error of the first \<^verbatim>\<open>Write\<close>, whose method \<^verbatim>\<open>Error\<close> the loop calls when a later one fails.\<close>

fun bench_loop :: "errno option \<Rightarrow> byte list \<Rightarrow> bench_turn list \<Rightarrow> bench_handler \<Rightarrow> bench_handler res" where
  "bench_loop e buf [] h = Inr h"
| "bench_loop e buf (Closed # ts) h =
     Inr (h\<lparr>result_sent := result_sent h @ [count h], req_sent := req_sent h @ [reqCount h], conn_closed := True\<rparr>)"
| "bench_loop e buf (Turn bs err werr # ts) h =
     (let n = int (length bs);
          buf1 = overlay 0 bs buf;
          h1 = (if n > 0 then h\<lparr>count := count h + word_of_int n, reqCount := reqCount h + 1\<rparr> else h)
      in if err \<noteq> None then Inr (h1\<lparr>result_sent := result_sent h1 @ [count h1], conn_closed := True\<rparr>)
         else rbind (go_slice buf1 0 n) (\<lambda>out.
           let h2 = h1\<lparr>conn_writes := conn_writes h1 @ [out]\<rparr>
           in if werr \<noteq> None \<and> e = None then Inl NilDeref else bench_loop e buf1 ts h2))"

definition bench_goroutine :: "int \<Rightarrow> byte list \<Rightarrow> errno option \<times> bench_turn list \<Rightarrow> bench_handler res" where
  "bench_goroutine msgLen msg run =
     (case run of (e, ts) \<Rightarrow>
        rbind (go_make 0 (2 * msgLen)) (\<lambda>buf.
          bench_loop e buf ts \<lparr>count = 0, reqCount = 0, conn_writes = [msg], result_sent = [], req_sent = [], conn_closed = False\<rparr>))"

section \<open>The program\<close>

fun bench_collect :: "nat \<Rightarrow> 64 word list \<Rightarrow> 64 word list \<Rightarrow> 64 word \<times> 64 word \<Rightarrow> (64 word \<times> 64 word) res" where
  "bench_collect 0 rs qs (tot, req) = Inr (tot, req)"
| "bench_collect (Suc n) (r # rs) (q # qs) (tot, req) = bench_collect n rs qs (tot + r, req + q)"
| "bench_collect (Suc n) rs qs tot = Inl Hang"

definition go_div64 :: "64 word \<Rightarrow> 64 word \<Rightarrow> 64 word res" where
  "go_div64 a b = (if b = 0 then Inl DivideByZero else Inr (word_of_int (sint a sdiv sint b)))"

text \<open>\<^verbatim>\<open>main\<close>: the errors of \<^verbatim>\<open>net.Dial\<close>, the run of each connection, the order of arrival in the two channels.
  A goroutine that panics takes the program with it.\<close>

definition bench_main :: "int \<Rightarrow> 64 word \<Rightarrow> int \<Rightarrow> byte list \<Rightarrow> errno option list \<Rightarrow> (errno option \<times> bench_turn list) list
    \<Rightarrow> (64 word list \<Rightarrow> 64 word list) \<Rightarrow> (64 word list \<Rightarrow> 64 word list) \<Rightarrow> (64 word \<times> 64 word) res" where
  "bench_main num timeOut msgLen msg dials runs arrive_result arrive_req =
     rbind (go_make (0 :: byte) msgLen) (\<lambda>_.
     if num < 0 then Inl (PanicMsg ''makechan: size out of range'')
     else rbind (rmap (\<lambda>err. case err of Some x \<Rightarrow> Inl (PanicErr x) | None \<Rightarrow> Inr ()) dials) (\<lambda>_.
     rbind (rmap (bench_goroutine msgLen msg) runs) (\<lambda>hs.
     rbind (bench_collect (nat num) (arrive_result (concat (map result_sent hs))) (arrive_req (concat (map req_sent hs))) (0, 0))
       (\<lambda>(totalMessagesRead, reqCount).
       rbind (go_div64 totalMessagesRead (timeOut * 1024 * 1024)) (\<lambda>throughput.
       rbind (go_div64 reqCount timeOut) (\<lambda>qps. Inr (throughput, qps)))))))"

section \<open>What a goroutine does\<close>

text \<open>A turn after which the loop goes on; the turns of a run that are such; what ends it.\<close>

fun goes_on :: "bench_turn \<Rightarrow> bool" where
  "goes_on Closed = False"
| "goes_on (Turn bs err werr) \<longleftrightarrow> err = None"

fun read_bytes :: "bench_turn \<Rightarrow> byte list" where
  "read_bytes Closed = []"
| "read_bytes (Turn bs err werr) = bs"

fun write_fails :: "bench_turn \<Rightarrow> bool" where
  "write_fails Closed = False"
| "write_fails (Turn bs err werr) \<longleftrightarrow> err = None \<and> werr \<noteq> None"

definition steps :: "bench_turn list \<Rightarrow> bench_turn list" where
  "steps ts = takeWhile goes_on ts"

definition ends_with :: "bench_turn list \<Rightarrow> bench_turn option" where
  "ends_with ts = (case dropWhile goes_on ts of [] \<Rightarrow> None | t # _ \<Rightarrow> Some t)"

definition taken :: "bench_turn list \<Rightarrow> byte list list" where
  "taken ts = map read_bytes (steps ts)"

definition echo_fails :: "errno option \<times> bench_turn list \<Rightarrow> bool" where
  "echo_fails run \<longleftrightarrow> fst run = None \<and> (\<exists>t \<in> set (steps (snd run)). write_fails t)"

definition told_to_stop :: "errno option \<times> bench_turn list \<Rightarrow> bool" where
  "told_to_stop run \<longleftrightarrow> ends_with (snd run) = Some Closed"

definition short_reads :: "nat \<Rightarrow> bench_turn list \<Rightarrow> bool" where
  "short_reads m ts \<longleftrightarrow> (\<forall>t \<in> set ts. length (read_bytes t) \<le> m)"

definition volume :: "byte list list \<Rightarrow> 64 word" where
  "volume bss = word_of_nat (length (concat bss))"

definition nonempty :: "byte list list \<Rightarrow> 64 word" where
  "nonempty bss = word_of_nat (length (filter (\<lambda>bs. bs \<noteq> []) bss))"

lemma step_simps [simp]:
  "steps [] = []" "steps (Closed # ts) = []" "steps (Turn bs None werr # ts) = Turn bs None werr # steps ts"
  "steps (Turn bs (Some x) werr # ts) = []"
  "ends_with [] = None" "ends_with (Closed # ts) = Some Closed" "ends_with (Turn bs None werr # ts) = ends_with ts"
  "ends_with (Turn bs (Some x) werr # ts) = Some (Turn bs (Some x) werr)"
  by (simp_all add: steps_def ends_with_def)

lemma volume_simps [simp]:
  "volume [] = 0" "volume (bs # bss) = word_of_nat (length bs) + volume bss"
  "nonempty [] = 0" "nonempty (bs # bss) = (if bs = [] then 0 else 1) + nonempty bss"
  by (simp_all add: volume_def nonempty_def)

lemma bench_loop_exact:
  assumes "short_reads (length buf) ts" "result_sent h = []" "req_sent h = []"
  shows "if echo_fails (e, ts) then bench_loop e buf ts h = Inl NilDeref
    else \<exists>h'. bench_loop e buf ts h = Inr h' \<and> conn_writes h' = conn_writes h @ taken ts
      \<and> (case ends_with ts of None \<Rightarrow> result_sent h' = [] \<and> req_sent h' = []
         | Some Closed \<Rightarrow> result_sent h' = [count h + volume (taken ts)] \<and> req_sent h' = [reqCount h + nonempty (taken ts)]
         | Some t \<Rightarrow> result_sent h' = [count h + volume (taken ts @ [read_bytes t])] \<and> req_sent h' = [])"
  using assms
proof (induction ts arbitrary: buf h)
  case (Cons t ts)
  show ?case
  proof (cases t)
    case (Turn bs err werr)
    have len: "length bs \<le> length buf" using Cons.prems(1) by (simp add: short_reads_def Turn)
    then have slice: "go_slice (overlay 0 bs buf) 0 (int (length bs)) = Inr bs"
      using take_overlay_exact [of 0 bs buf] by (simp add: go_slice_ok)
    show ?thesis
    proof (cases err)
      case (Some x)
      with Cons.prems(2,3) Turn show ?thesis by (simp add: echo_fails_def taken_def Let_def volume_def split: if_splits)
    next
      case None
      define h2 where "h2 = (if bs = [] then h else h\<lparr>count := count h + word_of_nat (length bs), reqCount := reqCount h + 1\<rparr>)
          \<lparr>conn_writes := conn_writes h @ [bs]\<rparr>"
      have run: "bench_loop e buf (t # ts) h =
          (if werr \<noteq> None \<and> e = None then Inl NilDeref else bench_loop e (overlay 0 bs buf) ts h2)"
        using None slice Turn by (simp add: Let_def h2_def)
      have "short_reads (length (overlay 0 bs buf)) ts" "result_sent h2 = []" "req_sent h2 = []"
        using Cons.prems by (auto simp: short_reads_def h2_def)
      note IH = Cons.IH [OF this]
      have c: "conn_writes h2 = conn_writes h @ [bs]" "count h2 + v = count h + (word_of_nat (length bs) + v)"
          "reqCount h2 + v = reqCount h + ((if bs = [] then 0 else 1) + v)" for v
        by (simp_all add: h2_def)
      show ?thesis
      proof (cases "werr \<noteq> None \<and> e = None")
        case True
        then show ?thesis using run None Turn by (simp add: echo_fails_def)
      next
        case False
        then have "echo_fails (e, t # ts) = echo_fails (e, ts)" using None Turn by (auto simp: echo_fails_def)
        with IH run False None Turn show ?thesis by (auto simp: taken_def c split: option.splits bench_turn.splits if_splits)
      qed
    qed
  qed (use Cons.prems in \<open>simp add: echo_fails_def taken_def\<close>)
qed (simp add: echo_fails_def taken_def)

section \<open>Collecting the counts\<close>

lemma bench_collect_all:
  "length rs = n \<Longrightarrow> length qs = n \<Longrightarrow> bench_collect n rs qs (a, b) = Inr (a + sum_list rs, b + sum_list qs)"
proof (induction n arbitrary: rs qs a b)
  case (Suc n)
  then show ?case by (cases rs; cases qs) (auto simp: add.assoc)
qed simp

lemma bench_collect_blocks:
  "length rs < n \<or> length qs < n \<Longrightarrow> bench_collect n rs qs (a, b) = Inl Hang"
proof (induction n arbitrary: rs qs a b)
  case (Suc n)
  then show ?case by (cases rs; cases qs) auto
qed simp

lemma arrival:
  assumes "\<forall>xs. mset (f xs) = mset xs"
  shows "length (f xs) = length xs" "sum_list (f xs) = sum_list (xs :: 64 word list)"
  using assms by (metis size_mset, metis sum_mset_sum_list)

lemma volume_append [simp]: "volume (xs @ ys) = volume xs + volume ys" "nonempty (xs @ ys) = nonempty xs + nonempty ys"
  by (simp_all add: volume_def nonempty_def)

text \<open>What a goroutine sends on the two channels, when it does not panic.\<close>

lemma bench_goroutine_exact:
  assumes "0 \<le> msgLen" "short_reads (nat (2 * msgLen)) (snd run)"
  shows "if echo_fails run then bench_goroutine msgLen msg run = Inl NilDeref
    else \<exists>h. bench_goroutine msgLen msg run = Inr h \<and> conn_writes h = msg # taken (snd run)
      \<and> length (result_sent h) \<le> 1 \<and> length (req_sent h) \<le> 1
      \<and> (if told_to_stop run then result_sent h = [volume (taken (snd run))] \<and> req_sent h = [nonempty (taken (snd run))]
         else req_sent h = [])"
proof -
  obtain e ts where run: "run = (e, ts)" by (cases run)
  let ?h = "\<lparr>count = 0, reqCount = 0, conn_writes = [msg], result_sent = [], req_sent = [], conn_closed = False\<rparr> :: bench_handler"
  have g: "bench_goroutine msgLen msg run = bench_loop e (replicate (nat (2 * msgLen)) 0) ts ?h"
    using assms(1) by (simp add: bench_goroutine_def run go_make_ok)
  note x = bench_loop_exact [of "replicate (nat (2 * msgLen)) 0" ts ?h e]
  show ?thesis
  proof (cases "echo_fails run")
    case True
    with g x assms(2) show ?thesis by (simp add: run)
  next
    case False
    with x assms(2) obtain h where h: "bench_loop e (replicate (nat (2 * msgLen)) 0) ts ?h = Inr h" "conn_writes h = msg # taken ts"
      and k: "case ends_with ts of None \<Rightarrow> result_sent h = [] \<and> req_sent h = []
         | Some Closed \<Rightarrow> result_sent h = [count ?h + volume (taken ts)] \<and> req_sent h = [reqCount ?h + nonempty (taken ts)]
         | Some t \<Rightarrow> result_sent h = [count ?h + volume (taken ts @ [read_bytes t])] \<and> req_sent h = []"
      by (auto simp: run)
    have "length (result_sent h) \<le> 1 \<and> length (req_sent h) \<le> 1
      \<and> (if told_to_stop run then result_sent h = [volume (taken ts)] \<and> req_sent h = [nonempty (taken ts)] else req_sent h = [])"
      using k by (auto simp: run told_to_stop_def split: option.splits bench_turn.splits)
    with False g h show ?thesis by (simp add: run)
  qed
qed

lemma goroutines_stopped:
  assumes "\<forall>run \<in> set runs. \<exists>h. g run = Inr h \<and> result_sent h = [volume (taken (snd run))] \<and> req_sent h = [nonempty (taken (snd run))]"
  shows "\<exists>hs. rmap g runs = Inr hs \<and> length (concat (map result_sent hs)) = length runs
    \<and> length (concat (map req_sent hs)) = length runs
    \<and> sum_list (concat (map result_sent hs)) = volume (concat (map (taken \<circ> snd) runs))
    \<and> sum_list (concat (map req_sent hs)) = nonempty (concat (map (taken \<circ> snd) runs))"
  using assms
proof (induction runs)
  case (Cons run runs)
  from Cons.prems obtain h where h: "g run = Inr h" "result_sent h = [volume (taken (snd run))]" "req_sent h = [nonempty (taken (snd run))]"
    by auto
  from Cons.prems have "\<forall>run \<in> set runs. \<exists>h. g run = Inr h \<and> result_sent h = [volume (taken (snd run))] \<and> req_sent h = [nonempty (taken (snd run))]"
    by simp
  from Cons.IH [OF this] h show ?case by (elim exE conjE) simp
qed simp

lemma goroutine_missing:
  assumes "\<forall>run \<in> set runs. \<exists>h. g run = Inr h \<and> length (req_sent h) \<le> 1 \<and> (P run \<longrightarrow> req_sent h = [])" "\<exists>run \<in> set runs. P run"
  shows "\<exists>hs. rmap g runs = Inr hs \<and> length (concat (map req_sent hs)) < length runs"
proof -
  define k where "k = (\<lambda>run. projr (g run))"
  have g: "g run = Inr (k run)" "length (req_sent (k run)) \<le> 1" "P run \<Longrightarrow> req_sent (k run) = []" if "run \<in> set runs" for run
    using assms(1) that by (auto simp: k_def)
  from assms(2) obtain run where run: "run \<in> set runs" "P run" by blast
  have "length (concat (map req_sent (map k runs))) = (\<Sum>run \<leftarrow> runs. length (req_sent (k run)))"
    by (simp add: length_concat comp_def)
  also have "\<dots> < (\<Sum>run \<leftarrow> runs. 1)" using run g
  proof (induction runs)
    case (Cons r runs)
    have le: "(\<Sum>run \<leftarrow> runs. length (req_sent (k run))) \<le> (\<Sum>run \<leftarrow> runs. 1)"
      by (rule sum_list_mono) (use Cons.prems(4) in auto)
    show ?case
    proof (cases "run = r")
      case True
      with le Cons.prems(2,5) show ?thesis by simp
    next
      case False
      with Cons have "(\<Sum>run \<leftarrow> runs. length (req_sent (k run))) < (\<Sum>run \<leftarrow> runs. 1)" by auto
      with Cons.prems(4) [of r] show ?thesis by simp
    qed
  qed simp
  also have "\<dots> = length runs" by (simp add: sum_list_triv)
  finally show ?thesis using rmap_map [of runs g k] g(1) by auto
qed

section \<open>Properties\<close>

text \<open>C26. What the load generator reports. Each connection writes the message and then exactly what it reads, up to its last turn.
  When every goroutine is told to stop, and the timeout is not 0 modulo \<open>2 ^ 44\<close>, \<^verbatim>\<open>main\<close> prints the bytes read and the
  number of reads that returned some, summed modulo \<open>2 ^ 64\<close> over the connections in whatever order the counts arrive, divided
  by the time. One failed echo after a successful first write panics (the error printed is that of the
  first write, which is nil), and one connection whose read fails, or never returns, keeps \<^verbatim>\<open>main\<close> waiting for ever, since only the goroutines that
  are told to stop send the second count.\<close>

theorem bench_client_exact:
  assumes "0 \<le> msgLen" "dials = replicate (length runs) None" "\<forall>run \<in> set runs. short_reads (nat (2 * msgLen)) (snd run)"
    "\<forall>xs. mset (arrive_result xs) = mset xs" "\<forall>xs. mset (arrive_req xs) = mset xs"
  shows "bench_main (int (length runs)) timeOut msgLen msg dials runs arrive_result arrive_req =
     (if \<exists>run \<in> set runs. echo_fails run then Inl NilDeref
      else if \<exists>run \<in> set runs. \<not> told_to_stop run then Inl Hang
      else if timeOut * 1024 * 1024 = 0 then Inl DivideByZero
      else let reads = concat (map (taken \<circ> snd) runs)
        in Inr (word_of_int (sint (word_of_nat (length (concat reads)) :: 64 word) sdiv sint (timeOut * 1024 * 1024)),
             word_of_int (sint (word_of_nat (length (filter (\<lambda>bs. bs \<noteq> []) reads)) :: 64 word) sdiv sint timeOut)))
   \<and> (\<forall>run \<in> set runs. if echo_fails run then bench_goroutine msgLen msg run = Inl NilDeref
      else \<exists>h. bench_goroutine msgLen msg run = Inr h \<and> conn_writes h = msg # taken (snd run))"
proof -
  let ?g = "bench_goroutine msgLen msg"
  have each: "if echo_fails run then ?g run = Inl NilDeref
    else \<exists>h. ?g run = Inr h \<and> conn_writes h = msg # taken (snd run) \<and> length (result_sent h) \<le> 1 \<and> length (req_sent h) \<le> 1
      \<and> (if told_to_stop run then result_sent h = [volume (taken (snd run))] \<and> req_sent h = [nonempty (taken (snd run))]
         else req_sent h = [])" if "run \<in> set runs" for run
    by (rule bench_goroutine_exact [OF assms(1)]) (use assms(3) that in blast)
  have dials: "\<exists>us. rmap (\<lambda>err. case err of Some x \<Rightarrow> Inl (PanicErr x) | None \<Rightarrow> Inr ()) dials = Inr us"
    using rmap_map [of dials "\<lambda>err. case err of Some x \<Rightarrow> Inl (PanicErr x) | None \<Rightarrow> Inr ()" "\<lambda>_. ()"] assms(2) by simp
  have main: "bench_main (int (length runs)) timeOut msgLen msg dials runs arrive_result arrive_req =
     rbind (rmap ?g runs) (\<lambda>hs.
     rbind (bench_collect (length runs) (arrive_result (concat (map result_sent hs))) (arrive_req (concat (map req_sent hs))) (0, 0))
       (\<lambda>(tot, req). rbind (go_div64 tot (timeOut * 1024 * 1024)) (\<lambda>throughput.
         rbind (go_div64 req timeOut) (\<lambda>qps. Inr (throughput, qps)))))"
    using assms(1) dials by (auto simp: bench_main_def go_make_ok)
  consider (panic) "\<exists>run \<in> set runs. echo_fails run"
    | (wait) "\<forall>run \<in> set runs. \<not> echo_fails run" "\<exists>run \<in> set runs. \<not> told_to_stop run"
    | (ends) "\<forall>run \<in> set runs. \<not> echo_fails run" "\<forall>run \<in> set runs. told_to_stop run" by blast
  then have "bench_main (int (length runs)) timeOut msgLen msg dials runs arrive_result arrive_req =
     (if \<exists>run \<in> set runs. echo_fails run then Inl NilDeref
      else if \<exists>run \<in> set runs. \<not> told_to_stop run then Inl Hang
      else if timeOut * 1024 * 1024 = 0 then Inl DivideByZero
      else let reads = concat (map (taken \<circ> snd) runs)
        in Inr (word_of_int (sint (volume reads) sdiv sint (timeOut * 1024 * 1024)),
             word_of_int (sint (nonempty reads) sdiv sint timeOut)))"
  proof cases
    case panic
    then obtain run where "run \<in> set runs" "?g run = Inl NilDeref" using each by metis
    then have "\<not> is_ok (rmap ?g runs)" unfolding is_ok_rmap by force
    then obtain e where e: "rmap ?g runs = Inl e" by (cases "rmap ?g runs") auto
    then obtain run where "run \<in> set runs" "?g run = Inl e" using rmap_Inl by blast
    with each [OF this(1)] have "e = NilDeref" by (auto split: if_splits)
    with panic main e show ?thesis by simp
  next
    case wait
    have "\<forall>run \<in> set runs. \<exists>h. ?g run = Inr h \<and> length (req_sent h) \<le> 1 \<and> (\<not> told_to_stop run \<longrightarrow> req_sent h = [])"
      using wait(1) each by fastforce
    from goroutine_missing [OF this wait(2)] obtain hs where "rmap ?g runs = Inr hs" "length (concat (map req_sent hs)) < length runs"
      by blast
    then show ?thesis using wait main bench_collect_blocks [of _ "length runs"] arrival(1) [OF assms(5)] by auto
  next
    case ends
    have "\<forall>run \<in> set runs. \<exists>h. ?g run = Inr h \<and> result_sent h = [volume (taken (snd run))] \<and> req_sent h = [nonempty (taken (snd run))]"
      using ends each by fastforce
    from goroutines_stopped [OF this] obtain hs where "rmap ?g runs = Inr hs" "length (concat (map result_sent hs)) = length runs"
      "length (concat (map req_sent hs)) = length runs"
      "sum_list (concat (map result_sent hs)) = volume (concat (map (taken \<circ> snd) runs))"
      "sum_list (concat (map req_sent hs)) = nonempty (concat (map (taken \<circ> snd) runs))" by blast
    then show ?thesis using ends main bench_collect_all [of _ "length runs"] arrival [OF assms(4)] arrival [OF assms(5)]
      by (auto simp: go_div64_def Let_def)
  qed
  note this [unfolded volume_def nonempty_def]
  moreover have "if echo_fails run then ?g run = Inl NilDeref
      else \<exists>h. ?g run = Inr h \<and> conn_writes h = msg # taken (snd run)" if "run \<in> set runs" for run
    using each [OF that] by (auto split: if_splits)
  ultimately show ?thesis by blast
qed

text \<open>Concrete runs: two connections that are told to stop after one and two reads; one whose read fails; one whose
  second echo fails.\<close>

theorem bench_client_exact_witness:
  "bench_main 2 1 4 [1, 2, 3, 4] [None, None]
      [(None, [Turn [1, 2, 3, 4] None None, Closed]), (None, [Turn [1] None None, Turn [2, 3, 4] None None, Closed])] rev id
     = Inr (0, 3)
   \<and> bench_main 1 1 4 [1, 2, 3, 4] [None] [(None, [Turn [] (Some 104) None])] id id = Inl Hang
   \<and> bench_main 1 1 4 [1, 2, 3, 4] [None] [(None, [Turn [1] None (Some 32)])] id id = Inl NilDeref"
proof -
  let ?r = "[(None, [Turn [1, 2, 3, 4] None None, Closed]), (None, [Turn [1] None None, Turn [2, 3, 4] None None, Closed])]"
  note d = short_reads_def echo_fails_def told_to_stop_def taken_def
  have "bench_main (int (length ?r)) 1 4 [1, 2, 3, 4] [None, None] ?r rev id = Inr (0, 3)"
    using bench_client_exact [of 4 "[None, None]" ?r rev id 1 "[1, 2, 3, 4]"] by (simp add: d)
  moreover have "bench_main (int 1) 1 4 [1, 2, 3, 4] [None] [(None, [Turn [] (Some 104) None])] id id = Inl Hang"
    using bench_client_exact [of 4 "[None]" "[(None, [Turn [] (Some 104) None])]" id id 1 "[1, 2, 3, 4]"] by (simp add: d)
  moreover have "bench_main (int 1) 1 4 [1, 2, 3, 4] [None] [(None, [Turn [1] None (Some 32)])] id id = Inl NilDeref"
    using bench_client_exact [of 4 "[None]" "[(None, [Turn [1] None (Some 32)])]" id id 1 "[1, 2, 3, 4]"] by (simp add: d)
  ultimately show ?thesis by simp
qed

end
