(* ===== verification/Chess_Board.thy ===== *)
theory Chess_Board
  imports Prelude
begin

text \<open>
  The board of the chess example (\<^verbatim>\<open>backend/common_packets/chess.go\<close>) and the rules of movement
  (\<^verbatim>\<open>backend/tools/chess.go\<close>). A table is an array of 90 points, the point \<open>(x, y)\<close> at index
  \<open>9 y + x\<close>; \<^const>\<open>None\<close> is the \<^verbatim>\<open>nil\<close> of an empty point, and an index outside the array is a
  panic. \<^verbatim>\<open>DoMove\<close> mutates the table through its pointer: here it returns the table with its two
  results. \<^verbatim>\<open>PieceType\<close> and \<^verbatim>\<open>GameSide\<close> are integers in Go; \<open>PieceTypeOther\<close> and \<open>GameSideOther\<close>
  stand for the values that no constant names.
\<close>

section \<open>Tables\<close>

datatype PieceType = PieceTypeChe | PieceTypeMa | PieceTypeXiang | PieceTypeShi | PieceTypeShuai
  | PieceTypePao | PieceTypeBing | PieceTypeOther int

datatype GameSide = GameSideRed | GameSideBlack | GameSideOther int

record ChessPoint =
  PX :: int
  PY :: int
  PType :: PieceType
  PSide :: GameSide

type_synonym ChessTable = "ChessPoint option list"

definition ct_get :: "ChessTable \<Rightarrow> int \<Rightarrow> ChessPoint option res" where
  "ct_get ct i = (if 0 \<le> i \<and> i < int (length ct) then Inr (ct ! nat i) else Inl IndexRange)"

definition ct_set :: "ChessTable \<Rightarrow> int \<Rightarrow> ChessPoint option \<Rightarrow> ChessTable res" where
  "ct_set ct i p = (if 0 \<le> i \<and> i < int (length ct) then Inr (ct[nat i := p]) else Inl IndexRange)"

definition ClearPoint :: "int \<Rightarrow> int \<Rightarrow> ChessTable \<Rightarrow> ChessTable res" where
  "ClearPoint x y ct = ct_set ct (y * 9 + x) None"

definition SetPoint :: "int \<Rightarrow> int \<Rightarrow> GameSide \<Rightarrow> PieceType \<Rightarrow> ChessTable
    \<Rightarrow> (ChessPoint option \<times> ChessTable) res" where
  "SetPoint x y side piece ct =
     rbind (ct_get ct (y * 9 + x)) (\<lambda>former.
     rbind (ct_set ct (y * 9 + x) (Some \<lparr>PX = x, PY = y, PType = piece, PSide = side\<rparr>)) (\<lambda>ct1.
       Inr (former, ct1)))"

definition GetPoint :: "int \<Rightarrow> int \<Rightarrow> ChessTable \<Rightarrow> ChessPoint option res" where
  "GetPoint x y ct =
     rbind (ct_get ct (y * 9 + x)) (\<lambda>p.
       Inr (case p of None \<Rightarrow> None
            | Some p \<Rightarrow> Some \<lparr>PX = x, PY = y, PType = PType p, PSide = PSide p\<rparr>))"

definition default_layout :: "(int \<times> int \<times> GameSide \<times> PieceType) list" where
  "default_layout =
    [(0, 0, GameSideRed, PieceTypeChe), (1, 0, GameSideRed, PieceTypeMa),
     (2, 0, GameSideRed, PieceTypeXiang), (3, 0, GameSideRed, PieceTypeShi),
     (4, 0, GameSideRed, PieceTypeShuai), (5, 0, GameSideRed, PieceTypeShi),
     (6, 0, GameSideRed, PieceTypeXiang), (7, 0, GameSideRed, PieceTypeMa),
     (8, 0, GameSideRed, PieceTypeChe), (1, 2, GameSideRed, PieceTypePao),
     (7, 2, GameSideRed, PieceTypePao), (0, 3, GameSideRed, PieceTypeBing),
     (2, 3, GameSideRed, PieceTypeBing), (4, 3, GameSideRed, PieceTypeBing),
     (6, 3, GameSideRed, PieceTypeBing), (8, 3, GameSideRed, PieceTypeBing),
     (0, 9, GameSideBlack, PieceTypeChe), (1, 9, GameSideBlack, PieceTypeMa),
     (2, 9, GameSideBlack, PieceTypeXiang), (3, 9, GameSideBlack, PieceTypeShi),
     (4, 9, GameSideBlack, PieceTypeShuai), (5, 9, GameSideBlack, PieceTypeShi),
     (6, 9, GameSideBlack, PieceTypeXiang), (7, 9, GameSideBlack, PieceTypeMa),
     (8, 9, GameSideBlack, PieceTypeChe), (1, 7, GameSideBlack, PieceTypePao),
     (7, 7, GameSideBlack, PieceTypePao), (0, 6, GameSideBlack, PieceTypeBing),
     (2, 6, GameSideBlack, PieceTypeBing), (4, 6, GameSideBlack, PieceTypeBing),
     (6, 6, GameSideBlack, PieceTypeBing), (8, 6, GameSideBlack, PieceTypeBing)]"

definition NewDefaultChessTable :: "ChessTable res" where
  "NewDefaultChessTable =
     rfold (\<lambda>(x, y, side, piece) ct. rbind (SetPoint x y side piece ct) (\<lambda>(former, ct1). Inr ct1))
       default_layout (replicate 90 None)"

section \<open>Geometry\<close>

definition isCrossedRiver :: "GameSide \<Rightarrow> int \<Rightarrow> int \<Rightarrow> bool" where
  "isCrossedRiver side x y = (if side = GameSideRed then y \<ge> 5 else y \<le> 4)"

definition pointMatch :: "int \<Rightarrow> int \<Rightarrow> int \<Rightarrow> int \<Rightarrow> bool" where
  "pointMatch x1 y1 x2 y2 \<longleftrightarrow> x1 = x2 \<and> y1 = y2"

definition isPointCrossRange :: "int \<Rightarrow> int \<Rightarrow> bool" where
  "isPointCrossRange x y \<longleftrightarrow> x > 8 \<or> y > 9 \<or> x < 0 \<or> y < 0"

definition isSameLine :: "int \<Rightarrow> int \<Rightarrow> int \<Rightarrow> int \<Rightarrow> bool" where
  "isSameLine x1 y1 x2 y2 \<longleftrightarrow> x1 = x2 \<or> y1 = y2"

text \<open>\<^verbatim>\<open>for i := lo; i < hi; i++ { if get(i) != nil { return true } }\<close>\<close>

function scan_line :: "(int \<Rightarrow> ChessPoint option res) \<Rightarrow> int \<Rightarrow> int \<Rightarrow> bool res" where
  "scan_line get lo hi =
     (if lo < hi
      then rbind (get lo) (\<lambda>p. if p \<noteq> None then Inr True else scan_line get (lo + 1) hi)
      else Inr False)"
  by auto
termination by (relation "measure (\<lambda>(get, lo, hi). nat (hi - lo))") auto

declare scan_line.simps [simp del]

definition hasChessBetweenTwoPoints :: "ChessTable \<Rightarrow> int \<Rightarrow> int \<Rightarrow> int \<Rightarrow> int \<Rightarrow> bool res" where
  "hasChessBetweenTwoPoints table x1 y1 x2 y2 =
     (if x1 = x2 then
        (case (if y1 < y2 then (y1, y2) else (y2, y1)) of (yMin, yMax) \<Rightarrow>
           scan_line (\<lambda>y0. GetPoint x1 y0 table) (yMin + 1) yMax)
      else
        (case (if x1 < x2 then (x1, x2) else (x2, x1)) of (xMin, xMax) \<Rightarrow>
           scan_line (\<lambda>x0. GetPoint x0 y1 table) (xMin + 1) xMax))"

section \<open>Moves\<close>

text \<open>The result of \<^verbatim>\<open>DoMove\<close>: the table, \<^verbatim>\<open>gameover\<close> and \<^verbatim>\<open>moveok\<close>.\<close>

type_synonym move_res = "(ChessTable \<times> bool \<times> bool) res"

abbreviation (input) refuse :: "ChessTable \<Rightarrow> move_res" where
  "refuse table \<equiv> Inr (table, False, False)"

text \<open>The last lines of each case: clear the source, set the target, and the game is over when a
  \<^verbatim>\<open>Shuai\<close> was there.\<close>

definition put_piece :: "GameSide \<Rightarrow> PieceType \<Rightarrow> int \<Rightarrow> int \<Rightarrow> int \<Rightarrow> int \<Rightarrow> ChessTable \<Rightarrow> move_res" where
  "put_piece side piece fromX fromY toX toY table =
     rbind (ClearPoint fromX fromY table) (\<lambda>t1.
     rbind (SetPoint toX toY side piece t1) (\<lambda>(pre, t2).
       Inr (t2, (case pre of None \<Rightarrow> False | Some p \<Rightarrow> PType p = PieceTypeShuai), True)))"

definition move_Bing :: "GameSide \<Rightarrow> ChessTable \<Rightarrow> ChessPoint \<Rightarrow> int \<Rightarrow> int \<Rightarrow> move_res" where
  "move_Bing side table from toX toY =
     (let backward = (if side = GameSideRed then PY from > toY else PY from < toY);
          done = put_piece side PieceTypeBing (PX from) (PY from) toX toY table
      in if isCrossedRiver side (PX from) (PY from) then
           (if \<not> pointMatch toX toY (PX from + 1) (PY from) \<and> \<not> pointMatch toX toY (PX from) (PY from + 1)
               \<and> \<not> pointMatch toX toY (PX from - 1) (PY from) \<and> \<not> pointMatch toX toY (PX from) (PY from - 1)
            then refuse table
            else if backward then refuse table else done)
         else
           (if \<not> pointMatch toX toY (PX from) (PY from + 1) \<and> \<not> pointMatch toX toY (PX from) (PY from - 1)
            then refuse table
            else if backward then refuse table else done))"

definition move_Pao :: "GameSide \<Rightarrow> ChessTable \<Rightarrow> ChessPoint \<Rightarrow> int \<Rightarrow> int \<Rightarrow> move_res" where
  "move_Pao side table from toX toY =
     (if \<not> isSameLine (PX from) (PY from) toX toY then refuse table
      else
        rbind (hasChessBetweenTwoPoints table (PX from) (PY from) toX toY) (\<lambda>between.
        rbind (GetPoint toX toY table) (\<lambda>to.
          if \<not> between then
            (if to \<noteq> None then refuse table
             else put_piece side PieceTypePao (PX from) (PY from) toX toY table)
          else
            (case to of
               None \<Rightarrow> Inl NilDeref
             | Some p \<Rightarrow>
                 if PSide p = side then refuse table
                 else put_piece side PieceTypePao (PX from) (PY from) toX toY table))))"

definition move_Che :: "GameSide \<Rightarrow> ChessTable \<Rightarrow> ChessPoint \<Rightarrow> int \<Rightarrow> int \<Rightarrow> move_res" where
  "move_Che side table from toX toY =
     (if \<not> isSameLine (PX from) (PY from) toX toY then refuse table
      else
        rbind (hasChessBetweenTwoPoints table (PX from) (PY from) toX toY) (\<lambda>between.
          if between then refuse table
          else
            rbind (GetPoint toX toY table) (\<lambda>to.
              if (case to of None \<Rightarrow> False | Some p \<Rightarrow> PSide p = side) then refuse table
              else put_piece side PieceTypeChe (PX from) (PY from) toX toY table)))"

definition move_Ma :: "GameSide \<Rightarrow> ChessTable \<Rightarrow> ChessPoint \<Rightarrow> int \<Rightarrow> int \<Rightarrow> move_res" where
  "move_Ma side table from toX toY =
     (let x = PX from; y = PY from
      in if \<not> pointMatch toX toY (x + 1) (y + 2) \<and> \<not> pointMatch toX toY (x + 1) (y - 2)
          \<and> \<not> pointMatch toX toY (x + 2) (y + 1) \<and> \<not> pointMatch toX toY (x + 2) (y - 1)
          \<and> \<not> pointMatch toX toY (x - 2) (y + 1) \<and> \<not> pointMatch toX toY (x - 2) (y - 1)
          \<and> \<not> pointMatch toX toY (x - 1) (y + 2) \<and> \<not> pointMatch toX toY (x - 1) (y - 2)
         then refuse table
         else
           (let p0 = (0, 0);
                p1 = (if x - toX = - 2 then (x + 1, y) else p0);
                p2 = (if x - toX = 2 then (x - 1, y) else p1);
                p3 = (if y - toY = - 2 then (x, y + 1) else p2);
                p4 = (if y - toY = 2 then (x, y - 1) else p3)
            in rbind (GetPoint (fst p4) (snd p4) table) (\<lambda>leg.
                 if leg \<noteq> None then refuse table
                 else put_piece side PieceTypeMa x y toX toY table)))"

definition move_Xiang :: "GameSide \<Rightarrow> ChessTable \<Rightarrow> ChessPoint \<Rightarrow> int \<Rightarrow> int \<Rightarrow> move_res" where
  "move_Xiang side table from toX toY =
     (let x = PX from; y = PY from
      in if \<not> pointMatch toX toY (x + 2) (y + 2) \<and> \<not> pointMatch toX toY (x + 2) (y - 2)
          \<and> \<not> pointMatch toX toY (x - 2) (y + 2) \<and> \<not> pointMatch toX toY (x - 2) (y - 2)
         then refuse table
         else if isCrossedRiver side toX toY then refuse table
         else
           (let diffX = x - toX; diffY = y - toY;
                pX1 = (if diffX = - 2 then x + 1 else x); pX2 = (if diffX = 2 then pX1 - 1 else pX1);
                pY1 = (if diffY = - 2 then y + 1 else y); pY2 = (if diffY = 2 then pY1 - 1 else pY1)
            in rbind (GetPoint pX2 pY2 table) (\<lambda>eye.
                 if eye \<noteq> None then refuse table
                 else put_piece side PieceTypeXiang x y toX toY table)))"

definition move_Shi :: "GameSide \<Rightarrow> ChessTable \<Rightarrow> ChessPoint \<Rightarrow> int \<Rightarrow> int \<Rightarrow> move_res" where
  "move_Shi side table from toX toY =
     (if (if side = GameSideRed
          then \<not> pointMatch toX toY 3 0 \<and> \<not> pointMatch toX toY 5 0 \<and> \<not> pointMatch toX toY 4 1
             \<and> \<not> pointMatch toX toY 3 2 \<and> \<not> pointMatch toX toY 5 2
          else \<not> pointMatch toX toY 3 9 \<and> \<not> pointMatch toX toY 5 9 \<and> \<not> pointMatch toX toY 4 8
             \<and> \<not> pointMatch toX toY 3 7 \<and> \<not> pointMatch toX toY 5 7)
      then refuse table
      else
        (let diffX = PX from - toX; diffY = PY from - toY
         in if diffX > 1 \<or> diffX < - 1 then refuse table
            else if diffY > 1 \<or> diffY < - 1 then refuse table
            else put_piece side PieceTypeShi (PX from) (PY from) toX toY table))"

text \<open>The absolute values of \<^verbatim>\<open>math.Abs\<close> are exact: the coordinates are between 0 and 9.\<close>

definition move_Shuai :: "GameSide \<Rightarrow> ChessTable \<Rightarrow> ChessPoint \<Rightarrow> int \<Rightarrow> int \<Rightarrow> move_res" where
  "move_Shuai side table from toX toY =
     rbind (GetPoint toX toY table) (\<lambda>to.
     rbind (if (case to of None \<Rightarrow> False | Some p \<Rightarrow> PType p = PieceTypeShuai)
               \<and> isSameLine (PX from) (PY from) toX toY
            then hasChessBetweenTwoPoints table (PX from) (PY from) toX toY else Inr True) (\<lambda>blocked.
       if \<not> blocked then
         rbind (put_piece side PieceTypeShuai (PX from) (PY from) toX toY table) (\<lambda>(t1, over, ok).
           Inr (t1, True, True))
       else if (if side = GameSideRed then toX < 3 \<or> toX > 5 \<or> toY > 2 else toX < 3 \<or> toX > 5 \<or> toY < 7)
       then refuse table
       else if \<bar>PX from - toX\<bar> + \<bar>PY from - toY\<bar> \<noteq> 1 then refuse table
       else if (case to of None \<Rightarrow> False | Some p \<Rightarrow> PSide p = side) then refuse table
       else
         rbind (put_piece side PieceTypeShuai (PX from) (PY from) toX toY table) (\<lambda>(t1, over, ok).
           Inr (t1, False, True))))"

definition DoMove :: "GameSide \<Rightarrow> ChessTable \<Rightarrow> int \<Rightarrow> int \<Rightarrow> int \<Rightarrow> int \<Rightarrow> move_res" where
  "DoMove side table fromX fromY toX toY =
     (if isPointCrossRange fromX fromY \<or> isPointCrossRange toX toY then refuse table
      else
        rbind (GetPoint fromX fromY table) (\<lambda>from.
        (case from of
           None \<Rightarrow> refuse table
         | Some from \<Rightarrow>
             if PSide from \<noteq> side then refuse table
             else if PX from = toX \<and> PY from = toY then refuse table
             else
               (case PType from of
                  PieceTypeBing \<Rightarrow> move_Bing side table from toX toY
                | PieceTypePao \<Rightarrow> move_Pao side table from toX toY
                | PieceTypeChe \<Rightarrow> move_Che side table from toX toY
                | PieceTypeMa \<Rightarrow> move_Ma side table from toX toY
                | PieceTypeXiang \<Rightarrow> move_Xiang side table from toX toY
                | PieceTypeShi \<Rightarrow> move_Shi side table from toX toY
                | PieceTypeShuai \<Rightarrow> move_Shuai side table from toX toY
                | PieceTypeOther i \<Rightarrow> refuse table))))"

section \<open>The rules, stated on points\<close>

definition on_board :: "int \<Rightarrow> int \<Rightarrow> bool" where
  "on_board x y \<longleftrightarrow> 0 \<le> x \<and> x \<le> 8 \<and> 0 \<le> y \<and> y \<le> 9"

definition idx :: "int \<Rightarrow> int \<Rightarrow> nat" where
  "idx x y = nat (y * 9 + x)"

definition at :: "ChessTable \<Rightarrow> int \<Rightarrow> int \<Rightarrow> ChessPoint option" where
  "at t x y = t ! idx x y"

definition own_half :: "GameSide \<Rightarrow> int \<Rightarrow> bool" where
  "own_half side y \<longleftrightarrow> (if side = GameSideRed then y \<le> 4 else 5 \<le> y)"

definition palace :: "GameSide \<Rightarrow> int \<Rightarrow> int \<Rightarrow> bool" where
  "palace side x y \<longleftrightarrow> 3 \<le> x \<and> x \<le> 5 \<and> (if side = GameSideRed then y \<le> 2 else 7 \<le> y)"

text \<open>A piece stands strictly between two points of a line.\<close>

definition blocked :: "ChessTable \<Rightarrow> int \<Rightarrow> int \<Rightarrow> int \<Rightarrow> int \<Rightarrow> bool" where
  "blocked t fx fy tx ty \<longleftrightarrow>
     (if fx = tx then \<exists>y \<in> {min fy ty<..<max fy ty}. at t fx y \<noteq> None
      else \<exists>x \<in> {min fx tx<..<max fx tx}. at t x fy \<noteq> None)"

definition friend :: "ChessTable \<Rightarrow> GameSide \<Rightarrow> int \<Rightarrow> int \<Rightarrow> bool" where
  "friend t side x y \<longleftrightarrow> (case at t x y of None \<Rightarrow> False | Some p \<Rightarrow> PSide p = side)"

definition shuai_at :: "ChessTable \<Rightarrow> int \<Rightarrow> int \<Rightarrow> bool" where
  "shuai_at t x y \<longleftrightarrow> (case at t x y of None \<Rightarrow> False | Some p \<Rightarrow> PType p = PieceTypeShuai)"

text \<open>The movement of each piece: by which vectors, over which empty points, onto what.\<close>

fun may_move :: "PieceType \<Rightarrow> GameSide \<Rightarrow> ChessTable \<Rightarrow> int \<Rightarrow> int \<Rightarrow> int \<Rightarrow> int \<Rightarrow> bool" where
  "may_move PieceTypeBing side t fx fy tx ty \<longleftrightarrow>
     \<bar>tx - fx\<bar> + \<bar>ty - fy\<bar> = 1 \<and> (if side = GameSideRed then fy \<le> ty else ty \<le> fy)
     \<and> (own_half side fy \<longrightarrow> tx = fx)"
| "may_move PieceTypePao side t fx fy tx ty \<longleftrightarrow>
     (fx = tx \<or> fy = ty)
     \<and> (if blocked t fx fy tx ty then at t tx ty \<noteq> None \<and> \<not> friend t side tx ty else at t tx ty = None)"
| "may_move PieceTypeChe side t fx fy tx ty \<longleftrightarrow>
     (fx = tx \<or> fy = ty) \<and> \<not> blocked t fx fy tx ty \<and> \<not> friend t side tx ty"
| "may_move PieceTypeMa side t fx fy tx ty \<longleftrightarrow>
     (\<bar>tx - fx\<bar> = 1 \<and> \<bar>ty - fy\<bar> = 2 \<and> at t fx (fy + sgn (ty - fy)) = None)
     \<or> (\<bar>tx - fx\<bar> = 2 \<and> \<bar>ty - fy\<bar> = 1 \<and> at t (fx + sgn (tx - fx)) fy = None)"
| "may_move PieceTypeXiang side t fx fy tx ty \<longleftrightarrow>
     \<bar>tx - fx\<bar> = 2 \<and> \<bar>ty - fy\<bar> = 2 \<and> own_half side ty
     \<and> at t (fx + sgn (tx - fx)) (fy + sgn (ty - fy)) = None"
| "may_move PieceTypeShi side t fx fy tx ty \<longleftrightarrow>
     \<bar>tx - fx\<bar> \<le> 1 \<and> \<bar>ty - fy\<bar> \<le> 1 \<and> palace side tx ty \<and> (tx + ty) mod 2 = (if side = GameSideRed then 1 else 0)"
| "may_move PieceTypeShuai side t fx fy tx ty \<longleftrightarrow>
     ((fx = tx \<or> fy = ty) \<and> shuai_at t tx ty \<and> \<not> blocked t fx fy tx ty)
     \<or> (\<bar>tx - fx\<bar> + \<bar>ty - fy\<bar> = 1 \<and> palace side tx ty \<and> \<not> friend t side tx ty)"
| "may_move (PieceTypeOther i) side t fx fy tx ty \<longleftrightarrow> False"

text \<open>The move itself: the source is emptied, the target holds the piece.\<close>

definition moved :: "ChessTable \<Rightarrow> GameSide \<Rightarrow> PieceType \<Rightarrow> int \<Rightarrow> int \<Rightarrow> int \<Rightarrow> int \<Rightarrow> ChessTable" where
  "moved t side k fx fy tx ty =
     (t[idx fx fy := None])[idx tx ty := Some \<lparr>PX = tx, PY = ty, PType = k, PSide = side\<rparr>]"

section \<open>Lemmas\<close>

lemma on_boardD: "on_board x y \<Longrightarrow> 0 \<le> x" "on_board x y \<Longrightarrow> x \<le> 8" "on_board x y \<Longrightarrow> 0 \<le> y" "on_board x y \<Longrightarrow> y \<le> 9"
  by (simp_all add: on_board_def)

lemma idx_bound: "on_board x y \<Longrightarrow> idx x y < 90"
  by (simp add: on_board_def idx_def nat_less_iff)

lemma idx_inj: "on_board x y \<Longrightarrow> on_board x' y' \<Longrightarrow> idx x y = idx x' y' \<longleftrightarrow> x = x' \<and> y = y'"
  unfolding on_board_def idx_def by (auto simp: eq_nat_nat_iff) presburger

lemma GetPoint_at:
  assumes "length t = 90" "on_board x y"
  shows "GetPoint x y t = Inr (map_option (\<lambda>p. \<lparr>PX = x, PY = y, PType = PType p, PSide = PSide p\<rparr>) (at t x y))"
  using assms by (auto simp: GetPoint_def ct_get_def at_def idx_def on_board_def split: option.split)

lemma put_piece_at:
  assumes "length t = 90" "on_board fx fy" "on_board tx ty" "(fx, fy) \<noteq> (tx, ty)"
  shows "put_piece side k fx fy tx ty t = Inr (moved t side k fx fy tx ty, shuai_at t tx ty, True)"
proof -
  have "idx fx fy \<noteq> idx tx ty" using assms(2-4) by (simp add: idx_inj)
  moreover have "0 \<le> fy * 9 + fx" "fy * 9 + fx < 90" "0 \<le> ty * 9 + tx" "ty * 9 + tx < 90"
    using assms(2,3) by (simp_all add: on_board_def)
  ultimately show ?thesis using assms(1)
    by (simp add: put_piece_def ClearPoint_def SetPoint_def ct_set_def ct_get_def shuai_at_def at_def
        moved_def flip: idx_def)
qed

lemma scan_line_spec:
  assumes "\<And>i. lo \<le> i \<Longrightarrow> i < hi \<Longrightarrow> get i = Inr (g i)"
  shows "scan_line get lo hi = Inr (\<exists>i \<in> {lo..<hi}. g i \<noteq> None)"
  using assms
proof (induction get lo hi rule: scan_line.induct)
  case (1 get lo hi)
  have "(\<exists>i \<in> {lo..<hi}. g i \<noteq> None) \<longleftrightarrow> g lo \<noteq> None \<or> (\<exists>i \<in> {lo + 1..<hi}. g i \<noteq> None)" if "lo < hi"
  proof -
    have "{lo..<hi} = insert lo {lo + 1..<hi}" using that by auto
    then show ?thesis by simp
  qed
  with 1 show ?case by (subst scan_line.simps) auto
qed

lemma hasChess_blocked:
  assumes "length t = 90" "on_board fx fy" "on_board tx ty" "fx = tx \<or> fy = ty"
  shows "hasChessBetweenTwoPoints t fx fy tx ty = Inr (blocked t fx fy tx ty)"
proof -
  have g: "GetPoint x y t = Inr (map_option (\<lambda>p. \<lparr>PX = x, PY = y, PType = PType p, PSide = PSide p\<rparr>) (at t x y))"
    if "on_board x y" for x y using GetPoint_at [OF assms(1) that] .
  have "scan_line (\<lambda>y. GetPoint fx y t) (a + 1) b = Inr (\<exists>y \<in> {a<..<b}. at t fx y \<noteq> None)"
    if "0 \<le> a" "b \<le> 9" for a b
    using that assms(2) by (subst scan_line_spec [OF g]) (auto simp: on_board_def)
  moreover have "scan_line (\<lambda>x. GetPoint x fy t) (a + 1) b = Inr (\<exists>x \<in> {a<..<b}. at t x fy \<noteq> None)"
    if "0 \<le> a" "b \<le> 8" for a b
    using that assms(2) by (subst scan_line_spec [OF g]) (auto simp: on_board_def)
  ultimately show ?thesis using assms(2-4)
    by (auto simp: hasChessBetweenTwoPoints_def blocked_def min_def max_def on_board_def)
qed

text \<open>Each case of the switch is its rule.\<close>

abbreviation (input) mover :: "GameSide \<Rightarrow> PieceType \<Rightarrow> int \<Rightarrow> int \<Rightarrow> ChessPoint" where
  "mover side k x y \<equiv> \<lparr>PX = x, PY = y, PType = k, PSide = side\<rparr>"

abbreviation (input) by_rule :: "PieceType \<Rightarrow> GameSide \<Rightarrow> ChessTable \<Rightarrow> int \<Rightarrow> int \<Rightarrow> int \<Rightarrow> int \<Rightarrow> move_res" where
  "by_rule k side t fx fy tx ty \<equiv>
     (if may_move k side t fx fy tx ty
      then Inr (moved t side k fx fy tx ty, shuai_at t tx ty, True) else refuse t)"

lemma move_Bing_rule:
  assumes "length t = 90" "on_board fx fy" "on_board tx ty" "(fx, fy) \<noteq> (tx, ty)"
  shows "move_Bing side t (mover side k fx fy) tx ty = by_rule PieceTypeBing side t fx fy tx ty"
  using put_piece_at [OF assms]
  by (auto simp: move_Bing_def Let_def pointMatch_def isCrossedRiver_def own_half_def)

lemma move_Pao_rule:
  assumes "length t = 90" "on_board fx fy" "on_board tx ty" "(fx, fy) \<noteq> (tx, ty)"
  shows "move_Pao side t (mover side k fx fy) tx ty =
    (if (fx = tx \<or> fy = ty) \<and> blocked t fx fy tx ty \<and> at t tx ty = None then Inl NilDeref
     else by_rule PieceTypePao side t fx fy tx ty)"
  using put_piece_at [OF assms] hasChess_blocked [OF assms(1-3)] GetPoint_at [OF assms(1,3)]
  by (auto simp: move_Pao_def isSameLine_def friend_def split: option.split)

lemma move_Che_rule:
  assumes "length t = 90" "on_board fx fy" "on_board tx ty" "(fx, fy) \<noteq> (tx, ty)"
  shows "move_Che side t (mover side k fx fy) tx ty = by_rule PieceTypeChe side t fx fy tx ty"
  using put_piece_at [OF assms] hasChess_blocked [OF assms(1-3)] GetPoint_at [OF assms(1,3)]
  by (auto simp: move_Che_def isSameLine_def friend_def split: option.split)

lemma shi_points:
  shows "0 \<le> y \<Longrightarrow> \<not> pointMatch x y 3 0 \<and> \<not> pointMatch x y 5 0 \<and> \<not> pointMatch x y 4 1
      \<and> \<not> pointMatch x y 3 2 \<and> \<not> pointMatch x y 5 2 \<longleftrightarrow>
      \<not> ((3 \<le> x \<and> x \<le> 5 \<and> y \<le> 2) \<and> (x + y) mod 2 = 1)"
    and "y \<le> 9 \<Longrightarrow> \<not> pointMatch x y 3 9 \<and> \<not> pointMatch x y 5 9 \<and> \<not> pointMatch x y 4 8
      \<and> \<not> pointMatch x y 3 7 \<and> \<not> pointMatch x y 5 7 \<longleftrightarrow>
      \<not> ((3 \<le> x \<and> x \<le> 5 \<and> 7 \<le> y) \<and> (x + y) mod 2 = 0)"
  unfolding pointMatch_def by presburger+

lemma move_Shi_rule:
  assumes "length t = 90" "on_board fx fy" "on_board tx ty" "(fx, fy) \<noteq> (tx, ty)"
  shows "move_Shi side t (mover side k fx fy) tx ty = by_rule PieceTypeShi side t fx fy tx ty"
proof -
  have target: "(if side = GameSideRed
          then \<not> pointMatch tx ty 3 0 \<and> \<not> pointMatch tx ty 5 0 \<and> \<not> pointMatch tx ty 4 1
             \<and> \<not> pointMatch tx ty 3 2 \<and> \<not> pointMatch tx ty 5 2
          else \<not> pointMatch tx ty 3 9 \<and> \<not> pointMatch tx ty 5 9 \<and> \<not> pointMatch tx ty 4 8
             \<and> \<not> pointMatch tx ty 3 7 \<and> \<not> pointMatch tx ty 5 7) \<longleftrightarrow>
      \<not> (palace side tx ty \<and> (tx + ty) mod 2 = (if side = GameSideRed then 1 else 0))"
    unfolding shi_points(1) [OF on_boardD(3) [OF assms(3)]] shi_points(2) [OF on_boardD(4) [OF assms(3)]]
      palace_def
    by (cases "side = GameSideRed") (simp_all only: if_True if_False simp_thms)
  show ?thesis unfolding move_Shi_def target using put_piece_at [OF assms] by (auto simp: Let_def)
qed

lemma move_Xiang_rule:
  assumes "length t = 90" "on_board fx fy" "on_board tx ty" "(fx, fy) \<noteq> (tx, ty)"
  shows "move_Xiang side t (mover side k fx fy) tx ty = by_rule PieceTypeXiang side t fx fy tx ty"
proof (cases "\<bar>tx - fx\<bar> = 2 \<and> \<bar>ty - fy\<bar> = 2")
  case True
  define ex ey where "ex = fx + sgn (tx - fx)" and "ey = fy + sgn (ty - fy)"
  have "tx = fx + 2 \<or> tx = fx - 2" "ty = fy + 2 \<or> ty = fy - 2" using True by linarith+
  moreover from this have e: "on_board ex ey" using assms(2,3) by (auto simp: ex_def ey_def on_board_def)
  ultimately show ?thesis using put_piece_at [OF assms] GetPoint_at [OF assms(1) e] e
    by (auto simp: move_Xiang_def Let_def pointMatch_def isCrossedRiver_def own_half_def ex_def ey_def)
next
  case False
  then show ?thesis by (auto simp: move_Xiang_def Let_def pointMatch_def)
qed

lemma move_Ma_rule:
  assumes "length t = 90" "on_board fx fy" "on_board tx ty" "(fx, fy) \<noteq> (tx, ty)"
  shows "move_Ma side t (mover side k fx fy) tx ty = by_rule PieceTypeMa side t fx fy tx ty"
proof -
  consider (tall) "tx = fx + 1 \<or> tx = fx - 1" "ty = fy + 2 \<or> ty = fy - 2"
    | (wide) "tx = fx + 2 \<or> tx = fx - 2" "ty = fy + 1 \<or> ty = fy - 1"
    | (none) "\<not> (\<bar>tx - fx\<bar> = 1 \<and> \<bar>ty - fy\<bar> = 2)" "\<not> (\<bar>tx - fx\<bar> = 2 \<and> \<bar>ty - fy\<bar> = 1)"
    by linarith
  then show ?thesis
  proof cases
    case tall
    then have e: "on_board fx (fy + sgn (ty - fy))" using assms(2,3) by (auto simp: on_board_def)
    from tall show ?thesis using put_piece_at [OF assms] GetPoint_at [OF assms(1) e] e
      by (auto simp: move_Ma_def Let_def pointMatch_def)
  next
    case wide
    then have e: "on_board (fx + sgn (tx - fx)) fy" using assms(2,3) by (auto simp: on_board_def)
    from wide show ?thesis using put_piece_at [OF assms] GetPoint_at [OF assms(1) e] e
      by (auto simp: move_Ma_def Let_def pointMatch_def)
  next
    case none
    then show ?thesis by (auto simp: move_Ma_def Let_def pointMatch_def)
  qed
qed

text \<open>The ordinary step of a \<^verbatim>\<open>Shuai\<close> never lands on a \<^verbatim>\<open>Shuai\<close>: at distance 1 nothing is between, and the
  special rule comes first.\<close>

lemma adjacent_not_blocked: "\<bar>tx - fx\<bar> + \<bar>ty - fy\<bar> = 1 \<Longrightarrow> \<not> blocked t fx fy tx ty"
  by (auto simp: blocked_def)

lemma adjacent_line: "\<bar>tx - fx\<bar> + \<bar>ty - fy\<bar> = (1 :: int) \<Longrightarrow> fx = tx \<or> fy = ty"
  by linarith

lemma move_Shuai_rule:
  assumes "length t = 90" "on_board fx fy" "on_board tx ty" "(fx, fy) \<noteq> (tx, ty)"
  shows "move_Shuai side t (mover side k fx fy) tx ty = by_rule PieceTypeShuai side t fx fy tx ty"
proof (cases "(fx = tx \<or> fy = ty) \<and> shuai_at t tx ty \<and> \<not> blocked t fx fy tx ty")
  case True
  then show ?thesis
    using put_piece_at [OF assms] hasChess_blocked [OF assms(1-3)] GetPoint_at [OF assms(1,3)]
    by (auto simp: move_Shuai_def isSameLine_def shuai_at_def split: option.splits)
next
  case False
  then have over: "\<bar>tx - fx\<bar> + \<bar>ty - fy\<bar> = 1 \<Longrightarrow> \<not> shuai_at t tx ty"
    using adjacent_not_blocked adjacent_line by blast
  let ?to = "map_option (\<lambda>p. \<lparr>PX = tx, PY = ty, PType = PType p, PSide = PSide p\<rparr>) (at t tx ty)"
  have to: "(case ?to of None \<Rightarrow> False | Some p \<Rightarrow> PType p = PieceTypeShuai) = shuai_at t tx ty"
    "(case ?to of None \<Rightarrow> False | Some p \<Rightarrow> PSide p = side) = friend t side tx ty"
    by (simp_all add: shuai_at_def friend_def split: option.split)
  have special: "(if shuai_at t tx ty \<and> isSameLine fx fy tx ty then hasChessBetweenTwoPoints t fx fy tx ty
      else Inr True) = Inr True"
    using False hasChess_blocked [OF assms(1-3)] by (auto simp: isSameLine_def)
  have off: "(if side = GameSideRed then tx < 3 \<or> tx > 5 \<or> ty > 2 else tx < 3 \<or> tx > 5 \<or> ty < 7)
      \<longleftrightarrow> \<not> palace side tx ty"
    by (auto simp: palace_def)
  have "move_Shuai side t (mover side k fx fy) tx ty =
     (if \<not> palace side tx ty then refuse t
      else if \<bar>tx - fx\<bar> + \<bar>ty - fy\<bar> \<noteq> 1 then refuse t
      else if friend t side tx ty then refuse t
      else Inr (moved t side PieceTypeShuai fx fy tx ty, False, True))"
    unfolding move_Shuai_def GetPoint_at [OF assms(1,3)] rbind.simps ChessPoint.select_convs to special off
      put_piece_at [OF assms]
    by (simp add: abs_minus_commute)
  with False over show ?thesis by auto
qed

lemmas piece_rules = move_Bing_rule move_Pao_rule move_Che_rule move_Ma_rule move_Xiang_rule
  move_Shi_rule move_Shuai_rule

lemma DoMove_cases:
  assumes "length t = 90"
  shows "DoMove side t fx fy tx ty =
    (if \<not> on_board fx fy \<or> \<not> on_board tx ty \<or> (fx, fy) = (tx, ty) then refuse t
     else case at t fx fy of
       None \<Rightarrow> refuse t
     | Some p \<Rightarrow>
         if PSide p \<noteq> side then refuse t
         else if PType p = PieceTypePao \<and> (fx = tx \<or> fy = ty) \<and> blocked t fx fy tx ty \<and> at t tx ty = None
         then Inl NilDeref
         else if may_move (PType p) side t fx fy tx ty
         then Inr (moved t side (PType p) fx fy tx ty, shuai_at t tx ty, True)
         else refuse t)"
proof (cases "on_board fx fy \<and> on_board tx ty \<and> (fx, fy) \<noteq> (tx, ty)")
  case True
  then have b: "on_board fx fy" "on_board tx ty" "(fx, fy) \<noteq> (tx, ty)" by simp_all
  have range: "\<not> isPointCrossRange fx fy" "\<not> isPointCrossRange tx ty"
    using b(1,2) by (auto simp: isPointCrossRange_def on_board_def)
  show ?thesis
  proof (cases "at t fx fy")
    case None
    then show ?thesis using b range GetPoint_at [OF assms b(1)] by (simp add: DoMove_def)
  next
    case (Some p)
    then have "DoMove side t fx fy tx ty =
      (if PSide p \<noteq> side then refuse t
       else case PType p of
                  PieceTypeBing \<Rightarrow> move_Bing side t (mover side (PType p) fx fy) tx ty
                | PieceTypePao \<Rightarrow> move_Pao side t (mover side (PType p) fx fy) tx ty
                | PieceTypeChe \<Rightarrow> move_Che side t (mover side (PType p) fx fy) tx ty
                | PieceTypeMa \<Rightarrow> move_Ma side t (mover side (PType p) fx fy) tx ty
                | PieceTypeXiang \<Rightarrow> move_Xiang side t (mover side (PType p) fx fy) tx ty
                | PieceTypeShi \<Rightarrow> move_Shi side t (mover side (PType p) fx fy) tx ty
                | PieceTypeShuai \<Rightarrow> move_Shuai side t (mover side (PType p) fx fy) tx ty
                | PieceTypeOther i \<Rightarrow> refuse t)"
      using b range GetPoint_at [OF assms b(1)] by (auto simp: DoMove_def)
    moreover have ne: "((fx, fy) = (tx, ty)) = False" using b(3) by simp
    ultimately show ?thesis using Some unfolding ne
      by (cases "PType p") (simp_all del: may_move.simps add: b(1,2) piece_rules [OF assms b] may_move.simps(8), blast)
  qed
next
  case False
  then show ?thesis using GetPoint_at [OF assms, of fx fy]
    by (auto simp: DoMove_def isPointCrossRange_def on_board_def split: option.split)
qed

section \<open>What a game keeps\<close>

text \<open>The rank of a point seen from a side, and the points each piece can ever reach: a \<^verbatim>\<open>Shuai\<close> and
  its \<^verbatim>\<open>Shi\<close> stay in the palace, a \<^verbatim>\<open>Xiang\<close> has seven points on its half, a \<^verbatim>\<open>Bing\<close> does not go back
  behind its start and leaves its file only beyond the river.\<close>

definition rank_of :: "GameSide \<Rightarrow> int \<Rightarrow> int" where
  "rank_of side y = (if side = GameSideRed then y else 9 - y)"

fun region :: "PieceType \<Rightarrow> GameSide \<Rightarrow> int \<Rightarrow> int \<Rightarrow> bool" where
  "region PieceTypeShuai side x y \<longleftrightarrow> palace side x y"
| "region PieceTypeShi side x y \<longleftrightarrow> palace side x y \<and> (x + rank_of side y) mod 2 = 1"
| "region PieceTypeXiang side x y \<longleftrightarrow> rank_of side y \<le> 4 \<and> x mod 2 = 0 \<and> (x + rank_of side y) mod 4 = 2"
| "region PieceTypeBing side x y \<longleftrightarrow> 3 \<le> rank_of side y \<and> (rank_of side y \<le> 4 \<longrightarrow> x mod 2 = 0)"
| "region (PieceTypeOther i) side x y \<longleftrightarrow> False"
| "region k side x y \<longleftrightarrow> True"

definition is_piece :: "GameSide \<Rightarrow> PieceType \<Rightarrow> ChessPoint option \<Rightarrow> bool" where
  "is_piece side k p = (case p of None \<Rightarrow> False | Some c \<Rightarrow> PSide c = side \<and> PType c = k)"

definition pieces :: "GameSide \<Rightarrow> PieceType \<Rightarrow> ChessTable \<Rightarrow> nat" where
  "pieces side k t = length (filter (is_piece side k) t)"

definition point_ok :: "ChessTable \<Rightarrow> int \<Rightarrow> int \<Rightarrow> bool" where
  "point_ok t x y = (case at t x y of None \<Rightarrow> True | Some p \<Rightarrow>
     PX p = x \<and> PY p = y \<and> (PSide p = GameSideRed \<or> PSide p = GameSideBlack) \<and> region (PType p) (PSide p) x y)"

definition board_ok :: "ChessTable \<Rightarrow> bool" where
  "board_ok t \<longleftrightarrow> length t = 90 \<and> (\<forall>x y. on_board x y \<longrightarrow> point_ok t x y)"

inductive reachable_table :: "ChessTable \<Rightarrow> bool" where
  new_table: "NewDefaultChessTable = Inr t \<Longrightarrow> reachable_table t"
| move_table: "reachable_table t \<Longrightarrow> DoMove side t fx fy tx ty = Inr (t', False, True) \<Longrightarrow> reachable_table t'"

lemma own_half_rank: "own_half side y \<longleftrightarrow> rank_of side y \<le> 4"
  by (auto simp: own_half_def rank_of_def)

lemma xiang_parity:
  fixes x r :: int
  assumes "x mod 2 = 0" "(x + r) mod 4 = 2" "x' = x + 2 \<or> x' = x - 2" "r' = r + 2 \<or> r' = r - 2"
  shows "x' mod 2 = 0 \<and> (x' + r') mod 4 = 2"
proof -
  have "x' = x + 2 * 1 \<or> x' = x + 2 * - 1" using assms(3) by auto
  then have "x' mod 2 = x mod 2" by (metis mod_mult_self2)
  moreover have "x' + r' = x + r + 4 * 1 \<or> x' + r' = x + r + 4 * 0 \<or> x' + r' = x + r + 4 * - 1"
    using assms(3,4) by auto
  then have "(x' + r') mod 4 = (x + r) mod 4" by (metis mod_mult_self2)
  ultimately show ?thesis using assms(1,2) by simp
qed

lemma shi_parity: "(x + y) mod 2 = (if side = GameSideRed then 1 else 0) \<Longrightarrow> (x + rank_of side y) mod 2 = 1"
  unfolding rank_of_def by (split if_splits; presburger)

text \<open>Every move that does not end the game leads into the region of the piece.\<close>

lemma region_move:
  assumes "region k side fx fy" "may_move k side t fx fy tx ty" "\<not> shuai_at t tx ty"
  shows "region k side tx ty"
proof (cases k)
  case PieceTypeBing
  let ?d = "rank_of side ty - rank_of side fy"
  have "?d \<ge> 0" "\<bar>tx - fx\<bar> + \<bar>?d\<bar> = 1" "rank_of side fy \<le> 4 \<Longrightarrow> tx = fx"
    using assms(2) PieceTypeBing by (auto simp: rank_of_def own_half_rank split: if_splits)
  then show ?thesis using assms(1) PieceTypeBing by auto
next
  case PieceTypeXiang
  then have "tx = fx + 2 \<or> tx = fx - 2" "rank_of side ty \<le> 4"
    "rank_of side ty = rank_of side fy + 2 \<or> rank_of side ty = rank_of side fy - 2"
    using assms(2) by (auto simp: own_half_rank rank_of_def split: if_splits)
  with xiang_parity [of fx "rank_of side fy" tx "rank_of side ty"] show ?thesis
    using assms(1) PieceTypeXiang by auto
next
  case PieceTypeShi
  then show ?thesis using assms(2) shi_parity [of tx ty side] by simp
qed (use assms in auto)

lemma at_moved:
  assumes "length t = 90" "on_board fx fy" "on_board tx ty" "on_board x y"
  shows "at (moved t side k fx fy tx ty) x y =
    (if (x, y) = (tx, ty) then Some \<lparr>PX = tx, PY = ty, PType = k, PSide = side\<rparr>
     else if (x, y) = (fx, fy) then None else at t x y)"
  using assms idx_bound [of tx ty] idx_bound [of fx fy]
  by (auto simp: at_def moved_def nth_list_update idx_inj)

lemma pieces_moved:
  assumes "length t = 90" "on_board fx fy" "on_board tx ty" "(fx, fy) \<noteq> (tx, ty)"
    "at t fx fy = Some p" "PSide p = side"
  shows "pieces s k (moved t side (PType p) fx fy tx ty) + (if is_piece s k (at t tx ty) then 1 else 0) = pieces s k t"
proof -
  let ?t1 = "t[idx fx fy := None]"
  have b: "idx fx fy < length t" "idx tx ty < length ?t1" "idx fx fy \<noteq> idx tx ty"
    using assms(1-4) idx_bound by (auto simp: idx_inj)
  have n: "is_piece s k None = False" "is_piece s k (Some \<lparr>PX = tx, PY = ty, PType = PType p, PSide = side\<rparr>)
      = is_piece s k (Some p)"
    using assms(6) by (auto simp: is_piece_def)
  show ?thesis
    using length_filter_update [OF b(1), of "is_piece s k" None]
      length_filter_update [OF b(2), of "is_piece s k" "Some \<lparr>PX = tx, PY = ty, PType = PType p, PSide = side\<rparr>"]
      assms(5) b(3)
    by (simp add: pieces_def moved_def n at_def split: if_splits)
qed

text \<open>What a successful move is.\<close>

lemma DoMove_refused:
  assumes "length t = 90" "DoMove side t fx fy tx ty = Inr (t', over, False)"
  shows "t' = t"
  using assms(2) unfolding DoMove_cases [OF assms(1)] by (auto split: if_splits option.splits)

lemma DoMove_ok:
  assumes "length t = 90" "DoMove side t fx fy tx ty = Inr (t', over, True)"
  obtains p where "on_board fx fy" "on_board tx ty" "(fx, fy) \<noteq> (tx, ty)" "at t fx fy = Some p"
    "PSide p = side" "may_move (PType p) side t fx fy tx ty" "t' = moved t side (PType p) fx fy tx ty"
    "over = shuai_at t tx ty"
  using assms(2) unfolding DoMove_cases [OF assms(1)] by (auto split: if_splits option.splits)

lemma board_ok_move:
  assumes "board_ok t" "DoMove side t fx fy tx ty = Inr (t', False, True)"
  shows "board_ok t'"
proof -
  have l: "length t = 90" using assms(1) by (simp add: board_ok_def)
  obtain p where m: "on_board fx fy" "on_board tx ty" "at t fx fy = Some p" "PSide p = side"
      "may_move (PType p) side t fx fy tx ty" "t' = moved t side (PType p) fx fy tx ty" "\<not> shuai_at t tx ty"
    using DoMove_ok [OF l assms(2)] by blast
  have "point_ok t fx fy" using assms(1) m(1) by (simp add: board_ok_def)
  then have p: "side = GameSideRed \<or> side = GameSideBlack" "region (PType p) side fx fy"
    using m(3,4) by (auto simp: point_ok_def)
  have "region (PType p) side tx ty" by (rule region_move [OF p(2) m(5,7)])
  then show ?thesis
    using assms(1) p(1) at_moved [OF l m(1,2)] by (auto simp: board_ok_def point_ok_def m(6)) (simp_all add: moved_def)
qed

text \<open>The starting table, checked point by point.\<close>

definition default_table :: ChessTable where
  "default_table = (case NewDefaultChessTable of Inl e \<Rightarrow> [] | Inr t \<Rightarrow> t)"

lemma board_ok_code:
  "board_ok t \<longleftrightarrow> length t = 90 \<and> list_all (\<lambda>y. list_all (\<lambda>x. point_ok t x y) [0..8]) [0..9]"
  by (auto simp: board_ok_def on_board_def list_all_iff)

lemma default_table_new: "NewDefaultChessTable = Inr default_table"
proof -
  have "is_ok NewDefaultChessTable" by code_simp
  then obtain t where t: "NewDefaultChessTable = Inr t" unfolding is_ok_iff by blast
  show ?thesis unfolding default_table_def t sum.case by (rule refl)
qed

lemma default_table_ok: "board_ok default_table"
  unfolding board_ok_code by code_simp

lemma default_shuai:
  "pieces GameSideRed PieceTypeShuai default_table = 1" "pieces GameSideBlack PieceTypeShuai default_table = 1"
  by code_simp+

lemma new_table_eq: "NewDefaultChessTable = Inr t \<longleftrightarrow> t = default_table"
  unfolding default_table_new by auto

lemma reachable_ok: "reachable_table t \<Longrightarrow> board_ok t"
proof (induction rule: reachable_table.induct)
  case (new_table t)
  then show ?case using default_table_ok unfolding new_table_eq by simp
qed (rule board_ok_move)

text \<open>A move takes at most the piece on its target; the \<^verbatim>\<open>Shuai\<close> of a side leaves only when the game is
  over.\<close>

lemma pieces_step:
  assumes "board_ok t" "DoMove side t fx fy tx ty = Inr (t', over, True)"
  shows "pieces s k t' \<le> pieces s k t"
    and "\<not> over \<Longrightarrow> pieces s PieceTypeShuai t' = pieces s PieceTypeShuai t"
    and "over \<Longrightarrow> pieces GameSideRed PieceTypeShuai t' + pieces GameSideBlack PieceTypeShuai t' + 1 =
      pieces GameSideRed PieceTypeShuai t + pieces GameSideBlack PieceTypeShuai t"
proof -
  have l: "length t = 90" using assms(1) by (simp add: board_ok_def)
  obtain p where m: "on_board fx fy" "on_board tx ty" "(fx, fy) \<noteq> (tx, ty)" "at t fx fy = Some p" "PSide p = side"
      "t' = moved t side (PType p) fx fy tx ty" "over = shuai_at t tx ty"
    using DoMove_ok [OF l assms(2)] by blast
  note n = pieces_moved [OF l m(1-5), folded m(6)]
  have "point_ok t tx ty" using assms(1) m(2) by (simp add: board_ok_def)
  then have one: "is_piece GameSideRed PieceTypeShuai (at t tx ty) \<noteq> is_piece GameSideBlack PieceTypeShuai (at t tx ty)"
    if over
    using that m(7) by (auto simp: shuai_at_def is_piece_def point_ok_def split: option.splits)
  have none: "\<not> is_piece s PieceTypeShuai (at t tx ty)" if "\<not> over" for s
    using that m(7) by (auto simp: shuai_at_def is_piece_def split: option.splits)
  show "pieces s k t' \<le> pieces s k t" using n [of s k] by simp
  show "\<not> over \<Longrightarrow> pieces s PieceTypeShuai t' = pieces s PieceTypeShuai t"
    using n [of s PieceTypeShuai] none by simp
  show "over \<Longrightarrow> pieces GameSideRed PieceTypeShuai t' + pieces GameSideBlack PieceTypeShuai t' + 1 =
      pieces GameSideRed PieceTypeShuai t + pieces GameSideBlack PieceTypeShuai t"
    using n [of GameSideRed PieceTypeShuai] n [of GameSideBlack PieceTypeShuai] one by auto
qed

lemma reachable_pieces:
  "reachable_table t \<Longrightarrow> pieces GameSideRed PieceTypeShuai t = 1 \<and> pieces GameSideBlack PieceTypeShuai t = 1
    \<and> (\<forall>s k. pieces s k t \<le> pieces s k default_table)"
proof (induction rule: reachable_table.induct)
  case (new_table t)
  then show ?case using default_shuai unfolding new_table_eq by simp
next
  case (move_table t side fx fy tx ty t')
  note s = pieces_step [OF reachable_ok [OF move_table(1)] move_table(2)]
  from move_table(3) s(2) show ?case by (auto intro: order_trans [OF s(1)])
qed

section \<open>Properties\<close>

text \<open>C12. \<^verbatim>\<open>DoMove\<close> is the rules of the game, for every table and all arguments: a move is refused, and the
  table unchanged, unless both points are on the board and differ and a piece of the side stands
  on the first; otherwise it is carried out exactly when the rule of the piece allows it, and the
  game is over exactly when a \<^verbatim>\<open>Shuai\<close> was taken. The one panic is a \<^verbatim>\<open>Pao\<close> that jumps over pieces onto
  an empty point. As the code has it, \<^verbatim>\<open>Bing\<close>, \<^verbatim>\<open>Ma\<close>, \<^verbatim>\<open>Xiang\<close> and \<^verbatim>\<open>Shi\<close> may take pieces of their own side, and
  a \<^verbatim>\<open>Pao\<close> may jump over several pieces.\<close>

theorem DoMove_rules:
  assumes "length t = 90"
  shows "DoMove side t fx fy tx ty =
    (if \<not> on_board fx fy \<or> \<not> on_board tx ty \<or> (fx, fy) = (tx, ty) then Inr (t, False, False)
     else case at t fx fy of
       None \<Rightarrow> Inr (t, False, False)
     | Some p \<Rightarrow>
         if PSide p \<noteq> side then Inr (t, False, False)
         else if PType p = PieceTypePao \<and> (fx = tx \<or> fy = ty) \<and> blocked t fx fy tx ty \<and> at t tx ty = None
         then Inl NilDeref
         else if may_move (PType p) side t fx fy tx ty
         then Inr (moved t side (PType p) fx fy tx ty, shuai_at t tx ty, True)
         else Inr (t, False, False))"
  by (rule DoMove_cases [OF assms])

theorem DoMove_rules_witness:
  "DoMove GameSideRed default_table 1 0 2 2 =
     Inr (moved default_table GameSideRed PieceTypeMa 1 0 2 2, False, True)
   \<and> DoMove GameSideRed default_table 1 2 1 8 = Inl NilDeref"
proof -
  have "length default_table = 90" using default_table_ok by (simp add: board_ok_def)
  moreover have "map_option PType (at default_table 1 0) = Some PieceTypeMa"
    "map_option PSide (at default_table 1 0) = Some GameSideRed"
    "map_option PType (at default_table 1 2) = Some PieceTypePao"
    "map_option PSide (at default_table 1 2) = Some GameSideRed"
    "at default_table 1 8 = None" "at default_table 1 7 \<noteq> None" "at default_table 1 1 = None"
    "at default_table 2 2 = None" by code_simp+
  moreover from this have "blocked default_table 1 2 1 8" by (auto simp: blocked_def intro: bexI [of _ 7])
  ultimately show ?thesis
    using DoMove_rules [of default_table GameSideRed 1 0 2 2] DoMove_rules [of default_table GameSideRed 1 2 1 8]
    by (auto simp: on_board_def shuai_at_def)
qed

text \<open>C14. In every game from the starting table, through every sequence of moves that does not end it:
  each point records its own coordinates, each piece is one of the seven kinds of one of the two
  sides and stands in the region its kind can reach, no kind of piece becomes more
  numerous, and each side has exactly one \<^verbatim>\<open>Shuai\<close>. The move that ends the game leaves exactly one.\<close>

theorem games_keep_board:
  assumes "reachable_table t"
  shows "board_ok t \<and> pieces GameSideRed PieceTypeShuai t = 1 \<and> pieces GameSideBlack PieceTypeShuai t = 1
    \<and> (\<forall>s k. pieces s k t \<le> pieces s k default_table)
    \<and> (\<forall>side fx fy tx ty t'. DoMove side t fx fy tx ty = Inr (t', True, True) \<longrightarrow>
         pieces GameSideRed PieceTypeShuai t' + pieces GameSideBlack PieceTypeShuai t' = 1)"
  using assms reachable_ok reachable_pieces pieces_step(3) by fastforce

theorem games_keep_board_witness:
  "board_ok default_table \<and> pieces GameSideRed PieceTypeShuai default_table = 1"
  using games_keep_board [OF new_table [OF default_table_new]] by simp

end
