(* ===== verification/Chess_Frame.thy ===== *)
theory Chess_Frame
  imports Prelude
begin

text \<open>
  The framing of the chess example: a packet travels as four bytes of length, most
  significant first, and the body (\<^verbatim>\<open>backend/tools/packet.go\<close>, \<^verbatim>\<open>frontend/tools/tools.go\<close>). The
  length is a \<^verbatim>\<open>uint32\<close> and its arithmetic wraps. The client reads from a \<^verbatim>\<open>net.Conn\<close> with
  \<^verbatim>\<open>io.ReadFull\<close>; a connection is the list of chunks that successive \<^verbatim>\<open>Read\<close> calls find (a chunk
  longer than the buffer is cut) and the error after the last one.
\<close>

unbundle bit_operations_syntax

section \<open>encoding/binary\<close>

definition PutUint32 :: "32 word \<Rightarrow> byte list" where
  "PutUint32 v = [ucast (drop_bit 24 v), ucast (drop_bit 16 v), ucast (drop_bit 8 v), ucast v]"

definition Uint32 :: "byte list \<Rightarrow> 32 word" where
  "Uint32 b = ucast (b ! 3) OR push_bit 8 (ucast (b ! 2)) OR push_bit 16 (ucast (b ! 1)) OR
     push_bit 24 (ucast (b ! 0))"

lemma length_PutUint32 [simp]: "length (PutUint32 v) = 4"
  by (simp add: PutUint32_def)

lemma Uint32_Put [simp]: "Uint32 (PutUint32 v @ bs) = v"
proof (rule bit_word_eqI)
  fix n assume "n < LENGTH(32)"
  then consider "n < 8" | "8 \<le> n" "n < 16" | "16 \<le> n" "n < 24" | "24 \<le> n" "n < 32" by force
  then show "bit (Uint32 (PutUint32 v @ bs)) n \<longleftrightarrow> bit v n"
    by cases (auto simp: Uint32_def PutUint32_def bit_simps)
qed

lemma Uint32_take [simp]: "Uint32 (take 4 bs) = Uint32 bs"
  by (simp add: Uint32_def)

section \<open>Packing and unpacking\<close>

definition DoPackWith4BytesHeader :: "byte list \<Rightarrow> byte list" where
  "DoPackWith4BytesHeader bs = PutUint32 (word_of_nat (length bs)) @ bs"

definition IsBytesCompleteWith4BytesHeader :: "byte list \<Rightarrow> byte list option res" where
  "IsBytesCompleteWith4BytesHeader bs =
     (if length bs < 4 then Inr None
      else
        (let bytesLength = Uint32 (take 4 bs)
         in if (word_of_nat (length bs) :: 32 word) < 4 + bytesLength then Inr None
            else rbind (go_slice bs 4 (uint (4 + bytesLength))) (\<lambda>body.
                 rbind (go_make 0 (uint bytesLength)) (\<lambda>newBS.
                 rbind (go_copy_at newBS 0 body) (\<lambda>newBS. Inr (Some newBS))))))"

section \<open>Reading from a connection\<close>

datatype io_error = EOF | ErrUnexpectedEOF | ErrNet errno

record net_conn =
  chunks :: "byte list list"
  conn_err :: io_error

text \<open>\<^verbatim>\<open>io.ReadFull\<close> of \<open>n\<close> bytes: what was read, the error if it is not all, the chunks left.\<close>

fun read_loop :: "nat \<Rightarrow> byte list list \<Rightarrow> byte list \<times> byte list list" where
  "read_loop n [] = ([], [])"
| "read_loop n (ch # chs) =
     (if n = 0 then ([], ch # chs)
      else if length ch \<le> n
      then (case read_loop (n - length ch) chs of (bs, rest) \<Rightarrow> (ch @ bs, rest))
      else (take n ch, drop n ch # chs))"

definition io_ReadFull :: "nat \<Rightarrow> net_conn \<Rightarrow> byte list \<times> io_error option \<times> net_conn" where
  "io_ReadFull n c =
     (case read_loop n (chunks c) of (bs, rest) \<Rightarrow>
        (bs,
         if length bs = n then None
         else if bs \<noteq> [] \<and> conn_err c = EOF then Some ErrUnexpectedEOF else Some (conn_err c),
         c\<lparr>chunks := rest\<rparr>))"

text \<open>The client's reader, which returns no bytes with an error, and the backend's, which
  returns the partly filled array.\<close>

definition ReadPacketBytesWith4BytesHeader :: "net_conn \<Rightarrow> (io_error + byte list) \<times> net_conn" where
  "ReadPacketBytesWith4BytesHeader c =
     (case io_ReadFull 4 c of (lengthBytes, e, c1) \<Rightarrow>
      (case e of Some err \<Rightarrow> (Inl err, c1)
       | None \<Rightarrow>
          (case io_ReadFull (unat (Uint32 lengthBytes)) c1 of (packetBytes, e2, c2) \<Rightarrow>
           (case e2 of Some err \<Rightarrow> (Inl err, c2) | None \<Rightarrow> (Inr packetBytes, c2)))))"

definition backend_ReadPacket :: "net_conn \<Rightarrow> (byte list \<times> io_error option) \<times> net_conn" where
  "backend_ReadPacket c =
     (case io_ReadFull 4 c of (lengthBytes, e, c1) \<Rightarrow>
      (case e of Some err \<Rightarrow> (([], Some err), c1)
       | None \<Rightarrow>
          (let n = unat (Uint32 lengthBytes)
           in case io_ReadFull n c1 of (bs, e2, c2) \<Rightarrow>
                ((bs @ replicate (n - length bs) 0, e2), c2))))"

section \<open>Lemmas\<close>

text \<open>How much \<^verbatim>\<open>io.ReadFull\<close> reads does not depend on the chunks.\<close>

lemma read_loop_stream:
  "read_loop n chs = (bs, rest) \<Longrightarrow> bs = take n (concat chs) \<and> concat rest = drop n (concat chs)"
proof (induction n chs arbitrary: bs rest rule: read_loop.induct)
  case (2 n ch chs)
  then show ?case by (auto split: if_splits prod.splits)
qed simp

lemma io_ReadFull_enough:
  assumes "n \<le> length (concat (chunks c))"
  obtains c' where "io_ReadFull n c = (take n (concat (chunks c)), None, c')"
    "concat (chunks c') = drop n (concat (chunks c))" "conn_err c' = conn_err c"
proof -
  obtain bs rest where r: "read_loop n (chunks c) = (bs, rest)" by fastforce
  have e: "bs = take n (concat (chunks c))" "concat rest = drop n (concat (chunks c))"
    using read_loop_stream [OF r] by simp_all
  then have "length bs = n" using assms by simp
  with r e that [of "c\<lparr>chunks := rest\<rparr>"] show thesis by (simp add: io_ReadFull_def)
qed

lemma io_ReadFull_short:
  assumes "length (concat (chunks c)) < n"
  shows "\<exists>c'. io_ReadFull n c = (concat (chunks c),
     Some (if concat (chunks c) \<noteq> [] \<and> conn_err c = EOF then ErrUnexpectedEOF else conn_err c), c')"
proof -
  obtain bs rest where r: "read_loop n (chunks c) = (bs, rest)" by fastforce
  have "bs = concat (chunks c)" using read_loop_stream [OF r] assms by simp
  with r assms show ?thesis by (auto simp: io_ReadFull_def)
qed

lemma length_DoPack [simp]: "length (DoPackWith4BytesHeader bs) = 4 + length bs"
  by (simp add: DoPackWith4BytesHeader_def)

text \<open>The header of a frame, as a number.\<close>

lemma unat_header:
  "length bs < 2 ^ 32 \<Longrightarrow> unat (Uint32 (DoPackWith4BytesHeader bs @ rest)) = length bs"
  by (simp add: DoPackWith4BytesHeader_def unat_of_nat take_bit_nat_eq_self)

lemma u32_bound: "unat (w :: 32 word) < 2 ^ 32"
  using unsigned_less [of w] by simp

lemma four_plus:
  fixes w :: "32 word"
  assumes "uint w = int n"
  shows "uint (4 + w) = (if n < 2 ^ 32 - 4 then int n + 4 else int n + 4 - 2 ^ 32)"
proof -
  have "n < 2 ^ 32" using assms uint_lt2p [of w] by simp
  moreover have "uint (4 + w) = (4 + int n) mod 2 ^ 32" by (simp add: uint_word_ariths assms)
  moreover have "(4 + int n) mod 2 ^ 32 = int n + 4 - 2 ^ 32" if "2 ^ 32 - 4 \<le> n" "n < 2 ^ 32"
    using that mod_pos_pos_trivial [of "int n + 4 - 2 ^ 32" "2 ^ 32"] minus_mod_self2 [of "int n + 4" "2 ^ 32"]
    by (simp add: add.commute)
  ultimately show ?thesis by auto
qed

lemma overlay_all: "length src = length dst \<Longrightarrow> overlay 0 src dst = src"
  by (simp add: overlay_def)

lemma IsBytesComplete_cases:
  assumes "length bs < 2 ^ 32"
  shows "IsBytesCompleteWith4BytesHeader bs =
    (if length bs < 4 then Inr None
     else if 2 ^ 32 - 4 \<le> unat (Uint32 bs) then Inl SliceBounds
     else if length bs < 4 + unat (Uint32 bs) then Inr None
     else Inr (Some (take (unat (Uint32 bs)) (drop 4 bs))))"
proof (cases "length bs < 4")
  case False
  obtain n where n: "unat (Uint32 bs) = n" "uint (Uint32 bs) = int n" by (metis uint_nat)
  note four = four_plus [OF n(2)]
  have "n < 2 ^ 32" using n(1) u32_bound [of "Uint32 bs"] by simp
  moreover have "uint (word_of_nat (length bs) :: 32 word) = int (length bs)"
    using assms by (simp add: unsigned_of_nat take_bit_nat_eq_self)
  then have "(word_of_nat (length bs) :: 32 word) < 4 + Uint32 bs \<longleftrightarrow> int (length bs) < uint (4 + Uint32 bs)"
    by (simp add: word_less_def)
  ultimately show ?thesis using False
    by (auto simp: IsBytesCompleteWith4BytesHeader_def n four go_slice_def go_make_def go_copy_at_def
        overlay_all)
qed (simp add: IsBytesCompleteWith4BytesHeader_def)

text \<open>The client reads exactly the frame of a packet, whatever the chunks.\<close>

lemma ReadPacket_frame:
  assumes "concat (chunks c) = DoPackWith4BytesHeader bs @ rest" "length bs < 2 ^ 32"
  obtains c' where "ReadPacketBytesWith4BytesHeader c = (Inr bs, c')" "concat (chunks c') = rest"
    "conn_err c' = conn_err c"
proof -
  have "4 \<le> length (concat (chunks c))" by (simp only: assms(1)) simp
  from io_ReadFull_enough [OF this] obtain c1 where
    c1: "io_ReadFull 4 c = (take 4 (concat (chunks c)), None, c1)"
      "concat (chunks c1) = drop 4 (concat (chunks c))" "conn_err c1 = conn_err c" by blast
  have body: "concat (chunks c1) = bs @ rest"
    using c1(2) by (simp only: assms(1)) (simp add: DoPackWith4BytesHeader_def)
  have n: "unat (Uint32 (take 4 (concat (chunks c)))) = length bs"
    using unat_header [OF assms(2), of rest] by (simp only: assms(1) Uint32_take)
  have "length bs \<le> length (concat (chunks c1))" by (simp only: body) simp
  from io_ReadFull_enough [OF this] obtain c2 where
    c2: "io_ReadFull (length bs) c1 = (take (length bs) (concat (chunks c1)), None, c2)"
      "concat (chunks c2) = drop (length bs) (concat (chunks c1))" "conn_err c2 = conn_err c1" by blast
  show thesis
  proof (rule that [of c2])
    show "ReadPacketBytesWith4BytesHeader c = (Inr bs, c2)"
      by (simp add: ReadPacketBytesWith4BytesHeader_def c1(1) n c2(1) body del: Uint32_take)
  qed (simp_all only: c2(2,3) c1(3) body append_eq_conv_conj, simp)
qed

lemma ReadPacket_short:
  assumes "concat (chunks c) = take k (DoPackWith4BytesHeader bs)" "k < 4 + length bs" "length bs < 2 ^ 32"
  shows "\<exists>e c'. ReadPacketBytesWith4BytesHeader c = (Inl e, c')"
proof (cases "k < 4")
  case True
  then have "length (concat (chunks c)) < 4" by (simp only: assms(1)) simp
  from io_ReadFull_short [OF this] show ?thesis by (auto simp: ReadPacketBytesWith4BytesHeader_def)
next
  case False
  then have "4 \<le> length (concat (chunks c))" by (simp only: assms(1)) simp
  from io_ReadFull_enough [OF this] obtain c1 where
    c1: "io_ReadFull 4 c = (take 4 (concat (chunks c)), None, c1)" "concat (chunks c1) = drop 4 (concat (chunks c))" by blast
  have "take 4 (concat (chunks c)) = take 4 (DoPackWith4BytesHeader bs @ [])" using False by (simp only: assms(1)) simp
  then have n: "unat (Uint32 (take 4 (concat (chunks c)))) = length bs" using unat_header [OF assms(3), of "[]"] by (simp only: Uint32_take)
  have "length (concat (chunks c1)) < length bs" using False assms(2) by (simp only: c1(2) assms(1)) simp
  from io_ReadFull_short [OF this] show ?thesis
    by (auto simp: ReadPacketBytesWith4BytesHeader_def c1(1) n simp del: Uint32_take)
qed

text \<open>Reading packets until \<open>n\<close> are there.\<close>

primrec read_packets :: "nat \<Rightarrow> net_conn \<Rightarrow> (io_error + byte list) list \<times> net_conn" where
  "read_packets 0 c = ([], c)"
| "read_packets (Suc n) c =
     (case ReadPacketBytesWith4BytesHeader c of (r, c1) \<Rightarrow>
      case read_packets n c1 of (rs, c2) \<Rightarrow> (r # rs, c2))"

lemma read_packets_frames:
  assumes "concat (chunks c) = concat (map DoPackWith4BytesHeader ps) @ rest"
    "\<forall>p \<in> set ps. length p < 2 ^ 32"
  shows "\<exists>c'. read_packets (length ps) c = (map Inr ps, c') \<and> concat (chunks c') = rest"
  using assms
proof (induction ps arbitrary: c)
  case (Cons p ps)
  have "concat (chunks c) = DoPackWith4BytesHeader p @ concat (map DoPackWith4BytesHeader ps) @ rest"
    "length p < 2 ^ 32" using Cons.prems by simp_all
  from ReadPacket_frame [OF this] obtain c1 where "ReadPacketBytesWith4BytesHeader c = (Inr p, c1)"
      "concat (chunks c1) = concat (map DoPackWith4BytesHeader ps) @ rest" by blast
  with Cons.IH [of c1] Cons.prems(2) show ?case by auto
qed simp

section \<open>Properties\<close>

text \<open>C22. Packets survive the trip. On the server side \<^verbatim>\<open>IsBytesCompleteWith4BytesHeader\<close> gives
  back the body of a packed packet at the front of the input, whatever follows it, and asks
  for more on every proper prefix of it. On the client side, for any cutting of a stream of
  packed packets into chunks, \<^verbatim>\<open>ReadPacketBytesWith4BytesHeader\<close> returns the bodies one after the
  other and leaves the rest; the backend's reader agrees with it on every packet.\<close>

theorem frames_roundtrip:
  assumes "length bs < 2 ^ 32 - 4" "4 + length bs + length rest < 2 ^ 32" "n < 4 + length bs"
    "concat (chunks c) = concat (map DoPackWith4BytesHeader ps) @ rest"
    "\<forall>p \<in> set ps. length p < 2 ^ 32"
  shows "IsBytesCompleteWith4BytesHeader (DoPackWith4BytesHeader bs @ rest) = Inr (Some bs)
    \<and> IsBytesCompleteWith4BytesHeader (take n (DoPackWith4BytesHeader bs)) = Inr None
    \<and> (\<exists>c'. read_packets (length ps) c = (map Inr ps, c') \<and> concat (chunks c') = rest)
    \<and> (\<forall>d d' p. ReadPacketBytesWith4BytesHeader d = (Inr p, d') \<longleftrightarrow> backend_ReadPacket d = ((p, None), d'))"
proof (intro conjI allI)
  have h: "unat (Uint32 (DoPackWith4BytesHeader bs @ zs)) = length bs" for zs
    using unat_header [of bs] assms(1) by simp
  show "IsBytesCompleteWith4BytesHeader (DoPackWith4BytesHeader bs @ rest) = Inr (Some bs)"
    using assms(1,2) by (simp add: IsBytesComplete_cases h) (simp add: DoPackWith4BytesHeader_def)
  have "Uint32 (take n (DoPackWith4BytesHeader bs)) = Uint32 (DoPackWith4BytesHeader bs)" if "4 \<le> n"
    using that by (simp add: Uint32_def)
  then show "IsBytesCompleteWith4BytesHeader (take n (DoPackWith4BytesHeader bs)) = Inr None"
    using assms(1,3) h [of "[]"] by (auto simp: IsBytesComplete_cases)
  show "\<exists>c'. read_packets (length ps) c = (map Inr ps, c') \<and> concat (chunks c') = rest"
    by (rule read_packets_frames [OF assms(4,5)])
  fix d d' p
  show "ReadPacketBytesWith4BytesHeader d = (Inr p, d') \<longleftrightarrow> backend_ReadPacket d = ((p, None), d')"
    by (auto simp: ReadPacketBytesWith4BytesHeader_def backend_ReadPacket_def Let_def io_ReadFull_def
        split: prod.splits option.splits if_splits)
qed

theorem frames_roundtrip_witness:
  "IsBytesCompleteWith4BytesHeader (DoPackWith4BytesHeader [7, 8] @ [0, 0]) = Inr (Some [7, 8])
   \<and> IsBytesCompleteWith4BytesHeader (take 5 (DoPackWith4BytesHeader [7, 8])) = Inr None
   \<and> fst (read_packets (Suc (Suc 0)) \<lparr>chunks = [[0, 0], [0, 2, 7], [8, 0, 0, 0, 1, 9, 0], [0]], conn_err = EOF\<rparr>)
      = [Inr [7, 8], Inr [9]]"
  using frames_roundtrip [of "[7, 8]" "[0, 0]" 5
      "\<lparr>chunks = [[0, 0], [0, 2, 7], [8, 0, 0, 0, 1, 9, 0], [0]], conn_err = EOF\<rparr>" "[[7, 8], [9]]"]
  by (auto simp: DoPackWith4BytesHeader_def PutUint32_def)

text \<open>C36. The exact answer of \<^verbatim>\<open>IsBytesCompleteWith4BytesHeader\<close> on every input below four gigabytes.
  The sum of the length and 4 wraps around at \<open>2^32\<close>: a header of \<open>2^32 - 4\<close> or more, four bytes any
  client can send, passes the length check and the slice expression panics, where a packet
  of that length should be waited for.\<close>

theorem frame_length_bounds:
  assumes "length bs < 2 ^ 32"
  shows "IsBytesCompleteWith4BytesHeader bs =
    (if length bs < 4 then Inr None
     else if 2 ^ 32 - 4 \<le> unat (Uint32 bs) then Inl SliceBounds
     else if length bs < 4 + unat (Uint32 bs) then Inr None
     else Inr (Some (take (unat (Uint32 bs)) (drop 4 bs))))"
  by (rule IsBytesComplete_cases [OF assms])

theorem frame_length_bounds_witness:
  "IsBytesCompleteWith4BytesHeader [255, 255, 255, 252] = Inl SliceBounds
   \<and> IsBytesCompleteWith4BytesHeader [255, 255, 255, 251] = Inr None"
  using frame_length_bounds [of "[255, 255, 255, 252]"] frame_length_bounds [of "[255, 255, 255, 251]"]
  by (simp add: Uint32_def)

end
