(* ===== verification/Json.thy ===== *)
theory Json
  imports Prelude
begin

text \<open>
  What the chess example uses of \<^verbatim>\<open>encoding/json\<close>. \<^verbatim>\<open>json.Unmarshal\<close> checks the whole text first and
  stores nothing when it is not JSON; so it is a lexer, a parser (a stack machine over the
  tokens, the stack being Go's \<^verbatim>\<open>parseState\<close>, at most 10000 deep), and then a decoder that
  walks the value and stores into a Go variable. A decoder takes the value the variable has and
  gives the new one with a flag, set when \<^verbatim>\<open>Unmarshal\<close> returns a type error; decoding goes on after
  such an error. \<^verbatim>\<open>json.Marshal\<close> prints. A text is a list of characters, one for each byte; in
  a string literal the bytes outside ASCII are kept as they are.
\<close>

datatype json = JNull | JBool bool | JNum string | JStr string | JArr "json list" | JObj "(string \<times> json) list"

datatype token = TNull | TBool bool | TNum string | TStr string | TLBrack | TRBrack | TLBrace | TRBrace
  | TComma | TColon

section \<open>Lexer\<close>

abbreviation code :: "char \<Rightarrow> nat" where
  "code \<equiv> of_char"

definition is_digit :: "char \<Rightarrow> bool" where
  "is_digit c \<longleftrightarrow> 48 \<le> code c \<and> code c \<le> 57"

definition is_ws :: "char \<Rightarrow> bool" where
  "is_ws c \<longleftrightarrow> code c = 0x20 \<or> code c = 0x09 \<or> code c = 0x0A \<or> code c = 0x0D"

definition hex_val :: "char \<Rightarrow> nat option" where
  "hex_val c =
     (if is_digit c then Some (code c - 48)
      else if 97 \<le> code c \<and> code c \<le> 102 then Some (code c - 87)
      else if 65 \<le> code c \<and> code c \<le> 70 then Some (code c - 55) else None)"

text \<open>The pieces of a string literal: a byte, an escaped character, a \<^verbatim>\<open>\uXXXX\<close>.\<close>

datatype sitem = SByte char | SUnit nat

definition simple_escape :: "char \<Rightarrow> char option" where
  "simple_escape c =
     (if c = CHR 0x22 \<or> c = CHR 0x5C \<or> c = CHR ''/'' then Some c
      else if c = CHR ''b'' then Some (CHR 0x08) else if c = CHR ''f'' then Some (CHR 0x0C)
      else if c = CHR ''n'' then Some (CHR 0x0A) else if c = CHR ''r'' then Some (CHR 0x0D)
      else if c = CHR ''t'' then Some (CHR 0x09) else None)"

fun hex4 :: "string \<Rightarrow> (nat \<times> string) option" where
  "hex4 (a # b # c # d # s) =
     (case (hex_val a, hex_val b, hex_val c, hex_val d) of
        (Some w, Some x, Some y, Some z) \<Rightarrow> Some (w * 4096 + x * 256 + y * 16 + z, s)
      | _ \<Rightarrow> None)"
| "hex4 s = None"

lemma hex4_length: "hex4 s = Some (n, r) \<Longrightarrow> length r < length s"
  by (induction s rule: hex4.induct) (auto split: option.splits)

text \<open>The text after the opening quote, up to the closing one.\<close>

function lex_str :: "string \<Rightarrow> (sitem list \<times> string) option" where
  "lex_str s =
     (case s of
        [] \<Rightarrow> None
      | c # s1 \<Rightarrow>
          if c = CHR 0x22 then Some ([], s1)
          else if code c < 0x20 then None
          else if c = CHR 0x5C then
            (case s1 of
               [] \<Rightarrow> None
             | e # s2 \<Rightarrow>
                 if e = CHR ''u'' then
                   (case hex4 s2 of None \<Rightarrow> None
                    | Some (u, s3) \<Rightarrow> map_option (\<lambda>(is, r). (SUnit u # is, r)) (lex_str s3))
                 else
                   (case simple_escape e of None \<Rightarrow> None
                    | Some x \<Rightarrow> map_option (\<lambda>(is, r). (SByte x # is, r)) (lex_str s2)))
          else map_option (\<lambda>(is, r). (SByte c # is, r)) (lex_str s1))"
  by auto
termination by (relation "measure length") (auto dest: hex4_length)

declare lex_str.simps [simp del]

definition utf8 :: "nat \<Rightarrow> string" where
  "utf8 n =
     (if n < 0x80 then [char_of n]
      else if n < 0x800 then [char_of (0xC0 + n div 64), char_of (0x80 + n mod 64)]
      else if n < 0x10000
      then [char_of (0xE0 + n div 4096), char_of (0x80 + n div 64 mod 64), char_of (0x80 + n mod 64)]
      else [char_of (0xF0 + n div 262144), char_of (0x80 + n div 4096 mod 64),
            char_of (0x80 + n div 64 mod 64), char_of (0x80 + n mod 64)])"

text \<open>A high surrogate followed by a low one is one character; a lone surrogate becomes U+FFFD.\<close>

fun unquote :: "sitem list \<Rightarrow> string" where
  "unquote [] = []"
| "unquote (SByte c # is) = c # unquote is"
| "unquote (SUnit u # SUnit v # is) =
     (if 0xD800 \<le> u \<and> u < 0xDC00 \<and> 0xDC00 \<le> v \<and> v < 0xE000
      then utf8 ((u - 0xD800) * 1024 + (v - 0xDC00) + 0x10000) @ unquote is
      else (if 0xD800 \<le> u \<and> u < 0xE000 then utf8 0xFFFD else utf8 u) @ unquote (SUnit v # is))"
| "unquote (SUnit u # is) = (if 0xD800 \<le> u \<and> u < 0xE000 then utf8 0xFFFD else utf8 u) @ unquote is"

definition lex_digits :: "string \<Rightarrow> string \<times> string" where
  "lex_digits s = (takeWhile is_digit s, dropWhile is_digit s)"

definition lex_int :: "string \<Rightarrow> string \<times> string" where
  "lex_int s =
     (case s of [] \<Rightarrow> ([], [])
      | c # s1 \<Rightarrow> if c = CHR ''0'' then ([c], s1) else lex_digits s)"

definition lex_frac :: "string \<Rightarrow> (string \<times> string) option" where
  "lex_frac s =
     (case s of [] \<Rightarrow> Some ([], [])
      | c # s1 \<Rightarrow>
          if c = CHR ''.'' then (case lex_digits s1 of (d, r) \<Rightarrow> if d = [] then None else Some (c # d, r))
          else Some ([], s))"

definition lex_exp :: "string \<Rightarrow> (string \<times> string) option" where
  "lex_exp s =
     (case s of [] \<Rightarrow> Some ([], [])
      | c # s1 \<Rightarrow>
          if c = CHR ''e'' \<or> c = CHR ''E'' then
            (let (sg, s2) = (case s1 of [] \<Rightarrow> ([], [])
                   | x # s2 \<Rightarrow> if x = CHR ''+'' \<or> x = CHR ''-'' then ([x], s2) else ([], s1))
             in case lex_digits s2 of (d, r) \<Rightarrow> if d = [] then None else Some (c # sg @ d, r))
          else Some ([], s))"

definition lex_num :: "string \<Rightarrow> (string \<times> string) option" where
  "lex_num s =
     (let (sg, s1) = (case s of [] \<Rightarrow> ([], [])
            | c # s1 \<Rightarrow> if c = CHR ''-'' then ([c], s1) else ([], s))
      in case lex_int s1 of (ip, s2) \<Rightarrow>
         if ip = [] then None
         else (case lex_frac s2 of None \<Rightarrow> None
               | Some (fp, s3) \<Rightarrow>
                  (case lex_exp s3 of None \<Rightarrow> None
                   | Some (ep, s4) \<Rightarrow> Some (sg @ ip @ fp @ ep, s4))))"

text \<open>Every literal takes at least one character.\<close>

lemma lex_digits_concat: "lex_digits s = (d, r) \<Longrightarrow> s = d @ r"
  by (auto simp: lex_digits_def)

lemma lex_num_length:
  assumes "lex_num s = Some (n, r)"
  shows "length r < length s"
proof -
  have i: "s' = ip @ r'" if "lex_int s' = (ip, r')" for s' ip r'
    using that lex_digits_concat by (auto simp: lex_int_def split: list.splits if_splits)
  have f: "s' = fp @ r'" if "lex_frac s' = Some (fp, r')" for s' fp r'
    using that by (auto simp: lex_frac_def lex_digits_def split: list.splits if_splits)
  have e: "s' = ep @ r'" if "lex_exp s' = Some (ep, r')" for s' ep r'
    using that by (auto simp: lex_exp_def lex_digits_def split: list.splits if_splits)
  have "s = n @ r \<and> n \<noteq> []" using assms
    by (auto simp: lex_num_def Let_def split: list.splits if_splits prod.splits option.splits dest!: i f e)
  then show ?thesis by (auto simp: length_append)
qed

lemma lex_str_length: "lex_str s = Some (is, r) \<Longrightarrow> length r < length s"
proof (induction s arbitrary: "is" rule: measure_induct_rule [of length])
  case (less s)
  have IH: "length r < length s" if "lex_str t = Some (js, r)" "length t < length s" for t js
    using less.IH [OF that(2,1)] that(2) by simp
  show ?case using less.prems
    by (subst (asm) lex_str.simps)
      (auto split: list.splits if_splits option.splits dest!: IH hex4_length)
qed

text \<open>The next token, none for a white space, and the text after it.\<close>

definition punct :: "char \<Rightarrow> token option" where
  "punct c =
     (if c = CHR ''{'' then Some TLBrace else if c = CHR ''}'' then Some TRBrace
      else if c = CHR ''['' then Some TLBrack else if c = CHR '']'' then Some TRBrack
      else if c = CHR '','' then Some TComma else if c = CHR '':'' then Some TColon else None)"

definition lex_token :: "char \<Rightarrow> string \<Rightarrow> (token option \<times> string) option" where
  "lex_token c r =
     (if is_ws c then Some (None, r)
      else if punct c \<noteq> None then Some (punct c, r)
      else if c = CHR 0x22 then map_option (\<lambda>(is, r1). (Some (TStr (unquote is)), r1)) (lex_str r)
      else if c = CHR ''-'' \<or> is_digit c then map_option (\<lambda>(n, r1). (Some (TNum n), r1)) (lex_num (c # r))
      else if c = CHR ''t'' \<and> take 3 r = ''rue'' then Some (Some (TBool True), drop 3 r)
      else if c = CHR ''f'' \<and> take 4 r = ''alse'' then Some (Some (TBool False), drop 4 r)
      else if c = CHR ''n'' \<and> take 3 r = ''ull'' then Some (Some TNull, drop 3 r)
      else None)"

lemma lex_token_length: "lex_token c s = Some (t, r) \<Longrightarrow> length r < Suc (length s)"
  using lex_str_length [of s] lex_num_length [of "c # s"]
  by (fastforce simp: lex_token_def split: if_splits)

fun cons_opt :: "'a option \<Rightarrow> 'a list \<Rightarrow> 'a list" where
  "cons_opt None xs = xs"
| "cons_opt (Some x) xs = x # xs"

function lex :: "string \<Rightarrow> token list option" where
  "lex [] = Some []"
| "lex (c # s) =
     (case lex_token c s of None \<Rightarrow> None | Some (t, r) \<Rightarrow> map_option (cons_opt t) (lex r))"
  by pat_completeness auto
termination by (relation "measure length") (auto dest: lex_token_length)

section \<open>Parser\<close>

text \<open>An open array with its elements so far, an open object with its members and the current key.\<close>

datatype frame = FArr "json list" | FObj "(string \<times> json) list" string

datatype pstate = PValue | PValueOrEnd | PKeyOrEnd | PKey | PColon | PAfter json

definition maxNestingDepth :: nat where
  "maxNestingDepth = 10000"

definition begin_value :: "token \<Rightarrow> frame list \<Rightarrow> (pstate \<times> frame list) option" where
  "begin_value t stk =
     (case t of
        TNull \<Rightarrow> Some (PAfter JNull, stk)
      | TBool b \<Rightarrow> Some (PAfter (JBool b), stk)
      | TNum n \<Rightarrow> Some (PAfter (JNum n), stk)
      | TStr x \<Rightarrow> Some (PAfter (JStr x), stk)
      | TLBrack \<Rightarrow> if length stk < maxNestingDepth then Some (PValueOrEnd, FArr [] # stk) else None
      | TLBrace \<Rightarrow> if length stk < maxNestingDepth then Some (PKeyOrEnd, FObj [] [] # stk) else None
      | _ \<Rightarrow> None)"

fun pstep :: "token \<Rightarrow> pstate \<Rightarrow> frame list \<Rightarrow> (pstate \<times> frame list) option" where
  "pstep t PValue stk = begin_value t stk"
| "pstep t PValueOrEnd (FArr vs # stk) =
     (if t = TRBrack then Some (PAfter (JArr vs), stk) else begin_value t (FArr vs # stk))"
| "pstep (TStr k) PKeyOrEnd (FObj kvs k' # stk) = Some (PColon, FObj kvs k # stk)"
| "pstep TRBrace PKeyOrEnd (FObj kvs k' # stk) = Some (PAfter (JObj kvs), stk)"
| "pstep (TStr k) PKey (FObj kvs k' # stk) = Some (PColon, FObj kvs k # stk)"
| "pstep TColon PColon stk = Some (PValue, stk)"
| "pstep TComma (PAfter v) (FArr vs # stk) = Some (PValue, FArr (vs @ [v]) # stk)"
| "pstep TRBrack (PAfter v) (FArr vs # stk) = Some (PAfter (JArr (vs @ [v])), stk)"
| "pstep TComma (PAfter v) (FObj kvs k # stk) = Some (PKey, FObj (kvs @ [(k, v)]) [] # stk)"
| "pstep TRBrace (PAfter v) (FObj kvs k # stk) = Some (PAfter (JObj (kvs @ [(k, v)])), stk)"
| "pstep t st stk = None"

fun prun :: "token list \<Rightarrow> pstate \<Rightarrow> frame list \<Rightarrow> json option" where
  "prun [] st stk = (case (st, stk) of (PAfter v, []) \<Rightarrow> Some v | _ \<Rightarrow> None)"
| "prun (t # ts) st stk = (case pstep t st stk of None \<Rightarrow> None | Some (st1, stk1) \<Rightarrow> prun ts st1 stk1)"

definition parse_json :: "string \<Rightarrow> json option" where
  "parse_json s = (case lex s of None \<Rightarrow> None | Some ts \<Rightarrow> prun ts PValue [])"

section \<open>Integers\<close>

fun show_nat :: "nat \<Rightarrow> string" where
  "show_nat n = (if n < 10 then [char_of (48 + n)] else show_nat (n div 10) @ [char_of (48 + n mod 10)])"

declare show_nat.simps [simp del]

definition show_int :: "int \<Rightarrow> string" where
  "show_int i = (if i < 0 then CHR ''-'' # show_nat (nat (- i)) else show_nat (nat i))"

definition parse_nat :: "string \<Rightarrow> nat" where
  "parse_nat s = fold (\<lambda>c n. 10 * n + (code c - 48)) s 0"

text \<open>\<^verbatim>\<open>strconv.ParseInt(s, 10, 64)\<close> on a JSON number.\<close>

definition ParseInt :: "string \<Rightarrow> int option" where
  "ParseInt s =
     (let (neg, ds) = (case s of [] \<Rightarrow> (False, []) | c # r \<Rightarrow> if c = CHR ''-'' then (True, r) else (False, s));
          v = (if neg then - int (parse_nat ds) else int (parse_nat ds))
      in if ds = [] \<or> \<not> list_all is_digit ds then None
         else if - (2 ^ 63) \<le> v \<and> v < 2 ^ 63 then Some v else None)"

definition int64 :: "int \<Rightarrow> bool" where
  "int64 i \<longleftrightarrow> - (2 ^ 63) \<le> i \<and> i < 2 ^ 63"

section \<open>Printing\<close>

fun commas :: "token list list \<Rightarrow> token list" where
  "commas [] = []"
| "commas [x] = x"
| "commas (x # y # xs) = x @ TComma # commas (y # xs)"

fun toks :: "json \<Rightarrow> token list" where
  "toks JNull = [TNull]"
| "toks (JBool b) = [TBool b]"
| "toks (JNum n) = [TNum n]"
| "toks (JStr x) = [TStr x]"
| "toks (JArr vs) = TLBrack # commas (map toks vs) @ [TRBrack]"
| "toks (JObj kvs) = TLBrace # commas (map (\<lambda>kv. TStr (fst kv) # TColon # toks (snd kv)) kvs) @ [TRBrace]"

definition hex_digit :: "nat \<Rightarrow> char" where
  "hex_digit n = (if n < 10 then char_of (48 + n) else char_of (87 + n))"

definition quote_char :: "char \<Rightarrow> string" where
  "quote_char c =
     (if c = CHR 0x22 \<or> c = CHR 0x5C then [CHR 0x5C, c]
      else if c = CHR 0x0A then [CHR 0x5C, CHR ''n''] else if c = CHR 0x0D then [CHR 0x5C, CHR ''r'']
      else if c = CHR 0x09 then [CHR 0x5C, CHR ''t'']
      else if code c < 0x20 \<or> c = CHR ''<'' \<or> c = CHR ''>'' \<or> c = CHR ''&''
      then CHR 0x5C # ''u00'' @ [hex_digit (code c div 16), hex_digit (code c mod 16)]
      else [c])"

fun show_tok :: "token \<Rightarrow> string" where
  "show_tok TNull = ''null''"
| "show_tok (TBool b) = (if b then ''true'' else ''false'')"
| "show_tok (TNum n) = n"
| "show_tok (TStr x) = CHR 0x22 # concat (map quote_char x) @ [CHR 0x22]"
| "show_tok TLBrack = ''[''"
| "show_tok TRBrack = '']''"
| "show_tok TLBrace = ''{''"
| "show_tok TRBrace = ''}''"
| "show_tok TComma = '',''"
| "show_tok TColon = '':''"

definition show_json :: "json \<Rightarrow> string" where
  "show_json v = concat (map show_tok (toks v))"

section \<open>Decoding\<close>

type_synonym 'a dec = "json \<Rightarrow> 'a \<Rightarrow> 'a \<times> bool"

fun dec_int :: "int dec" where
  "dec_int JNull x = (x, False)"
| "dec_int (JNum n) x = (case ParseInt n of None \<Rightarrow> (x, True) | Some i \<Rightarrow> (i, False))"
| "dec_int j x = (x, True)"

fun dec_bool :: "bool dec" where
  "dec_bool JNull x = (x, False)"
| "dec_bool (JBool b) x = (b, False)"
| "dec_bool j x = (x, True)"

fun dec_string :: "string dec" where
  "dec_string JNull x = (x, False)"
| "dec_string (JStr s) x = (s, False)"
| "dec_string j x = (x, True)"

text \<open>A pointer: \<^verbatim>\<open>null\<close> makes it \<^verbatim>\<open>nil\<close>, any other value is stored into what it points to, a new zero
  value when it is \<^verbatim>\<open>nil\<close>.\<close>

definition dec_ptr :: "'a \<Rightarrow> 'a dec \<Rightarrow> 'a option dec" where
  "dec_ptr z d j p =
     (if j = JNull then (None, False)
      else case d j (case p of None \<Rightarrow> z | Some x \<Rightarrow> x) of (x, e) \<Rightarrow> (Some x, e))"

text \<open>An array: elements beyond its length are skipped, missing ones become zero.\<close>

fun dec_elems :: "'a \<Rightarrow> 'a dec \<Rightarrow> json list \<Rightarrow> 'a list \<Rightarrow> 'a list \<times> bool" where
  "dec_elems z d js [] = ([], False)"
| "dec_elems z d [] (x # xs) = (case dec_elems z d [] xs of (ys, e) \<Rightarrow> (z # ys, e))"
| "dec_elems z d (j # js) (x # xs) =
     (case d j x of (y, e1) \<Rightarrow> case dec_elems z d js xs of (ys, e2) \<Rightarrow> (y # ys, e1 \<or> e2))"

fun dec_array :: "'a \<Rightarrow> 'a dec \<Rightarrow> 'a list dec" where
  "dec_array z d JNull xs = (xs, False)"
| "dec_array z d (JArr js) xs = dec_elems z d js xs"
| "dec_array z d j xs = (xs, True)"

text \<open>Field names match up to case; the Kelvin sign folds to K and the long s to S.\<close>

definition upper :: "char \<Rightarrow> char" where
  "upper c = (if 97 \<le> code c \<and> code c \<le> 122 then char_of (code c - 32) else c)"

fun foldName :: "string \<Rightarrow> string" where
  "foldName (a # b # c # s) =
     (if a = CHR 0xE2 \<and> b = CHR 0x84 \<and> c = CHR 0xAA then CHR ''K'' # foldName s
      else if a = CHR 0xC5 \<and> b = CHR 0xBF then CHR ''S'' # foldName (c # s)
      else upper a # foldName (b # c # s))"
| "foldName [a, b] = (if a = CHR 0xC5 \<and> b = CHR 0xBF then ''S'' else [upper a, upper b])"
| "foldName [a] = [upper a]"
| "foldName [] = []"

declare foldName.simps [simp del]

text \<open>A struct: each member of the object goes to the field of its name, unknown members are skipped.\<close>

fun dec_field :: "(string \<times> 'a dec) list \<Rightarrow> string \<Rightarrow> 'a dec" where
  "dec_field [] k j x = (x, False)"
| "dec_field ((f, d) # fs) k j x = (if foldName k = foldName f then d j x else dec_field fs k j x)"

fun dec_members :: "(string \<times> 'a dec) list \<Rightarrow> (string \<times> json) list \<Rightarrow> 'a \<Rightarrow> 'a \<times> bool" where
  "dec_members fs [] x = (x, False)"
| "dec_members fs ((k, j) # kvs) x =
     (case dec_field fs k j x of (y, e1) \<Rightarrow> case dec_members fs kvs y of (z, e2) \<Rightarrow> (z, e1 \<or> e2))"

fun dec_struct :: "(string \<times> 'a dec) list \<Rightarrow> 'a dec" where
  "dec_struct fs JNull x = (x, False)"
| "dec_struct fs (JObj kvs) x = dec_members fs kvs x"
| "dec_struct fs j x = (x, True)"

text \<open>Bytes and text, and the two entry points. \<^verbatim>\<open>Unmarshal\<close> gives the variable and whether it
  returned an error.\<close>

definition bytes_of :: "string \<Rightarrow> byte list" where
  "bytes_of s = map (\<lambda>c. word_of_nat (code c)) s"

definition text_of :: "byte list \<Rightarrow> string" where
  "text_of bs = map (\<lambda>b. char_of (unat b)) bs"

definition Marshal :: "json \<Rightarrow> byte list" where
  "Marshal v = bytes_of (show_json v)"

definition Unmarshal :: "'a dec \<Rightarrow> byte list \<Rightarrow> 'a \<Rightarrow> 'a \<times> bool" where
  "Unmarshal d bs x = (case parse_json (text_of bs) of None \<Rightarrow> (x, True) | Some v \<Rightarrow> d v x)"

section \<open>Reading back what was printed\<close>

lemma text_of_bytes [simp]: "text_of (bytes_of s) = s"
  by (induction s) (simp_all add: text_of_def bytes_of_def unsigned_of_nat take_bit_nat_eq_self nat_of_char_less_256)

lemma code_char_of [simp]: "n < 256 \<Longrightarrow> code (char_of n) = n"
  by (simp add: of_char_of)

lemma digit_char: "(n :: nat) < 10 \<Longrightarrow> is_digit (char_of (48 + n))"
  by (simp add: is_digit_def)

lemma show_nat_digits: "list_all is_digit (show_nat n)"
proof (induction n rule: show_nat.induct)
  case (1 n)
  then show ?case by (subst show_nat.simps) (simp add: digit_char)
qed

lemma show_nat_ne [simp]: "show_nat n \<noteq> []"
  by (subst show_nat.simps) simp

lemma parse_show_nat: "parse_nat (show_nat n) = n"
proof (induction n rule: show_nat.induct)
  case (1 n)
  then show ?case by (subst show_nat.simps) (auto simp: parse_nat_def)
qed

lemma show_nat_hd: "0 < n \<Longrightarrow> hd (show_nat n) \<noteq> CHR ''0''"
proof (induction n rule: show_nat.induct)
  case (1 n)
  show ?case
  proof (cases "n < 10")
    case True
    have "char_of (48 + n) \<noteq> CHR ''0''"
    proof
      assume "char_of (48 + n) = CHR ''0''"
      then have "code (char_of (48 + n)) = 48" by simp
      with True "1.prems" show False by simp
    qed
    with True show ?thesis by (subst show_nat.simps) simp
  next
    case False
    then show ?thesis using "1.IH" by (subst show_nat.simps) (simp add: hd_append)
  qed
qed

lemma digit_not_minus: "is_digit c \<Longrightarrow> c \<noteq> CHR ''-''"
  by (auto simp: is_digit_def)

lemma show_nat_Cons:
  obtains c cs where "show_nat n = c # cs" "is_digit c" "list_all is_digit cs" "0 < n \<Longrightarrow> c \<noteq> CHR ''0''"
proof (cases "show_nat n")
  case (Cons c cs)
  then show thesis using that [of c cs] show_nat_digits [of n] show_nat_hd [of n] by simp
qed simp

lemma ParseInt_show:
  assumes "int64 i"
  shows "ParseInt (show_int i) = Some i"
proof (cases "i < 0")
  case True
  then show ?thesis using assms
    by (simp add: ParseInt_def show_int_def show_nat_digits parse_show_nat int64_def)
next
  case False
  obtain c cs where "show_nat (nat i) = c # cs" "is_digit c" by (rule show_nat_Cons)
  then show ?thesis using False assms show_nat_digits [of "nat i"] parse_show_nat [of "nat i"] digit_not_minus [of c]
    by (simp add: ParseInt_def show_int_def int64_def)
qed

text \<open>A number ends where a character follows that cannot continue it.\<close>

definition ends_num :: "string \<Rightarrow> bool" where
  "ends_num s \<longleftrightarrow> (case s of [] \<Rightarrow> True
     | c # r \<Rightarrow> \<not> is_digit c \<and> c \<noteq> CHR ''.'' \<and> c \<noteq> CHR ''e'' \<and> c \<noteq> CHR ''E'')"

lemma lex_int_show:
  assumes "ends_num r"
  shows "lex_int (show_nat n @ r) = (show_nat n, r)"
proof (cases "n = 0")
  case True
  have "show_nat 0 = ''0''" by (subst show_nat.simps) (simp add: char_of_def bit_simps)
  with True show ?thesis by (simp add: lex_int_def)
next
  case False
  obtain c cs where c: "show_nat n = c # cs" "is_digit c" "list_all is_digit cs" "c \<noteq> CHR ''0''"
    using show_nat_Cons [of n] False by blast
  have "takeWhile is_digit (cs @ r) = cs" "dropWhile is_digit (cs @ r) = r"
    using assms c(3) by (auto simp: ends_num_def list_all_iff split: list.splits)
  with c show ?thesis by (simp add: lex_int_def lex_digits_def)
qed

lemma lex_num_show:
  assumes "ends_num r"
  shows "lex_num (show_int i @ r) = Some (show_int i, r)"
proof -
  have f: "lex_frac r = Some ([], r)" "lex_exp r = Some ([], r)"
    using assms by (auto simp: lex_frac_def lex_exp_def ends_num_def split: list.splits)
  obtain c cs where c: "show_nat (nat i) = c # cs" "is_digit c" by (rule show_nat_Cons)
  show ?thesis
    using f lex_int_show [OF assms, of "nat (- i)"] lex_int_show [OF assms, of "nat i"] c digit_not_minus [of c]
    by (auto simp: lex_num_def show_int_def Let_def)
qed

text \<open>Strings without quotes, backslashes, control and HTML characters.\<close>

definition plain_char :: "char \<Rightarrow> bool" where
  "plain_char c \<longleftrightarrow> 0x20 \<le> code c \<and> c \<notin> {CHR 0x22, CHR 0x5C, CHR ''<'', CHR ''>'', CHR ''&''}"

abbreviation plain :: "string \<Rightarrow> bool" where
  "plain s \<equiv> list_all plain_char s"

lemma plain_ne:
  assumes "plain_char c"
  shows "c \<noteq> CHR 0x22" "c \<noteq> CHR 0x5C" "c \<noteq> CHR ''<''" "c \<noteq> CHR ''>''" "c \<noteq> CHR ''&''" "\<not> code c < 0x20"
  using assms by (simp_all add: plain_char_def)

lemma plain_ctrl: "plain_char c \<Longrightarrow> code d < 0x20 \<Longrightarrow> (c = d) = False"
  by (auto simp: plain_char_def)

lemma quote_plain: "plain s \<Longrightarrow> concat (map quote_char s) = s"
  by (induction s) (simp_all add: quote_char_def plain_ne plain_ctrl)

lemma lex_str_plain: "plain s \<Longrightarrow> lex_str (s @ CHR 0x22 # r) = Some (map SByte s, r)"
proof (induction s)
  case (Cons c s)
  then show ?case by (subst lex_str.simps) (simp add: plain_ne)
qed (simp add: lex_str.simps)

lemma unquote_bytes: "unquote (map SByte s) = s"
  by (induction s) simp_all

text \<open>The tokens of a value that is printed: integers, plain strings.\<close>

fun good_tok :: "token \<Rightarrow> bool" where
  "good_tok (TNum n) \<longleftrightarrow> (\<exists>i. n = show_int i)"
| "good_tok (TStr x) \<longleftrightarrow> plain x"
| "good_tok t \<longleftrightarrow> True"

fun is_num :: "token \<Rightarrow> bool" where
  "is_num (TNum n) = True"
| "is_num t = False"

text \<open>No two numbers stand next to each other.\<close>

fun apart :: "token list \<Rightarrow> bool" where
  "apart (t # u # ts) \<longleftrightarrow> \<not> (is_num t \<and> is_num u) \<and> apart (u # ts)"
| "apart ts \<longleftrightarrow> True"

lemma show_int_Cons: obtains c cs where "show_int i = c # cs" "c = CHR ''-'' \<or> is_digit c"
proof (cases "i < 0")
  case True
  then show thesis using that [of "CHR ''-''"] by (simp add: show_int_def)
next
  case False
  obtain c cs where "show_nat (nat i) = c # cs" "is_digit c" by (rule show_nat_Cons)
  with False that show thesis by (simp add: show_int_def)
qed

lemma num_start:
  assumes "c = CHR ''-'' \<or> is_digit c"
  shows "\<not> is_ws c" "punct c = None" "c \<noteq> CHR 0x22"
proof -
  have k: "code c = 45 \<or> 48 \<le> code c \<and> code c \<le> 57" using assms by (auto simp: is_digit_def)
  have ne: "c \<noteq> d" if "code d < 45 \<or> 57 < code d" for d using that k by auto
  show "\<not> is_ws c" using k by (simp add: is_ws_def) linarith
  have "c \<noteq> CHR ''{''" "c \<noteq> CHR ''}''" "c \<noteq> CHR ''[''" "c \<noteq> CHR '']''" "c \<noteq> CHR '',''" "c \<noteq> CHR '':''"
    by (rule ne; simp)+
  then show "punct c = None" by (simp add: punct_def)
  show "c \<noteq> CHR 0x22" by (rule ne) simp
qed

lemma lex_token_show:
  assumes "good_tok t" "is_num t \<Longrightarrow> ends_num r"
  obtains c cs where "show_tok t = c # cs" "lex_token c (cs @ r) = Some (Some t, r)"
proof (cases t)
  case (TNum n)
  then obtain i where i: "n = show_int i" using assms(1) by auto
  obtain c cs where c: "show_int i = c # cs" "c = CHR ''-'' \<or> is_digit c" by (rule show_int_Cons)
  note start = num_start [OF c(2)]
  have "lex_token c (cs @ r) = Some (Some t, r)"
    using lex_num_show [of r i] assms(2) TNum i c by (simp add: lex_token_def start)
  with c(1) i TNum that show thesis by simp
next
  case (TStr x)
  then have "plain x" using assms(1) by simp
  then show thesis using that [of "CHR 0x22" "x @ [CHR 0x22]"] TStr
    by (simp add: quote_plain lex_token_def is_ws_def punct_def lex_str_plain unquote_bytes)
next
  case (TBool b)
  then show thesis using that by (cases b) (simp_all add: lex_token_def is_ws_def punct_def is_digit_def)
qed (use that in \<open>simp_all add: lex_token_def is_ws_def punct_def is_digit_def\<close>)

lemma ends_num_show:
  assumes "good_tok u" "\<not> is_num u"
  shows "ends_num (show_tok u @ r)"
  using assms by (cases u) (auto simp: ends_num_def is_digit_def)

lemma lex_tokens: "list_all good_tok ts \<Longrightarrow> apart ts \<Longrightarrow> lex (concat (map show_tok ts)) = Some ts"
proof (induction ts)
  case (Cons t ts)
  have "is_num t \<Longrightarrow> ends_num (concat (map show_tok ts))"
    using Cons.prems by (cases ts) (auto simp: ends_num_def [of "[]"] intro: ends_num_show)
  then obtain c cs where "show_tok t = c # cs"
      "lex_token c (cs @ concat (map show_tok ts)) = Some (Some t, concat (map show_tok ts))"
    using lex_token_show [of t "concat (map show_tok ts)"] Cons.prems(1) by auto
  moreover have "lex (concat (map show_tok ts)) = Some ts" using Cons by (cases ts) auto
  ultimately show ?case by simp
qed simp

text \<open>Values within the nesting limit.\<close>

fun depth :: "json \<Rightarrow> nat" where
  "depth (JArr vs) = Suc (foldr max (map depth vs) 0)"
| "depth (JObj kvs) = Suc (foldr max (map (\<lambda>kv. depth (snd kv)) kvs) 0)"
| "depth v = 0"

definition starts_num :: "token list \<Rightarrow> bool" where
  "starts_num ts = (case ts of [] \<Rightarrow> False | t # r \<Rightarrow> is_num t)"

lemma apart_Cons: "apart (t # ts) \<longleftrightarrow> \<not> (is_num t \<and> starts_num ts) \<and> apart ts"
  by (cases ts) (auto simp: starts_num_def)

lemma starts_num_Cons [simp]: "starts_num (t # ts) = is_num t"
  by (simp add: starts_num_def)

lemma apart_commas:
  assumes "\<And>x ts. x \<in> set xs \<Longrightarrow> \<not> starts_num ts \<Longrightarrow> apart ts \<Longrightarrow> apart (x @ ts)"
    "\<not> starts_num ts" "apart ts"
  shows "apart (commas xs @ ts)"
  using assms
proof (induction xs rule: commas.induct)
  case (3 x y xs)
  then have "apart (commas (y # xs) @ ts)" by simp
  with "3.prems"(1) [of x "TComma # commas (y # xs) @ ts"] show ?case by (simp add: apart_Cons)
qed simp_all

lemma apart_toks: "\<not> starts_num ts \<Longrightarrow> apart ts \<Longrightarrow> apart (toks v @ ts)"
proof (induction v arbitrary: ts rule: toks.induct)
  case (5 vs)
  have "apart (commas (map toks vs) @ TRBrack # ts)"
    using 5 by (intro apart_commas) (auto simp: apart_Cons)
  then show ?case by (simp add: apart_Cons)
next
  case (6 kvs)
  have "apart (commas (map (\<lambda>kv. TStr (fst kv) # TColon # toks (snd kv)) kvs) @ TRBrace # ts)"
    using 6 by (intro apart_commas) (auto simp: apart_Cons)
  then show ?case by (simp add: apart_Cons)
qed (simp_all add: apart_Cons)

text \<open>The parser on the tokens of a value.\<close>

definition reads :: "nat \<Rightarrow> token list \<Rightarrow> json \<Rightarrow> bool" where
  "reads d x v \<longleftrightarrow> (\<forall>ts stk. length stk + d \<le> maxNestingDepth \<longrightarrow>
     prun (x @ ts) PValue stk = prun ts (PAfter v) stk)"

lemma prun_array:
  assumes "\<And>v. v \<in> set vs \<Longrightarrow> reads d (toks v) v" "vs \<noteq> []" "length stk + Suc d \<le> maxNestingDepth"
  shows "prun (commas (map toks vs) @ TRBrack # ts) PValue (FArr acc # stk) = prun ts (PAfter (JArr (acc @ vs))) stk"
  using assms
proof (induction vs arbitrary: acc)
  case (Cons v vs)
  have v: "prun (toks v @ us) PValue (FArr acc # stk) = prun us (PAfter v) (FArr acc # stk)" for us
    using Cons.prems(1) [of v] Cons.prems(3) by (simp add: reads_def)
  show ?case
  proof (cases vs)
    case Nil
    then show ?thesis by (simp add: v)
  next
    case (Cons w ws)
    with v Cons.IH [of "acc @ [v]"] Cons.prems show ?thesis by simp
  qed
qed simp

lemma prun_object:
  assumes "\<And>kv. kv \<in> set kvs \<Longrightarrow> reads d (toks (snd kv)) (snd kv)" "kvs \<noteq> []" "length stk + Suc d \<le> maxNestingDepth"
    "st = PKey \<or> st = PKeyOrEnd"
  shows "prun (commas (map (\<lambda>kv. TStr (fst kv) # TColon # toks (snd kv)) kvs) @ TRBrace # ts) st (FObj acc k # stk)
    = prun ts (PAfter (JObj (acc @ kvs))) stk"
  using assms
proof (induction kvs arbitrary: acc k st)
  case (Cons kv kvs)
  have key: "prun (TStr x # TColon # us) st (FObj acc k # stk) = prun us PValue (FObj acc x # stk)" for x us
    using Cons.prems(4) by auto
  have v: "prun (toks (snd kv) @ us) PValue (FObj acc x # stk) = prun us (PAfter (snd kv)) (FObj acc x # stk)" for us x
    using Cons.prems(1) [of kv] Cons.prems(3) by (simp add: reads_def)
  show ?case
  proof (cases kvs)
    case Nil
    then show ?thesis using key v by simp
  next
    case (Cons w ws)
    with key v Cons.IH [of PKey "acc @ [kv]" "[]"] Cons.prems show ?thesis by simp
  qed
qed simp

lemma toks_Cons: obtains t ts where "toks v = t # ts" "t \<noteq> TRBrack"
  by (cases v) auto

lemma prun_first:
  assumes "vs \<noteq> []"
  shows "prun (commas (map toks vs) @ r) PValueOrEnd (FArr [] # stk) = prun (commas (map toks vs) @ r) PValue (FArr [] # stk)"
proof -
  obtain v ws where vs: "vs = v # ws" using assms by (cases vs) auto
  obtain t ts where t: "toks v = t # ts" "t \<noteq> TRBrack" by (rule toks_Cons)
  have "\<exists>us. commas (map toks vs) @ r = t # us" using vs t(1) by (cases ws) auto
  with t(2) show ?thesis by auto
qed

lemma depth_elem: "v \<in> set vs \<Longrightarrow> depth v \<le> foldr max (map depth vs) 0"
  by (induction vs) auto

lemma depth_member: "kv \<in> set kvs \<Longrightarrow> depth (snd kv) \<le> foldr max (map (\<lambda>kv. depth (snd kv)) kvs) 0"
  by (induction kvs) auto

lemma reads_mono: "reads d x v \<Longrightarrow> d \<le> e \<Longrightarrow> reads e x v"
  by (simp add: reads_def)

lemma reads_toks: "reads (depth v) (toks v) v"
proof (induction v rule: toks.induct)
  case (5 vs)
  let ?d = "foldr max (map depth vs) 0"
  have IH: "reads ?d (toks v) v" if "v \<in> set vs" for v
    using reads_mono [OF 5 [OF that] depth_elem [OF that]] .
  have "prun (toks (JArr vs) @ ts) PValue stk = prun ts (PAfter (JArr vs)) stk"
    if "length stk + Suc ?d \<le> maxNestingDepth" for ts stk
  proof -
    have "prun (commas (map toks vs) @ TRBrack # ts) PValueOrEnd (FArr [] # stk) = prun ts (PAfter (JArr vs)) stk"
      using prun_array [OF IH, where acc = "[]"] that by (cases "vs = []") (simp_all add: prun_first)
    then show ?thesis using that by (simp add: begin_value_def)
  qed
  then show ?case by (simp add: reads_def)
next
  case (6 kvs)
  let ?d = "foldr max (map (\<lambda>kv. depth (snd kv)) kvs) 0"
  have IH: "reads ?d (toks (snd kv)) (snd kv)" if "kv \<in> set kvs" for kv
    using reads_mono [OF 6 [OF that] depth_member [OF that]] .
  have "prun (toks (JObj kvs) @ ts) PValue stk = prun ts (PAfter (JObj kvs)) stk"
    if "length stk + Suc ?d \<le> maxNestingDepth" for ts stk
  proof -
    have "prun (commas (map (\<lambda>kv. TStr (fst kv) # TColon # toks (snd kv)) kvs) @ TRBrace # ts) PKeyOrEnd (FObj [] [] # stk)
        = prun ts (PAfter (JObj kvs)) stk"
      using prun_object [OF IH, where acc = "[]"] that by (cases "kvs = []") simp_all
    then show ?thesis using that by (simp add: begin_value_def)
  qed
  then show ?case by (simp add: reads_def)
qed (simp_all add: reads_def begin_value_def)

text \<open>\<^verbatim>\<open>Unmarshal\<close> of a \<^verbatim>\<open>Marshal\<close>ed value decodes that value.\<close>

lemma parse_show:
  assumes "list_all good_tok (toks v)" "depth v \<le> maxNestingDepth"
  shows "parse_json (show_json v) = Some v"
proof -
  have "apart (toks v @ [])" by (rule apart_toks) (simp_all add: starts_num_def)
  then have "lex (show_json v) = Some (toks v)" unfolding show_json_def by (intro lex_tokens [OF assms(1)]) simp
  moreover have "prun (toks v @ []) PValue [] = prun [] (PAfter v) []"
    using reads_toks [of v] assms(2) unfolding reads_def by (metis add_0 list.size(3))
  ultimately show ?thesis by (simp add: parse_json_def)
qed

lemma Unmarshal_Marshal:
  "list_all good_tok (toks v) \<Longrightarrow> depth v \<le> maxNestingDepth \<Longrightarrow> Unmarshal d (Marshal v) x = d v x"
  by (simp add: Unmarshal_def Marshal_def parse_show)

end
