(* ===== verification/Chess_Packets.thy ===== *)
theory Chess_Packets
  imports Chess_Board Chess_Frame Json
begin

text \<open>
  The packets of the chess example (\<^verbatim>\<open>common_packets/packet.go\<close>, \<^verbatim>\<open>common_packets/parse.go\<close>; the
  frontend has copies of both files). A packet struct embeds \<^verbatim>\<open>PacketHeader\<close>, so its record extends
  the header's; pointers are options. The result of a parse is an \<^verbatim>\<open>interface{}\<close>: \<^const>\<open>None\<close> is
  \<^verbatim>\<open>nil\<close>, and \<open>packet\<close> has a constructor for each dynamic type.
\<close>

section \<open>Packets\<close>

abbreviation (input) PacketTypeHeartbeat :: int where "PacketTypeHeartbeat \<equiv> 0"
abbreviation (input) PacketTypeClientStartMatch :: int where "PacketTypeClientStartMatch \<equiv> 1"
abbreviation (input) PacketTypeServerMatching :: int where "PacketTypeServerMatching \<equiv> 2"
abbreviation (input) PacketTypeServerMatchedOK :: int where "PacketTypeServerMatchedOK \<equiv> 3"
abbreviation (input) PacketTypeClientMove :: int where "PacketTypeClientMove \<equiv> 4"
abbreviation (input) PacketTypeServerMoveResp :: int where "PacketTypeServerMoveResp \<equiv> 5"
abbreviation (input) PacketTypeServerGameOver :: int where "PacketTypeServerGameOver \<equiv> 6"
abbreviation (input) PacketTypeServerRemoteLoseConnection :: int where
  "PacketTypeServerRemoteLoseConnection \<equiv> 7"
abbreviation (input) PacketTypeServerNotifyRemoteMove :: int where "PacketTypeServerNotifyRemoteMove \<equiv> 8"

record PacketHeader =
  hType :: "int option"

record PacketServerMatchedOK = PacketHeader +
  matchedSide :: GameSide
  matchedTable :: "ChessTable option"

record PacketClientMove = PacketHeader +
  FromX :: int
  FromY :: int
  ToX :: int
  ToY :: int

record PacketServerMoveResp = PacketHeader +
  respOK :: bool
  TableOnOK :: "ChessTable option"
  ErrMsgOnFailed :: "string option"

record PacketServerGameOver = PacketHeader +
  overTable :: "ChessTable option"
  WinnerSide :: GameSide

record PacketServerNotifyRemoteMove = PacketHeader +
  notifyTable :: "ChessTable option"

datatype packet =
    PacketHeartbeat PacketHeader
  | PacketClientStartMatch PacketHeader
  | PacketServerMatching PacketHeader
  | PServerMatchedOK PacketServerMatchedOK
  | PClientMove PacketClientMove
  | PServerMoveResp PacketServerMoveResp
  | PServerGameOver PacketServerGameOver
  | PacketServerRemoteLoseConnection PacketHeader
  | PServerNotifyRemoteMove PacketServerNotifyRemoteMove

section \<open>Go integers behind the enumerations\<close>

fun int_of_piece :: "PieceType \<Rightarrow> int" where
  "int_of_piece PieceTypeChe = 0"
| "int_of_piece PieceTypeMa = 1"
| "int_of_piece PieceTypeXiang = 2"
| "int_of_piece PieceTypeShi = 3"
| "int_of_piece PieceTypeShuai = 4"
| "int_of_piece PieceTypePao = 5"
| "int_of_piece PieceTypeBing = 6"
| "int_of_piece (PieceTypeOther i) = i"

definition piece_of_int :: "int \<Rightarrow> PieceType" where
  "piece_of_int i =
     (if i = 0 then PieceTypeChe else if i = 1 then PieceTypeMa else if i = 2 then PieceTypeXiang
      else if i = 3 then PieceTypeShi else if i = 4 then PieceTypeShuai else if i = 5 then PieceTypePao
      else if i = 6 then PieceTypeBing else PieceTypeOther i)"

fun int_of_side :: "GameSide \<Rightarrow> int" where
  "int_of_side GameSideRed = 0"
| "int_of_side GameSideBlack = 1"
| "int_of_side (GameSideOther i) = i"

definition side_of_int :: "int \<Rightarrow> GameSide" where
  "side_of_int i = (if i = 0 then GameSideRed else if i = 1 then GameSideBlack else GameSideOther i)"

section \<open>Marshalling\<close>

definition jint :: "int \<Rightarrow> json" where
  "jint i = JNum (show_int i)"

definition enc_ptr :: "('a \<Rightarrow> json) \<Rightarrow> 'a option \<Rightarrow> json" where
  "enc_ptr f p = (case p of None \<Rightarrow> JNull | Some x \<Rightarrow> f x)"

definition enc_point :: "ChessPoint \<Rightarrow> json" where
  "enc_point p = JObj [(''X'', jint (PX p)), (''Y'', jint (PY p)),
     (''chess_piece_type'', jint (int_of_piece (PType p))), (''side'', jint (int_of_side (PSide p)))]"

definition enc_table :: "ChessTable \<Rightarrow> json" where
  "enc_table t = JArr (map (enc_ptr enc_point) t)"

definition enc_type :: "('z) PacketHeader_scheme \<Rightarrow> string \<times> json" where
  "enc_type p = (''type'', enc_ptr jint (hType p))"

definition Marshal_Heartbeat :: "PacketHeader \<Rightarrow> byte list" where
  "Marshal_Heartbeat p = (let p1 = p\<lparr>hType := Some PacketTypeHeartbeat\<rparr> in Marshal (JObj [enc_type p1]))"

definition Marshal_ClientStartMatch :: "PacketHeader \<Rightarrow> byte list" where
  "Marshal_ClientStartMatch p =
     (let p1 = p\<lparr>hType := Some PacketTypeClientStartMatch\<rparr> in Marshal (JObj [enc_type p1]))"

definition Marshal_ServerMatching :: "PacketHeader \<Rightarrow> byte list" where
  "Marshal_ServerMatching p =
     (let p1 = p\<lparr>hType := Some PacketTypeServerMatching\<rparr> in Marshal (JObj [enc_type p1]))"

definition Marshal_ServerMatchedOK :: "PacketServerMatchedOK \<Rightarrow> byte list" where
  "Marshal_ServerMatchedOK p =
     (let p1 = p\<lparr>hType := Some PacketTypeServerMatchedOK\<rparr>
      in Marshal (JObj [enc_type p1, (''game_side'', jint (int_of_side (matchedSide p1))),
           (''game_table'', enc_ptr enc_table (matchedTable p1))]))"

definition Marshal_ClientMove :: "PacketClientMove \<Rightarrow> byte list" where
  "Marshal_ClientMove p =
     (let p1 = p\<lparr>hType := Some PacketTypeClientMove\<rparr>
      in Marshal (JObj [enc_type p1, (''from_x'', jint (FromX p1)), (''from_y'', jint (FromY p1)),
           (''to_x'', jint (ToX p1)), (''to_y'', jint (ToY p1))]))"

text \<open>\<^verbatim>\<open>omitempty\<close> leaves out a field whose pointer is \<^verbatim>\<open>nil\<close>.\<close>

definition Marshal_ServerMoveResp :: "PacketServerMoveResp \<Rightarrow> byte list" where
  "Marshal_ServerMoveResp p =
     (let p1 = p\<lparr>hType := Some PacketTypeServerMoveResp\<rparr>
      in Marshal (JObj ([enc_type p1, (''ok'', JBool (respOK p1))]
           @ (case TableOnOK p1 of None \<Rightarrow> [] | Some t \<Rightarrow> [(''table'', enc_table t)])
           @ (case ErrMsgOnFailed p1 of None \<Rightarrow> [] | Some m \<Rightarrow> [(''errmsg'', JStr m)]))))"

definition Marshal_ServerGameOver :: "PacketServerGameOver \<Rightarrow> byte list" where
  "Marshal_ServerGameOver p =
     (let p1 = p\<lparr>hType := Some PacketTypeServerGameOver\<rparr>
      in Marshal (JObj [enc_type p1, (''final_table'', enc_ptr enc_table (overTable p1)),
           (''winner_side'', jint (int_of_side (WinnerSide p1)))]))"

definition Marshal_ServerRemoteLoseConnection :: "PacketHeader \<Rightarrow> byte list" where
  "Marshal_ServerRemoteLoseConnection p =
     (let p1 = p\<lparr>hType := Some PacketTypeServerRemoteLoseConnection\<rparr> in Marshal (JObj [enc_type p1]))"

definition Marshal_ServerNotifyRemoteMove :: "PacketServerNotifyRemoteMove \<Rightarrow> byte list" where
  "Marshal_ServerNotifyRemoteMove p =
     (let p1 = p\<lparr>hType := Some PacketTypeServerNotifyRemoteMove\<rparr>
      in Marshal (JObj [enc_type p1, (''Table'', enc_ptr enc_table (notifyTable p1))]))"

section \<open>Unmarshalling\<close>

text \<open>A decoder for one field of a record, and one for an integer type.\<close>

definition dec_on :: "('r \<Rightarrow> 'a) \<Rightarrow> ('a \<Rightarrow> 'r \<Rightarrow> 'r) \<Rightarrow> 'a dec \<Rightarrow> 'r dec" where
  "dec_on get put d j r = (case d j (get r) of (x, e) \<Rightarrow> (put x r, e))"

definition dec_piece :: "PieceType dec" where
  "dec_piece j k = (case dec_int j (int_of_piece k) of (i, e) \<Rightarrow> (piece_of_int i, e))"

definition dec_side :: "GameSide dec" where
  "dec_side j s = (case dec_int j (int_of_side s) of (i, e) \<Rightarrow> (side_of_int i, e))"

definition zero_point :: ChessPoint where
  "zero_point = \<lparr>PX = 0, PY = 0, PType = PieceTypeChe, PSide = GameSideRed\<rparr>"

definition dec_point :: "ChessPoint dec" where
  "dec_point = dec_struct
     [(''X'', dec_on PX (\<lambda>x r. r\<lparr>PX := x\<rparr>) dec_int), (''Y'', dec_on PY (\<lambda>x r. r\<lparr>PY := x\<rparr>) dec_int),
      (''chess_piece_type'', dec_on PType (\<lambda>x r. r\<lparr>PType := x\<rparr>) dec_piece),
      (''side'', dec_on PSide (\<lambda>x r. r\<lparr>PSide := x\<rparr>) dec_side)]"

definition dec_table :: "ChessTable option dec" where
  "dec_table = dec_ptr (replicate 90 None) (dec_array None (dec_ptr zero_point dec_point))"

definition f_type :: "string \<times> ('z) PacketHeader_scheme dec" where
  "f_type = (''type'', dec_on hType (\<lambda>x r. r\<lparr>hType := x\<rparr>) (dec_ptr 0 dec_int))"

definition dec_Header :: "PacketHeader dec" where
  "dec_Header = dec_struct [f_type]"

definition dec_ServerMatchedOK :: "PacketServerMatchedOK dec" where
  "dec_ServerMatchedOK = dec_struct
     [f_type, (''game_side'', dec_on matchedSide (\<lambda>x r. r\<lparr>matchedSide := x\<rparr>) dec_side),
      (''game_table'', dec_on matchedTable (\<lambda>x r. r\<lparr>matchedTable := x\<rparr>) dec_table)]"

definition dec_ClientMove :: "PacketClientMove dec" where
  "dec_ClientMove = dec_struct
     [f_type, (''from_x'', dec_on FromX (\<lambda>x r. r\<lparr>FromX := x\<rparr>) dec_int),
      (''from_y'', dec_on FromY (\<lambda>x r. r\<lparr>FromY := x\<rparr>) dec_int),
      (''to_x'', dec_on ToX (\<lambda>x r. r\<lparr>ToX := x\<rparr>) dec_int),
      (''to_y'', dec_on ToY (\<lambda>x r. r\<lparr>ToY := x\<rparr>) dec_int)]"

definition dec_ServerMoveResp :: "PacketServerMoveResp dec" where
  "dec_ServerMoveResp = dec_struct
     [f_type, (''ok'', dec_on respOK (\<lambda>x r. r\<lparr>respOK := x\<rparr>) dec_bool),
      (''table'', dec_on TableOnOK (\<lambda>x r. r\<lparr>TableOnOK := x\<rparr>) dec_table),
      (''errmsg'', dec_on ErrMsgOnFailed (\<lambda>x r. r\<lparr>ErrMsgOnFailed := x\<rparr>) (dec_ptr [] dec_string))]"

definition dec_ServerGameOver :: "PacketServerGameOver dec" where
  "dec_ServerGameOver = dec_struct
     [f_type, (''final_table'', dec_on overTable (\<lambda>x r. r\<lparr>overTable := x\<rparr>) dec_table),
      (''winner_side'', dec_on WinnerSide (\<lambda>x r. r\<lparr>WinnerSide := x\<rparr>) dec_side)]"

definition dec_ServerNotifyRemoteMove :: "PacketServerNotifyRemoteMove dec" where
  "dec_ServerNotifyRemoteMove = dec_struct
     [f_type, (''Table'', dec_on notifyTable (\<lambda>x r. r\<lparr>notifyTable := x\<rparr>) dec_table)]"

definition zero_header :: PacketHeader where
  "zero_header = \<lparr>hType = None\<rparr>"

text \<open>The errors of the second \<^verbatim>\<open>Unmarshal\<close> are ignored.\<close>

definition ServerParse :: "byte list \<Rightarrow> packet option" where
  "ServerParse bs =
     (case Unmarshal dec_Header bs zero_header of (header, err) \<Rightarrow>
      if err then None
      else case hType header of
        None \<Rightarrow> None
      | Some ty \<Rightarrow>
          if ty = PacketTypeHeartbeat then Some (PacketHeartbeat zero_header)
          else if ty = PacketTypeClientMove then
            Some (PClientMove (fst (Unmarshal dec_ClientMove bs
              \<lparr>hType = None, FromX = 0, FromY = 0, ToX = 0, ToY = 0\<rparr>)))
          else if ty = PacketTypeClientStartMatch then
            Some (PacketClientStartMatch (fst (Unmarshal dec_Header bs zero_header)))
          else None)"

definition ClientParse :: "byte list \<Rightarrow> packet option" where
  "ClientParse bs =
     (case Unmarshal dec_Header bs zero_header of (header, err) \<Rightarrow>
      if err then None
      else case hType header of
        None \<Rightarrow> None
      | Some ty \<Rightarrow>
          if ty = PacketTypeHeartbeat then Some (PacketHeartbeat zero_header)
          else if ty = PacketTypeServerGameOver then
            Some (PServerGameOver (fst (Unmarshal dec_ServerGameOver bs
              \<lparr>hType = None, overTable = None, WinnerSide = GameSideRed\<rparr>)))
          else if ty = PacketTypeServerMatchedOK then
            Some (PServerMatchedOK (fst (Unmarshal dec_ServerMatchedOK bs
              \<lparr>hType = None, matchedSide = GameSideRed, matchedTable = None\<rparr>)))
          else if ty = PacketTypeServerMatching then
            Some (PacketServerMatching (fst (Unmarshal dec_Header bs zero_header)))
          else if ty = PacketTypeServerMoveResp then
            Some (PServerMoveResp (fst (Unmarshal dec_ServerMoveResp bs
              \<lparr>hType = None, respOK = False, TableOnOK = None, ErrMsgOnFailed = None\<rparr>)))
          else if ty = PacketTypeServerRemoteLoseConnection then
            Some (PacketServerRemoteLoseConnection (fst (Unmarshal dec_Header bs zero_header)))
          else if ty = PacketTypeServerNotifyRemoteMove then
            Some (PServerNotifyRemoteMove (fst (Unmarshal dec_ServerNotifyRemoteMove bs
              \<lparr>hType = None, notifyTable = None\<rparr>)))
          else None)"

section \<open>Lemmas\<close>

lemma foldNames [simp]:
  "foldName ''type'' = ''TYPE''" "foldName ''X'' = ''X''" "foldName ''Y'' = ''Y''"
  "foldName ''chess_piece_type'' = ''CHESS_PIECE_TYPE''" "foldName ''side'' = ''SIDE''"
  "foldName ''game_side'' = ''GAME_SIDE''" "foldName ''game_table'' = ''GAME_TABLE''"
  "foldName ''from_x'' = ''FROM_X''" "foldName ''from_y'' = ''FROM_Y''"
  "foldName ''to_x'' = ''TO_X''" "foldName ''to_y'' = ''TO_Y''"
  "foldName ''ok'' = ''OK''" "foldName ''table'' = ''TABLE''" "foldName ''errmsg'' = ''ERRMSG''"
  "foldName ''final_table'' = ''FINAL_TABLE''" "foldName ''winner_side'' = ''WINNER_SIDE''"
  "foldName ''Table'' = ''TABLE''"
  by code_simp+

lemma good_commas: "list_all good_tok (commas xs) \<longleftrightarrow> list_all (list_all good_tok) xs"
  by (induction xs rule: commas.induct) auto

text \<open>What a packet carries in 64-bit integers.\<close>

definition piece_ok :: "PieceType \<Rightarrow> bool" where
  "piece_ok k \<longleftrightarrow> int64 (int_of_piece k) \<and> piece_of_int (int_of_piece k) = k"

definition side_ok :: "GameSide \<Rightarrow> bool" where
  "side_ok s \<longleftrightarrow> int64 (int_of_side s) \<and> side_of_int (int_of_side s) = s"

definition table_ok :: "ChessTable option \<Rightarrow> bool" where
  "table_ok t = (case t of None \<Rightarrow> True | Some t \<Rightarrow> length t = 90 \<and>
     list_all (\<lambda>p. case p of None \<Rightarrow> True | Some c \<Rightarrow>
       int64 (PX c) \<and> int64 (PY c) \<and> piece_ok (PType c) \<and> side_ok (PSide c)) t)"

lemma dec_int_jint [simp]: "int64 i \<Longrightarrow> dec_int (jint i) x = (i, False)"
  by (simp add: jint_def ParseInt_show)

lemma jint_not_null [simp]: "jint i \<noteq> JNull"
  by (simp add: jint_def)

lemma dec_piece_ok [simp]: "piece_ok k \<Longrightarrow> dec_piece (jint (int_of_piece k)) x = (k, False)"
  by (simp add: dec_piece_def piece_ok_def)

lemma dec_side_ok [simp]: "side_ok s \<Longrightarrow> dec_side (jint (int_of_side s)) x = (s, False)"
  by (simp add: dec_side_def side_ok_def)

lemma dec_point_enc:
  "int64 (PX c) \<Longrightarrow> int64 (PY c) \<Longrightarrow> piece_ok (PType c) \<Longrightarrow> side_ok (PSide c) \<Longrightarrow>
     dec_point (enc_point c) x = (c, False)"
  by (simp add: dec_point_def enc_point_def dec_on_def)

lemma dec_elems_enc:
  "(\<And>x. x \<in> set xs \<Longrightarrow> d (enc x) z = (x, False)) \<Longrightarrow>
     dec_elems z d (map enc xs) (replicate (length xs) z) = (xs, False)"
  by (induction xs) auto

lemma dec_table_enc:
  assumes "table_ok t"
  shows "dec_table (enc_ptr enc_table t) None = (t, False)"
proof (cases t)
  case (Some ps)
  have "dec_ptr zero_point dec_point (enc_ptr enc_point p) None = (p, False)" if "p \<in> set ps" for p
  proof (cases p)
    case (Some c)
    then have "int64 (PX c) \<and> int64 (PY c) \<and> piece_ok (PType c) \<and> side_ok (PSide c)"
      using assms that \<open>t = Some ps\<close> by (auto simp: table_ok_def list_all_iff)
    then show ?thesis using Some dec_point_enc by (simp add: dec_ptr_def enc_ptr_def) (simp add: enc_point_def)
  qed (simp add: dec_ptr_def enc_ptr_def)
  from dec_elems_enc [of ps "dec_ptr zero_point dec_point" "enc_ptr enc_point" None, OF this] have
    "dec_elems None (dec_ptr zero_point dec_point) (map (enc_ptr enc_point) ps) (replicate 90 None) = (ps, False)"
    using assms Some by (simp add: table_ok_def)
  then show ?thesis using Some by (simp add: dec_table_def dec_ptr_def enc_ptr_def enc_table_def)
qed (simp add: dec_table_def dec_ptr_def enc_ptr_def)

text \<open>Every value that is printed can be read.\<close>

definition printable :: "json \<Rightarrow> bool" where
  "printable v \<longleftrightarrow> list_all good_tok (toks v) \<and> depth v \<le> maxNestingDepth"

lemma foldr_max_le: "(\<And>n. n \<in> set ns \<Longrightarrow> n \<le> d) \<Longrightarrow> foldr max ns (0 :: nat) \<le> d"
  by (induction ns) auto

lemma jint_fields [simp]: "list_all good_tok (toks (jint i))" "depth (jint i) = 0"
  by (auto simp: jint_def)

lemma enc_type_fields [simp]:
  "list_all good_tok (toks (snd (enc_type p)))" "depth (snd (enc_type p)) = 0" "fst (enc_type p) = ''type''"
  by (auto simp: enc_type_def enc_ptr_def split: option.split)

lemma enc_point_fields: "list_all good_tok (toks (enc_ptr enc_point p))" "depth (enc_ptr enc_point p) \<le> 1"
  by (auto simp: enc_ptr_def enc_point_def good_commas plain_char_def split: option.split)

lemma enc_table_fields [simp]: "list_all good_tok (toks (enc_table t))" "depth (enc_table t) \<le> 2"
proof -
  show "list_all good_tok (toks (enc_table t))"
    by (auto simp: enc_table_def good_commas list_all_iff [of "list_all good_tok"] enc_point_fields)
  have "foldr max (map depth (map (enc_ptr enc_point) t)) 0 \<le> 1"
    using enc_point_fields(2) by (intro foldr_max_le) auto
  then show "depth (enc_table t) \<le> 2" by (simp add: enc_table_def)
qed

lemma enc_ptr_table_fields [simp]:
  "list_all good_tok (toks (enc_ptr enc_table t))" "depth (enc_ptr enc_table t) \<le> 2"
  by (auto simp: enc_ptr_def split: option.split)

lemma printable_object:
  assumes "\<And>k v. (k, v) \<in> set kvs \<Longrightarrow> plain k \<and> list_all good_tok (toks v) \<and> depth v \<le> 2"
  shows "printable (JObj kvs)"
proof -
  have "foldr max (map (\<lambda>kv. depth (snd kv)) kvs) 0 \<le> 2" using assms by (intro foldr_max_le) force
  moreover have "list_all (list_all good_tok) (map (\<lambda>kv. TStr (fst kv) # TColon # toks (snd kv)) kvs)"
    using assms by (force simp: list_all_iff)
  ultimately show ?thesis by (simp add: printable_def good_commas maxNestingDepth_def)
qed

lemma Unmarshal_printable: "printable v \<Longrightarrow> Unmarshal d (Marshal v) x = d v x"
  by (simp add: printable_def Unmarshal_Marshal)

lemma dec_members_other:
  "(\<And>k v. (k, v) \<in> set kvs \<Longrightarrow> foldName k \<noteq> ''TYPE'') \<Longrightarrow> dec_members [f_type] kvs x = (x, False)"
proof (induction kvs)
  case (Cons kv kvs)
  obtain k v where kv: "kv = (k, v)" by fastforce
  then have "foldName k \<noteq> ''TYPE''" "dec_members [f_type] kvs x = (x, False)"
    using Cons.prems [of k v] Cons.IH Cons.prems by auto
  then show ?case by (simp add: kv f_type_def)
qed simp

text \<open>The first \<^verbatim>\<open>Unmarshal\<close> of a parse finds the type.\<close>

lemma header_of:
  assumes "printable (JObj ((''type'', jint ty) # kvs))" "int64 ty"
    "\<And>k v. (k, v) \<in> set kvs \<Longrightarrow> foldName k \<noteq> ''TYPE''"
  shows "Unmarshal dec_Header (Marshal (JObj ((''type'', jint ty) # kvs))) zero_header = (\<lparr>hType = Some ty\<rparr>, False)"
  using assms dec_members_other [of kvs]
  by (simp add: Unmarshal_printable dec_Header_def f_type_def dec_on_def dec_ptr_def zero_header_def)

lemma small_int64 [simp]: "int64 0" "int64 1" "int64 2" "int64 3" "int64 4" "int64 5" "int64 6" "int64 7" "int64 8"
  by (simp_all add: int64_def)

lemma printable_header: "printable (JObj [(''type'', jint ty)])"
  by (rule printable_object) (auto simp: plain_char_def)

lemma parse_only_header:
  "ServerParse (Marshal_Heartbeat h) = Some (PacketHeartbeat zero_header)"
  "ClientParse (Marshal_Heartbeat h) = Some (PacketHeartbeat zero_header)"
  "ServerParse (Marshal_ClientStartMatch h) = Some (PacketClientStartMatch \<lparr>hType = Some 1\<rparr>)"
  "ClientParse (Marshal_ServerMatching h) = Some (PacketServerMatching \<lparr>hType = Some 2\<rparr>)"
  "ClientParse (Marshal_ServerRemoteLoseConnection h) = Some (PacketServerRemoteLoseConnection \<lparr>hType = Some 7\<rparr>)"
  using header_of [OF printable_header]
  by (simp_all add: ServerParse_def ClientParse_def Marshal_Heartbeat_def Marshal_ClientStartMatch_def
      Marshal_ServerMatching_def Marshal_ServerRemoteLoseConnection_def enc_type_def enc_ptr_def)

lemma ServerParse_ClientMove:
  assumes "int64 (FromX m)" "int64 (FromY m)" "int64 (ToX m)" "int64 (ToY m)"
  shows "ServerParse (Marshal_ClientMove m) = Some (PClientMove (m\<lparr>hType := Some 4\<rparr>))"
proof -
  let ?kvs = "[(''from_x'', jint (FromX m)), (''from_y'', jint (FromY m)), (''to_x'', jint (ToX m)),
     (''to_y'', jint (ToY m))]"
  have p: "printable (JObj ((''type'', jint 4) # ?kvs))" by (rule printable_object) (auto simp: plain_char_def)
  have "Unmarshal dec_Header (Marshal (JObj ((''type'', jint 4) # ?kvs))) zero_header = (\<lparr>hType = Some 4\<rparr>, False)"
    by (rule header_of [OF p]) auto
  moreover have "Unmarshal dec_ClientMove (Marshal (JObj ((''type'', jint 4) # ?kvs)))
      \<lparr>hType = None, FromX = 0, FromY = 0, ToX = 0, ToY = 0\<rparr> = (m\<lparr>hType := Some 4\<rparr>, False)"
    using assms by (simp add: Unmarshal_printable [OF p] dec_ClientMove_def f_type_def dec_on_def dec_ptr_def)
  ultimately show ?thesis
    by (simp add: ServerParse_def Marshal_ClientMove_def enc_type_def enc_ptr_def)
qed

lemma ClientParse_MatchedOK:
  assumes "side_ok (matchedSide m)" "table_ok (matchedTable m)"
  shows "ClientParse (Marshal_ServerMatchedOK m) = Some (PServerMatchedOK (m\<lparr>hType := Some 3\<rparr>))"
proof -
  let ?kvs = "[(''game_side'', jint (int_of_side (matchedSide m))), (''game_table'', enc_ptr enc_table (matchedTable m))]"
  have p: "printable (JObj ((''type'', jint 3) # ?kvs))" by (rule printable_object) (auto simp: plain_char_def)
  have "Unmarshal dec_Header (Marshal (JObj ((''type'', jint 3) # ?kvs))) zero_header = (\<lparr>hType = Some 3\<rparr>, False)"
    by (rule header_of [OF p]) auto
  moreover have "Unmarshal dec_ServerMatchedOK (Marshal (JObj ((''type'', jint 3) # ?kvs)))
      \<lparr>hType = None, matchedSide = GameSideRed, matchedTable = None\<rparr> = (m\<lparr>hType := Some 3\<rparr>, False)"
    using assms
    by (simp add: Unmarshal_printable [OF p] dec_ServerMatchedOK_def f_type_def dec_on_def dec_ptr_def dec_table_enc)
  ultimately show ?thesis
    by (simp add: ClientParse_def Marshal_ServerMatchedOK_def enc_type_def enc_ptr_def [of jint])
qed

lemma ClientParse_GameOver:
  assumes "side_ok (WinnerSide m)" "table_ok (overTable m)"
  shows "ClientParse (Marshal_ServerGameOver m) = Some (PServerGameOver (m\<lparr>hType := Some 6\<rparr>))"
proof -
  let ?kvs = "[(''final_table'', enc_ptr enc_table (overTable m)), (''winner_side'', jint (int_of_side (WinnerSide m)))]"
  have p: "printable (JObj ((''type'', jint 6) # ?kvs))" by (rule printable_object) (auto simp: plain_char_def)
  have "Unmarshal dec_Header (Marshal (JObj ((''type'', jint 6) # ?kvs))) zero_header = (\<lparr>hType = Some 6\<rparr>, False)"
    by (rule header_of [OF p]) auto
  moreover have "Unmarshal dec_ServerGameOver (Marshal (JObj ((''type'', jint 6) # ?kvs)))
      \<lparr>hType = None, overTable = None, WinnerSide = GameSideRed\<rparr> = (m\<lparr>hType := Some 6\<rparr>, False)"
    using assms
    by (simp add: Unmarshal_printable [OF p] dec_ServerGameOver_def f_type_def dec_on_def dec_ptr_def dec_table_enc)
  ultimately show ?thesis
    by (simp add: ClientParse_def Marshal_ServerGameOver_def enc_type_def enc_ptr_def [of jint])
qed

lemma ClientParse_NotifyRemoteMove:
  assumes "table_ok (notifyTable m)"
  shows "ClientParse (Marshal_ServerNotifyRemoteMove m) = Some (PServerNotifyRemoteMove (m\<lparr>hType := Some 8\<rparr>))"
proof -
  let ?kvs = "[(''Table'', enc_ptr enc_table (notifyTable m))]"
  have p: "printable (JObj ((''type'', jint 8) # ?kvs))" by (rule printable_object) (auto simp: plain_char_def)
  have "Unmarshal dec_Header (Marshal (JObj ((''type'', jint 8) # ?kvs))) zero_header = (\<lparr>hType = Some 8\<rparr>, False)"
    by (rule header_of [OF p]) auto
  moreover have "Unmarshal dec_ServerNotifyRemoteMove (Marshal (JObj ((''type'', jint 8) # ?kvs)))
      \<lparr>hType = None, notifyTable = None\<rparr> = (m\<lparr>hType := Some 8\<rparr>, False)"
    using assms
    by (simp add: Unmarshal_printable [OF p] dec_ServerNotifyRemoteMove_def f_type_def dec_on_def dec_ptr_def
        dec_table_enc)
  ultimately show ?thesis
    by (simp add: ClientParse_def Marshal_ServerNotifyRemoteMove_def enc_type_def enc_ptr_def [of jint])
qed

lemma ClientParse_MoveResp:
  assumes "table_ok (TableOnOK m)" "case ErrMsgOnFailed m of None \<Rightarrow> True | Some e \<Rightarrow> plain e"
  shows "ClientParse (Marshal_ServerMoveResp m) = Some (PServerMoveResp (m\<lparr>hType := Some 5\<rparr>))"
proof -
  let ?kvs = "(''ok'', JBool (respOK m)) # (case TableOnOK m of None \<Rightarrow> [] | Some t \<Rightarrow> [(''table'', enc_table t)])
      @ (case ErrMsgOnFailed m of None \<Rightarrow> [] | Some e \<Rightarrow> [(''errmsg'', JStr e)])"
  have p: "printable (JObj ((''type'', jint 5) # ?kvs))"
    using assms(2) by (intro printable_object) (auto simp: plain_char_def split: option.splits)
  have "Unmarshal dec_Header (Marshal (JObj ((''type'', jint 5) # ?kvs))) zero_header = (\<lparr>hType = Some 5\<rparr>, False)"
    by (rule header_of [OF p]) (auto split: option.splits)
  moreover have "dec_table (enc_table t) None = (Some t, False)" if "TableOnOK m = Some t" for t
    using dec_table_enc [OF assms(1)] that by (simp add: enc_ptr_def)
  then have "Unmarshal dec_ServerMoveResp (Marshal (JObj ((''type'', jint 5) # ?kvs)))
      \<lparr>hType = None, respOK = False, TableOnOK = None, ErrMsgOnFailed = None\<rparr> = (m\<lparr>hType := Some 5\<rparr>, False)"
    by (auto simp: Unmarshal_printable [OF p] dec_ServerMoveResp_def f_type_def dec_on_def dec_ptr_def
        split: option.split)
  ultimately show ?thesis
    by (simp add: ClientParse_def Marshal_ServerMoveResp_def enc_type_def enc_ptr_def [of jint])
qed

lemma board_table_ok:
  assumes "board_ok t"
  shows "table_ok (Some t)"
proof -
  have l: "length t = 90" using assms by (simp add: board_ok_def)
  have "int64 (PX c) \<and> int64 (PY c) \<and> piece_ok (PType c) \<and> side_ok (PSide c)"
    if "i < 90" "t ! i = Some c" for i c
  proof -
    define x y where "x = int (i mod 9)" and "y = int (i div 9)"
    have "idx x y = i" by (simp add: idx_def x_def y_def nat_add_distrib nat_mult_distrib)
    moreover have "i mod 9 \<le> 8" "i div 9 \<le> 9" using that(1) by presburger+
    then have b: "on_board x y" by (simp add: on_board_def x_def y_def)
    ultimately have "point_ok t x y" "at t x y = Some c" using assms that(2) by (simp_all add: board_ok_def at_def)
    then have "PX c = x" "PY c = y" "PSide c = GameSideRed \<or> PSide c = GameSideBlack" "region (PType c) (PSide c) x y"
      by (simp_all add: point_ok_def)
    moreover from this(4) have "piece_ok (PType c)"
      by (cases "PType c") (simp_all add: piece_ok_def piece_of_int_def)
    ultimately show ?thesis using b by (auto simp: int64_def on_board_def side_ok_def side_of_int_def)
  qed
  then show ?thesis using l by (auto simp: table_ok_def list_all_length split: option.split)
qed

section \<open>Properties\<close>

text \<open>C13. Every packet survives marshalling and parsing: what the client sends
  is what \<^verbatim>\<open>ServerParse\<close> returns, what the server sends is what \<^verbatim>\<open>ClientParse\<close> returns, with the type filled in that the marshalling
  method set; only of a heartbeat, which has no other field, the parsers return an empty packet without its type. Coordinates
  are any 64-bit integers, tables have 90 points (every table of a running game qualifies), sides are the two that exist, and an error
  message is any text without quotes, backslashes, control and HTML characters, which the printer would escape.\<close>

theorem packets_roundtrip:
  assumes "int64 (FromX m)" "int64 (FromY m)" "int64 (ToX m)" "int64 (ToY m)"
    "side_ok (matchedSide a)" "table_ok (matchedTable a)" "side_ok (WinnerSide g)" "table_ok (overTable g)"
    "table_ok (notifyTable n)" "table_ok (TableOnOK r)" "case ErrMsgOnFailed r of None \<Rightarrow> True | Some e \<Rightarrow> plain e"
  shows "ServerParse (Marshal_Heartbeat h) = Some (PacketHeartbeat zero_header)
    \<and> ClientParse (Marshal_Heartbeat h) = Some (PacketHeartbeat zero_header)
    \<and> ServerParse (Marshal_ClientStartMatch h) = Some (PacketClientStartMatch \<lparr>hType = Some 1\<rparr>)
    \<and> ServerParse (Marshal_ClientMove m) = Some (PClientMove (m\<lparr>hType := Some 4\<rparr>))
    \<and> ClientParse (Marshal_ServerMatching h) = Some (PacketServerMatching \<lparr>hType = Some 2\<rparr>)
    \<and> ClientParse (Marshal_ServerMatchedOK a) = Some (PServerMatchedOK (a\<lparr>hType := Some 3\<rparr>))
    \<and> ClientParse (Marshal_ServerMoveResp r) = Some (PServerMoveResp (r\<lparr>hType := Some 5\<rparr>))
    \<and> ClientParse (Marshal_ServerGameOver g) = Some (PServerGameOver (g\<lparr>hType := Some 6\<rparr>))
    \<and> ClientParse (Marshal_ServerRemoteLoseConnection h) = Some (PacketServerRemoteLoseConnection \<lparr>hType = Some 7\<rparr>)
    \<and> ClientParse (Marshal_ServerNotifyRemoteMove n) = Some (PServerNotifyRemoteMove (n\<lparr>hType := Some 8\<rparr>))
    \<and> (\<forall>t. board_ok t \<longrightarrow> table_ok (Some t))"
  using assms board_table_ok
  by (simp add: parse_only_header ServerParse_ClientMove ClientParse_MatchedOK ClientParse_MoveResp
      ClientParse_GameOver ClientParse_NotifyRemoteMove)

theorem packets_roundtrip_witness:
  "ServerParse (Marshal_ClientMove \<lparr>hType = None, FromX = 1, FromY = 0, ToX = 2, ToY = - 3\<rparr>)
     = Some (PClientMove \<lparr>hType = Some 4, FromX = 1, FromY = 0, ToX = 2, ToY = - 3\<rparr>)
   \<and> ClientParse (Marshal_ServerMatchedOK \<lparr>hType = None, matchedSide = GameSideBlack, matchedTable = Some default_table\<rparr>)
     = Some (PServerMatchedOK \<lparr>hType = Some 3, matchedSide = GameSideBlack, matchedTable = Some default_table\<rparr>)"
  using packets_roundtrip [of "\<lparr>hType = None, FromX = 1, FromY = 0, ToX = 2, ToY = - 3\<rparr>"
      "\<lparr>hType = None, matchedSide = GameSideBlack, matchedTable = Some default_table\<rparr>"
      "\<lparr>hType = None, overTable = None, WinnerSide = GameSideRed\<rparr>" "\<lparr>hType = None, notifyTable = None\<rparr>"
      "\<lparr>hType = None, respOK = False, TableOnOK = None, ErrMsgOnFailed = Some ''no''\<rparr>"]
    board_table_ok [OF default_table_ok]
  by (simp add: int64_def side_ok_def side_of_int_def plain_char_def table_ok_def [of None])

end
