(* ===== verification/Chess_Handler.thy ===== *)
theory Chess_Handler
  imports Chess_Packets Tcp_Server
begin

text \<open>
  The chess server (\<^verbatim>\<open>backend/game_handler/handler.go\<close>): four callbacks over a global map from
  connection identifiers to contexts, run by the one loop of the server. The state is the world of
  \<^verbatim>\<open>Tcp_Conn\<close> with the globals added. \<^verbatim>\<open>ConnMap\<close> is the only holder of its \<^verbatim>\<open>*ConnContext\<close> pointers, so
  the key stands for the pointer; a \<^verbatim>\<open>*GameContext\<close> is shared by two contexts and is an address in
  \<open>games\<close>. \<open>ro\<close> is the order in which the runtime ranges over a map. The callbacks call methods of
  connections, and those call back: \<open>chess_user n\<close> runs the callbacks, with nested calls
  at most \<open>n\<close> deep.
\<close>

section \<open>State\<close>

datatype ConnState = ConnStateNone | ConnStateMatching | ConnStateGaming

record ConnContext =
  ccID :: int
  LoseHertbeatCount :: int
  ccConn :: nat
  ccState :: ConnState
  Gcontext :: "nat option"

record GameContext =
  RedConnID :: int
  BlackConnID :: int
  gTable :: ChessTable
  TurnNow :: GameSide

text \<open>The values the program keeps in contexts and callbacks: its functions and integers.\<close>

datatype chess_val = OnConnectF | OnMessageF | OnCloseF | OnTimeoutF | IntVal int

record chess_world = "chess_val world" +
  ConnMap :: "int \<rightharpoonup> ConnContext"
  AtomicIDIncrease :: "32 word"
  games :: "nat \<rightharpoonup> GameContext"
  nextGame :: nat

type_synonym chess_step = "chess_world \<Rightarrow> chess_world res"

definition MaxLoseHeartbeat :: int where
  "MaxLoseHeartbeat = 5"

definition deref_cc :: "int \<Rightarrow> chess_world \<Rightarrow> ConnContext res" where
  "deref_cc k s = (case ConnMap s k of None \<Rightarrow> Inl NilDeref | Some cc \<Rightarrow> Inr cc)"

definition upd_cc :: "int \<Rightarrow> ConnContext \<Rightarrow> chess_world \<Rightarrow> chess_world" where
  "upd_cc k cc s = s\<lparr>ConnMap := (ConnMap s)(k \<mapsto> cc)\<rparr>"

definition deref_game :: "nat option \<Rightarrow> chess_world \<Rightarrow> (nat \<times> GameContext) res" where
  "deref_game p s =
     (case p of None \<Rightarrow> Inl NilDeref
      | Some a \<Rightarrow> (case games s a of None \<Rightarrow> Inl NilDeref | Some g \<Rightarrow> Inr (a, g)))"

definition upd_game :: "nat \<Rightarrow> GameContext \<Rightarrow> chess_world \<Rightarrow> chess_world" where
  "upd_game a g s = s\<lparr>games := (games s)(a \<mapsto> g)\<rparr>"

text \<open>\<^verbatim>\<open>connID_.(int)\<close> of the value under \<^verbatim>\<open>conn_id\<close>.\<close>

definition conn_id :: "nat \<Rightarrow> chess_world \<Rightarrow> int res" where
  "conn_id q s =
     rbind (conn_GetContext ''conn_id'' q s) (\<lambda>(v, ok).
       case v of Some (IntVal i) \<Rightarrow> Inr i | _ \<Rightarrow> Inl (PanicMsg ''interface conversion''))"

text \<open>Sending a packet, and closing, from the loop goroutine.\<close>

definition send_packet :: "kernel \<Rightarrow> (chess_val, _) user \<Rightarrow> nat \<Rightarrow> byte list \<Rightarrow> chess_step" where
  "send_packet K U q body s = Send K U (gid s) q (DoPackWith4BytesHeader body) s"

definition force_close :: "kernel \<Rightarrow> (chess_val, _) user \<Rightarrow> nat \<Rightarrow> chess_step" where
  "force_close K U q s = ForceClose K U (gid s) q s"

section \<open>Callbacks\<close>

definition OnConnect :: "nat \<Rightarrow> chess_step" where
  "OnConnect q s =
     (let connID = sint (AtomicIDIncrease s + 1);
          connCtx = \<lparr>ccID = connID, LoseHertbeatCount = 0, ccConn = q, ccState = ConnStateNone, Gcontext = None\<rparr>;
          s1 = upd_cc connID connCtx (s\<lparr>AtomicIDIncrease := AtomicIDIncrease s + 1\<rparr>)
      in rbind (conn_SetContext ''conn_id'' (Some (IntVal connID)) q s1) (\<lambda>s2.
           SetDisConnectedCallback (Some (UserCb OnCloseF)) q s2))"

definition OnClose :: "kernel \<Rightarrow> (chess_val, _) user \<Rightarrow> nat \<Rightarrow> chess_step" where
  "OnClose K U q s =
     rbind (conn_id q s) (\<lambda>connID.
     rbind (deref_cc connID s) (\<lambda>cc.
     rbind (if ccState cc = ConnStateGaming then
              rbind (deref_game (Gcontext cc) s) (\<lambda>(a, g).
                let remoteID = (if BlackConnID g = connID then RedConnID g else BlackConnID g)
                in rbind (deref_cc remoteID s) (\<lambda>rc.
                     let s1 = upd_cc remoteID (rc\<lparr>Gcontext := None, ccState := ConnStateNone\<rparr>) s
                     in send_packet K U (ccConn rc) (Marshal_ServerRemoteLoseConnection zero_header) s1))
            else Inr s) (\<lambda>s2.
       Inr (s2\<lparr>ConnMap := (ConnMap s2)(connID := None)\<rparr>))))"

definition on_heartbeat :: "int \<Rightarrow> chess_step" where
  "on_heartbeat connID s =
     rbind (deref_cc connID s) (\<lambda>cc. Inr (upd_cc connID (cc\<lparr>LoseHertbeatCount := 0\<rparr>) s))"

text \<open>The order in which Go ranges over the map, which may differ each time: it may depend on everything that happened before.\<close>

type_synonym range_order = "history \<Rightarrow> (int \<rightharpoonup> ConnContext) \<Rightarrow> int list"

text \<open>The search of the matching loop: the first entry in range order that waits for an opponent.\<close>

definition find_opponent :: "range_order \<Rightarrow> int \<Rightarrow> chess_world \<Rightarrow> int option" where
  "find_opponent ro connID s =
     find (\<lambda>k. case ConnMap s k of None \<Rightarrow> False
       | Some v \<Rightarrow> ccID v \<noteq> connID \<and> ccState v = ConnStateMatching) (ro (hist s) (ConnMap s))"

text \<open>The body of the matching loop for the entry \<open>k\<close>, whose owner plays black.\<close>

definition start_game :: "kernel \<Rightarrow> (chess_val, _) user \<Rightarrow> int \<Rightarrow> int \<Rightarrow> chess_step" where
  "start_game K U connID k s =
     rbind (deref_cc k s) (\<lambda>v.
     rbind NewDefaultChessTable (\<lambda>table.
       let a = nextGame s;
           s1 = upd_game a \<lparr>RedConnID = connID, BlackConnID = ccID v, gTable = table, TurnNow = GameSideRed\<rparr>
             (s\<lparr>nextGame := a + 1\<rparr>);
           matchingPacket = Marshal_ServerMatching zero_header;
           packetForBlack = Marshal_ServerMatchedOK
             \<lparr>hType = None, matchedSide = GameSideBlack, matchedTable = Some table\<rparr>;
           packetForRed = Marshal_ServerMatchedOK
             \<lparr>hType = None, matchedSide = GameSideRed, matchedTable = Some table\<rparr>;
           s2 = upd_cc k (v\<lparr>ccState := ConnStateGaming, Gcontext := Some a\<rparr>) s1
       in rbind (send_packet K U (ccConn v) matchingPacket s2) (\<lambda>s3.
          rbind (send_packet K U (ccConn v) packetForBlack s3) (\<lambda>s4.
          rbind (deref_cc connID s4) (\<lambda>cc.
            let s5 = upd_cc connID (cc\<lparr>ccState := ConnStateGaming, Gcontext := Some a\<rparr>) s4
            in rbind (send_packet K U (ccConn cc) matchingPacket s5) (\<lambda>s6.
               rbind (deref_cc connID s6) (\<lambda>cc6. send_packet K U (ccConn cc6) packetForRed s6)))))))"

definition on_start_match :: "kernel \<Rightarrow> (chess_val, _) user \<Rightarrow> range_order
    \<Rightarrow> nat \<Rightarrow> int \<Rightarrow> chess_step" where
  "on_start_match K U ro q connID s =
     rbind (deref_cc connID s) (\<lambda>cc.
     rbind (if ccState cc \<noteq> ConnStateNone then force_close K U q s else Inr s) (\<lambda>s1.
       case find_opponent ro connID s1 of
         Some k \<Rightarrow> start_game K U connID k s1
       | None \<Rightarrow>
           rbind (deref_cc connID s1) (\<lambda>cc1.
             send_packet K U q (Marshal_ServerMatching zero_header)
               (upd_cc connID (cc1\<lparr>ccState := ConnStateMatching\<rparr>) s1))))"

definition move_failed :: "string \<Rightarrow> byte list" where
  "move_failed msg = Marshal_ServerMoveResp
     \<lparr>hType = None, respOK = False, TableOnOK = None, ErrMsgOnFailed = Some msg\<rparr>"

text \<open>\<^verbatim>\<open>remoteConnCtx\<close> is a pointer that may be \<^verbatim>\<open>nil\<close>; it is used only when a move succeeds.\<close>

definition on_move :: "kernel \<Rightarrow> (chess_val, _) user \<Rightarrow> nat \<Rightarrow> int \<Rightarrow> PacketClientMove \<Rightarrow> chess_step" where
  "on_move K U q connID packet s =
     rbind (deref_cc connID s) (\<lambda>connCtx.
     rbind (deref_game (Gcontext connCtx) s) (\<lambda>(a, g).
       let black = (BlackConnID g = connID);
           connSide = (if black then GameSideBlack else GameSideRed);
           remoteSide = (if black then GameSideRed else GameSideBlack);
           remoteID = (if black then RedConnID g else BlackConnID g)
       in if ccState connCtx \<noteq> ConnStateGaming then force_close K U q s
          else if TurnNow g \<noteq> connSide then send_packet K U q (move_failed ''it is not your turn'') s
          else
            rbind (DoMove connSide (gTable g) (FromX packet) (FromY packet) (ToX packet) (ToY packet))
              (\<lambda>(table, gameover, ok).
               let s1 = upd_game a (g\<lparr>gTable := table\<rparr>) s
               in if \<not> ok then send_packet K U q (move_failed ''you cannot move like this'') s1
                  else if \<not> gameover then
                    rbind (deref_cc remoteID s1) (\<lambda>rc.
                    rbind (send_packet K U (ccConn rc)
                        (Marshal_ServerNotifyRemoteMove \<lparr>hType = None, notifyTable = Some table\<rparr>) s1) (\<lambda>s2.
                      send_packet K U q
                        (Marshal_ServerMoveResp \<lparr>hType = None, respOK = True, TableOnOK = Some table,
                           ErrMsgOnFailed = None\<rparr>)
                        (upd_game a (g\<lparr>gTable := table, TurnNow := remoteSide\<rparr>) s2)))
                  else
                    (let s2 = upd_cc connID (connCtx\<lparr>ccState := ConnStateNone, Gcontext := None\<rparr>) s1
                     in rbind (deref_cc remoteID s2) (\<lambda>rc.
                          send_packet K U (ccConn rc)
                            (Marshal_ServerGameOver \<lparr>hType = None, overTable = Some table, WinnerSide = connSide\<rparr>)
                            (upd_cc remoteID (rc\<lparr>ccState := ConnStateNone, Gcontext := None\<rparr>) s2))))))"

definition OnMessage :: "kernel \<Rightarrow> (chess_val, _) user \<Rightarrow> range_order \<Rightarrow> nat \<Rightarrow> chess_step" where
  "OnMessage K U ro q s =
     rbind (conn_id q s) (\<lambda>connID.
     rbind (deref_conn q s) (\<lambda>tc.
     rbind (Peek (inputBuffer tc)) (\<lambda>bs.
     rbind (IsBytesCompleteWith4BytesHeader bs) (\<lambda>r.
       case r of
         None \<Rightarrow> Inr s
       | Some packetBytes \<Rightarrow>
           rbind (Retrieve (int (length packetBytes) + 4) (inputBuffer tc)) (\<lambda>buf.
             let s1 = upd_conn q (tc\<lparr>inputBuffer := buf\<rparr>) s
             in case ServerParse packetBytes of
                  None \<Rightarrow> force_close K U q s1
                | Some (PacketHeartbeat h) \<Rightarrow> on_heartbeat connID s1
                | Some (PacketClientStartMatch h) \<Rightarrow> on_start_match K U ro q connID s1
                | Some (PClientMove packet) \<Rightarrow> on_move K U q connID packet s1
                | Some p \<Rightarrow> Inr s1)))))"

text \<open>The timer callback. A key that was deleted before the iteration reaches it is not produced.\<close>

definition beat :: "kernel \<Rightarrow> (chess_val, _) user \<Rightarrow> int \<Rightarrow> chess_step" where
  "beat K U k s =
     (case ConnMap s k of
        None \<Rightarrow> Inr s
      | Some cc \<Rightarrow>
          rbind (send_packet K U (ccConn cc) (Marshal_Heartbeat zero_header) s) (\<lambda>s1.
          rbind (deref_cc k s1) (\<lambda>cc1.
            let cc2 = cc1\<lparr>LoseHertbeatCount := LoseHertbeatCount cc1 + 1\<rparr>; s2 = upd_cc k cc2 s1
            in if LoseHertbeatCount cc2 \<ge> MaxLoseHeartbeat then force_close K U (ccConn cc2) s2 else Inr s2)))"

definition OnTimeout :: "kernel \<Rightarrow> (chess_val, _) user \<Rightarrow> range_order \<Rightarrow> chess_step" where
  "OnTimeout K U ro s = rfold (beat K U) (ro (hist s) (ConnMap s)) s"

text \<open>Running a callback value; a function value is only ever called with the arguments of its type.\<close>

primrec chess_user :: "kernel \<Rightarrow> range_order \<Rightarrow> nat \<Rightarrow> chess_val \<Rightarrow> cb_arg \<Rightarrow> chess_step" where
  "chess_user K ro 0 u a = (\<lambda>s. Inl Hang)"
| "chess_user K ro (Suc n) u a =
     (case (u, a) of
        (OnConnectF, ArgConnected q) \<Rightarrow> OnConnect q
      | (OnMessageF, ArgMessage q) \<Rightarrow> OnMessage K (chess_user K ro n) ro q
      | (OnCloseF, ArgDisConnected q) \<Rightarrow> OnClose K (chess_user K ro n) q
      | _ \<Rightarrow> (\<lambda>s. Inl (PanicMsg ''not a callback of this type'')))"

section \<open>The server of the program\<close>

text \<open>What the one loop of \<^verbatim>\<open>main\<close> runs, event by event: the acceptor hands a new socket to
  \<^verbatim>\<open>onNewConnection\<close> (whose loop is this one, so that \<^verbatim>\<open>RunInLoop\<close> runs the closure at once), a connection is readable
  or writable, the heartbeat timer expires. The kernel reports a socket as writable only while it is registered for that.\<close>

datatype chess_event = EvAccept int sockaddr | EvRead nat | EvWrite nat | EvTimeout

definition accept_conn :: "kernel \<Rightarrow> (chess_val, _) user \<Rightarrow> int \<Rightarrow> sockaddr \<Rightarrow> chess_step" where
  "accept_conn K U socketfd peer s =
     (case newConnection socketfd peer s of (q, s1) \<Rightarrow>
      rbind (setConnectedCallback (Some (UserCb OnConnectF)) q s1) (\<lambda>s2.
      rbind (setMessageCallback (Some (UserCb OnMessageF)) q s2) (\<lambda>s3.
        RunInLoop (run_conn K U) K (gid s3) (FExt (FEstablish q)) s3)))"

definition write_due :: "nat \<Rightarrow> chess_world \<Rightarrow> bool" where
  "write_due q s =
     (case conns s q of None \<Rightarrow> False
      | Some tc \<Rightarrow> (case chans s (socketChannel tc) of None \<Rightarrow> False | Some c \<Rightarrow> is_open tc \<and> IsWriting c))"

text \<open>A callback that closes a connection does not take back an event already reported: when its socket was writable too, the write
  callback still runs, and its \<^verbatim>\<open>write\<close> fails on the closed descriptor.\<close>

definition closed_at :: "nat \<Rightarrow> chess_world \<Rightarrow> bool" where
  "closed_at q s = (case conns s q of None \<Rightarrow> False | Some tc \<Rightarrow> tstate tc = Disconnected)"

definition closed_kernel :: "kernel \<Rightarrow> kernel" where
  "closed_kernel K = K\<lparr>k_write := \<lambda>h f bs. Inl EBADF\<rparr>"

definition chess_event_step :: "kernel \<Rightarrow> range_order \<Rightarrow> nat \<Rightarrow> chess_event \<Rightarrow> chess_step" where
  "chess_event_step K ro n e s =
     (case e of
        EvAccept socketfd peer \<Rightarrow> accept_conn K (chess_user K ro n) socketfd peer s
      | EvRead q \<Rightarrow> handleRead K (chess_user K ro n) q s
      | EvWrite q \<Rightarrow>
          if write_due q s then handleWrite K (chess_user K ro n) q s
          else if closed_at q s then handleWrite (closed_kernel K) (chess_user K ro n) q s
          else Inr s
      | EvTimeout \<Rightarrow> OnTimeout K (chess_user K ro n) ro s)"

section \<open>The callbacks honour the contract of the connections\<close>

text \<open>Steps that keep the invariant of \<^verbatim>\<open>Tcp_Conn\<close>, seen from a state \<open>s\<close> in which they started.\<close>

definition sound :: "nat set \<Rightarrow> chess_world \<Rightarrow> chess_world \<Rightarrow> bool" where
  "sound A s t \<longleftrightarrow> world_inv A t \<and> evolves s t"

lemma on_ok_sound_bind:
  "on_ok (sound A s) m \<Longrightarrow> (\<And>t. sound A s t \<Longrightarrow> on_ok (sound A s) (f t)) \<Longrightarrow> on_ok (sound A s) (rbind m f)"
  by (auto simp: on_ok_def rbind_eq_Inr)

lemma world_inv_app [simp]:
  "world_inv A (s\<lparr>ConnMap := m\<rparr>) = world_inv A s" "world_inv A (s\<lparr>AtomicIDIncrease := i\<rparr>) = world_inv A s"
  "world_inv A (s\<lparr>games := g\<rparr>) = world_inv A s" "world_inv A (s\<lparr>nextGame := n\<rparr>) = world_inv A s"
  by (simp_all add: world_inv_def poller_inv_def in_sync_but_def conns_ok_def)

lemma sound_app [simp]:
  "sound A s (t\<lparr>ConnMap := m\<rparr>) = sound A s t" "sound A s (t\<lparr>AtomicIDIncrease := i\<rparr>) = sound A s t"
  "sound A s (upd_cc k cc t) = sound A s t" "sound A s (upd_game a g t) = sound A s t"
  "sound A s (t\<lparr>nextGame := n\<rparr>) = sound A s t"
  by (simp_all add: sound_def evolves_def upd_cc_def upd_game_def)

lemma sound_step: "sound A s t \<Longrightarrow> world_inv A u \<Longrightarrow> evolves t u \<Longrightarrow> sound A s u"
  unfolding sound_def using evolves_trans by blast

lemma RunInLoop_sound:
  fixes s t :: chess_world
  assumes "good_user U" "ctl_documented K" "sound A s t"
  shows "on_ok (sound A s) (RunInLoop (run_conn K U) K g (FExt f) t)"
proof (rule on_okI)
  fix u assume r: "RunInLoop (run_conn K U) K g (FExt f) t = Inr u"
  have w: "world_inv A t" using assms(3) by (simp add: sound_def)
  show "sound A s u"
  proof (cases "running t = 1 \<and> gid t = g")
    case True
    then have "run_conn K U f t = Inr u" using r by (simp add: RunInLoop_def run_functor_def)
    with run_conn_keeps [OF assms(1,2) w] sound_step [OF assms(3)] show ?thesis by blast
  next
    case False
    then have "wakeup K (t\<lparr>functors := functors t @ [FExt f]\<rparr>) = Inr u" using r by (auto simp: RunInLoop_def)
    from wakeup_frame [OF this] obtain h where "u = t\<lparr>functors := functors t @ [FExt f], hist := h\<rparr>"
        "registered h = registered (hist t)" by auto
    with w have "world_inv A u" "evolves t u" by (simp_all add: world_inv_hist world_inv_functors evolves_def)
    then show ?thesis by (rule sound_step [OF assms(3)])
  qed
qed


lemma send_packet_sound [intro]:
  "good_user U \<Longrightarrow> ctl_documented K \<Longrightarrow> sound A s t \<Longrightarrow> on_ok (sound A s) (send_packet K U q body t)"
  unfolding send_packet_def Send_def by (rule RunInLoop_sound)

lemma force_close_sound [intro]:
  "good_user U \<Longrightarrow> ctl_documented K \<Longrightarrow> sound A s t \<Longrightarrow> on_ok (sound A s) (force_close K U q t)"
  unfolding force_close_def ForceClose_def by (rule RunInLoop_sound)

lemma set_conn_sound:
  assumes "sound A s t" "\<And>tc. socketChannel (f tc) = socketChannel tc \<and> tstate (f tc) = tstate tc
      \<and> outputBuffer (f tc) = outputBuffer tc \<and> remoteAddrPort (f tc) = remoteAddrPort tc"
  shows "on_ok (sound A s) (set_conn f q t)"
proof (rule on_okI)
  fix u assume "set_conn f q t = Inr u"
  then obtain tc where tc: "conns t q = Some tc" "u = upd_conn q (f tc) t" by (auto simp: set_conn_def rbind_eq_Inr)
  have w: "world_inv A t" using assms(1) by (simp add: sound_def)
  obtain c where c: "chans t (socketChannel tc) = Some c" "conn_ok (q \<notin> A) tc c (mapped t (fd c))"
    using conns_okD [OF world_invD(3) [OF w] tc(1)] by blast
  have "world_inv A u" unfolding tc(2)
    using assms(2) [of tc] c by (intro world_inv_conn [OF w tc(1) c(1)]) (auto simp: conn_ok_def split: tcpConnectionState.splits)
  moreover have "evolves t u" using assms(2) [of tc] tc by (intro evolves_conn [OF tc(1), of u "f tc"]) auto
  ultimately show "sound A s u" by (rule sound_step [OF assms(1)])
qed

lemma OnConnect_sound:
  assumes "world_inv A s"
  shows "on_ok (sound A s) (OnConnect q s)"
  unfolding OnConnect_def Let_def conn_SetContext_def SetDisConnectedCallback_def using assms
  by (intro on_ok_sound_bind set_conn_sound) (simp_all add: sound_def, simp_all add: upd_cc_def evolves_def)

text \<open>One step of a body: a lookup, a call on a connection, or a branch.\<close>

lemmas sound_rules = on_ok_bind [where m = "conn_id q t" for q t] on_ok_bind [where m = "deref_cc k t" for k t]
  on_ok_bind [where m = "deref_game p t" for p t] on_ok_bind [where m = NewDefaultChessTable]
  on_ok_bind [where m = "DoMove side table fx fy tx ty" for side table fx fy tx ty]
  on_ok_sound_bind [where m = "send_packet K U q body t" for K U q body t]
  on_ok_sound_bind [where m = "force_close K U q t" for K U q t]
  on_ok_sound_bind [where m = "if b then m1 else m2" for b m1 m2]
  on_ok_if send_packet_sound force_close_sound

lemma OnClose_sound:
  assumes "good_user U" "ctl_documented K" "world_inv A s"
  shows "on_ok (sound A s) (OnClose K U q s)"
proof -
  have "sound A s s" using assms(3) by (simp add: sound_def)
  then show ?thesis unfolding OnClose_def Let_def prod.case_eq_if using assms(1,2) by (intro sound_rules) simp_all
qed

lemma on_start_match_sound:
  assumes "good_user U" "ctl_documented K" "sound A s t"
  shows "on_ok (sound A s) (on_start_match K U ro q connID t)"
proof -
  have g: "on_ok (sound A s) (start_game K U connID k u)" if "sound A s u" for k u
    unfolding start_game_def Let_def using assms(1,2) that by (intro sound_rules) simp_all
  show ?thesis unfolding on_start_match_def option.case_eq_if using assms
    by (intro sound_rules g) simp_all
qed

lemma on_move_sound:
  assumes "good_user U" "ctl_documented K" "sound A s t"
  shows "on_ok (sound A s) (on_move K U q connID packet t)"
  unfolding on_move_def Let_def prod.case_eq_if using assms by (intro sound_rules) simp_all

lemma OnMessage_sound:
  assumes "good_user U" "ctl_documented K" "world_inv A s"
  shows "on_ok (sound A s) (OnMessage K U ro q s)"
proof -
  have s: "sound A s s" using assms(3) by (simp add: sound_def)
  have t: "sound A s (upd_conn q (tc\<lparr>inputBuffer := b\<rparr>) s)" if "conns s q = Some tc" for tc b
    using world_inv_input [OF assms(3) that] evolves_conn [OF that, of _ "tc\<lparr>inputBuffer := b\<rparr>"] by (simp add: sound_def)
  have h: "on_ok (sound A s) (on_heartbeat connID u)" if "sound A s u" for connID u
    unfolding on_heartbeat_def using that by (intro sound_rules) simp_all
  show ?thesis unfolding OnMessage_def Let_def
    by (intro on_ok_bind)
      (use s t h assms(1,2) on_start_match_sound on_move_sound force_close_sound in
        \<open>auto split: option.splits packet.splits intro!: on_ok_bind\<close>)
qed

lemma OnTimeout_sound:
  assumes "good_user U" "ctl_documented K" "world_inv A s"
  shows "on_ok (sound A s) (OnTimeout K U ro s)"
proof (rule on_okI)
  fix s' assume r: "OnTimeout K U ro s = Inr s'"
  have b: "on_ok (sound A s) (beat K U k t)" if "sound A s t" for k t
    unfolding beat_def Let_def option.case_eq_if using assms(1,2) that by (intro sound_rules) simp_all
  show "sound A s s'"
  proof (rule rfold_invariant [OF r [unfolded OnTimeout_def]])
    show "sound A s s" using assms(3) by (simp add: sound_def)
    show "sound A s u" if "sound A s t" "beat K U k t = Inr u" for k t u by (rule on_okD [OF b [OF that(1)] that(2)])
  qed
qed

lemma chess_user_good:
  assumes "ctl_documented K"
  shows "good_user (chess_user K ro n)"
proof (induction n)
  case 0
  show ?case by (simp add: good_user_def)
next
  case (Suc n)
  have "world_inv A s' \<and> evolves s s' \<and> (\<forall>q n. a \<noteq> ArgHighWater q n)"
    if w: "world_inv A s" and r: "chess_user K ro (Suc n) u a s = Inr s'" for A u a s s'
    using r on_okD [OF OnConnect_sound [OF w]] on_okD [OF OnClose_sound [OF Suc assms w]]
      on_okD [OF OnMessage_sound [OF Suc assms w]]
    by (cases u; cases a) (auto simp: sound_def)
  then show ?case unfolding good_user_def by blast
qed

text \<open>The write callback of a closed connection moves its read index back, and does nothing else.\<close>

lemma stale_write:
  assumes "closed_at q s" "handleWrite (closed_kernel K) U q s = Inr s'"
  shows "\<exists>tc c bs buf. conns s q = Some tc \<and> tstate tc = Disconnected \<and> chans s (socketChannel tc) = Some c
    \<and> s' = upd_conn q (tc\<lparr>outputBuffer := buf\<rparr>) (log_sys (SysWrite (fd c) bs (Inl EBADF)) s)"
proof -
  obtain tc where tc: "conns s q = Some tc" "tstate tc = Disconnected"
    using assms(1) by (auto simp: closed_at_def split: option.splits)
  obtain c bs buf where r: "chans s (socketChannel tc) = Some c" "Peek (outputBuffer tc) = Inr bs" "Retrieve (- 1) (outputBuffer tc) = Inr buf"
    using assms(2) tc(1) by (auto simp: handleWrite_def closed_kernel_def rbind_eq_Inr Let_def)
  have "ReadableBytes buf \<noteq> 0"
    using r(2,3) by (auto simp: Peek_def go_slice_def Retrieve_def ReadableBytes_def split: if_splits)
  then show ?thesis using assms(2) tc r by (auto simp: handleWrite_def closed_kernel_def Let_def)
qed

lemma accept_conn_sound:
  assumes "good_user U" "ctl_documented K" "world_inv A s"
  shows "on_ok (sound A s) (accept_conn K U f peer s)"
proof -
  obtain q s1 where n: "newConnection f peer s = (q, s1)" by (cases "newConnection f peer s") auto
  note new = newConnection_inv [OF assms(3) n]
  have "sound A s s1" using new(1,3,4) unfolding sound_def evolves_def by fastforce
  then show ?thesis unfolding accept_conn_def n prod.case setConnectedCallback_def setMessageCallback_def
    using assms(1,2) by (intro on_ok_sound_bind set_conn_sound RunInLoop_sound) simp_all
qed

lemma chess_event_sound:
  assumes "ctl_documented K" "world_inv A s"
  shows "on_ok (sound A s) (chess_event_step K ro n e s)"
proof -
  note U = chess_user_good [OF assms(1), of ro n]
  show ?thesis
  proof (cases e)
    case (EvWrite q)
    show ?thesis
    proof (rule on_okI)
      fix s' assume r: "chess_event_step K ro n e s = Inr s'"
      show "sound A s s'"
      proof (cases "write_due q s")
        case True
        then obtain tc c where "conns s q = Some tc" "is_open tc" "chans s (socketChannel tc) = Some c" "IsWriting c"
          by (auto simp: write_due_def split: option.splits)
        moreover have "handleWrite K (chess_user K ro n) q s = Inr s'"
          using r True by (simp add: chess_event_step_def EvWrite)
        ultimately show ?thesis unfolding sound_def by (intro handleWrite_keeps [OF U assms])
      next
        case False
        show ?thesis
        proof (cases "closed_at q s")
          case True
          with False r have "handleWrite (closed_kernel K) (chess_user K ro n) q s = Inr s'"
            by (simp add: chess_event_step_def EvWrite)
          from stale_write [OF True this] obtain tc c bs buf where c: "conns s q = Some tc" "tstate tc = Disconnected"
              "chans s (socketChannel tc) = Some c"
              "s' = upd_conn q (tc\<lparr>outputBuffer := buf\<rparr>) (log_sys (SysWrite (fd c) bs (Inl EBADF)) s)" by blast
          have l: "world_inv A (log_sys (SysWrite (fd c) bs (Inl EBADF)) s)" by (rule world_inv_log [OF assms(2)]) simp
          obtain c' where "chans s (socketChannel tc) = Some c'" "conn_ok (q \<notin> A) tc c' (mapped s (fd c'))"
            using conns_okD [OF world_invD(3) [OF assms(2)] c(1)] .
          then have "conn_ok (q \<notin> A) (tc\<lparr>outputBuffer := buf\<rparr>) c (mapped s (fd c))" using c(2,3) by (simp add: conn_ok_def)
          then have "world_inv A s'" unfolding c(4) using c(1,3) by (intro world_inv_conn [OF l]) simp_all
          moreover have "evolves s s'" using c(1,4) by (simp add: evolves_def)
          ultimately show ?thesis by (simp add: sound_def)
        qed (use False r assms(2) in \<open>simp add: chess_event_step_def EvWrite sound_def\<close>)
      qed
    qed
  next
    case (EvRead q)
    then show ?thesis
      using handleRead_keeps [OF U assms] by (auto simp: chess_event_step_def sound_def intro!: on_okI)
  qed (use accept_conn_sound [OF U assms] OnTimeout_sound [OF U assms] in \<open>simp_all add: chess_event_step_def\<close>)
qed

end
