(* ===== verification/Chess_Game.thy ===== *)
theory Chess_Game
  imports Chess_Handler
begin

text \<open>
  The invariant of the chess server over \<^verbatim>\<open>Chess_Handler\<close>: connections, contexts and games agree
  after every event.
\<close>

section \<open>What the callbacks leave alone\<close>

text \<open>The part of a connection the application relies on: everything but its buffers.\<close>

definition cproj :: "'u tcpConnection \<Rightarrow> 'u tcpConnection" where
  "cproj tc = tc\<lparr>outputBuffer := NewBuffer, inputBuffer := NewBuffer\<rparr>"

definition same_conns :: "chess_world \<Rightarrow> chess_world \<Rightarrow> bool" where
  "same_conns s s' \<longleftrightarrow> (\<forall>q. map_option cproj (conns s' q) = map_option cproj (conns s q))"

definition same_app :: "chess_world \<Rightarrow> chess_world \<Rightarrow> bool" where
  "same_app s s' \<longleftrightarrow> ConnMap s' = ConnMap s \<and> AtomicIDIncrease s' = AtomicIDIncrease s \<and> games s' = games s
     \<and> nextGame s' = nextGame s \<and> running s' = running s \<and> nextConn s' = nextConn s"

lemma same_refl [simp]: "same_conns s s" "same_app s s"
  by (simp_all add: same_conns_def same_app_def)

lemma same_trans:
  "same_conns s t \<Longrightarrow> same_conns t u \<Longrightarrow> same_conns s u" "same_app s t \<Longrightarrow> same_app t u \<Longrightarrow> same_app s u"
  by (simp_all add: same_conns_def same_app_def)

lemma same_upd_conn:
  "conns s q = Some tc \<Longrightarrow> cproj tc' = cproj tc \<Longrightarrow> same_conns s (upd_conn q tc' s)" "same_app s (upd_conn q tc s)"
  by (simp_all add: same_conns_def same_app_def upd_conn_def)

lemma same_upd_chan: "same_conns s (upd_chan p c s)" "same_app s (upd_chan p c s)"
  by (simp_all add: same_conns_def same_app_def upd_chan_def)

lemma same_log: "same_conns s (log_sys e s)" "same_app s (log_sys e s)"
  by (simp_all add: same_conns_def same_app_def log_sys_def)

lemma UpdateChannel_same:
  fixes s s' :: chess_world
  assumes "UpdateChannel K p s = Inr s'"
  shows "same_conns s s'" "same_app s s'" "conns s' = conns s"
proof -
  show "conns s' = conns s" by (subst UpdateChannel_frame [OF assms], simp)
  have "conns s' = conns s" "ConnMap s' = ConnMap s" "AtomicIDIncrease s' = AtomicIDIncrease s" "games s' = games s"
    "nextGame s' = nextGame s" "running s' = running s" "nextConn s' = nextConn s"
    by (subst UpdateChannel_frame [OF assms], simp)+
  then show "same_conns s s'" "same_app s s'" by (simp_all add: same_conns_def same_app_def)
qed

lemma RemoveChannel_same:
  fixes s s' :: chess_world
  assumes "RemoveChannel K p s = Inr s'"
  shows "conns s' = conns s" "same_app s s'"
  using assms
  by (auto simp: RemoveChannel_def base_frame rbind_eq_Inr same_app_def split: option.splits if_splits)

text \<open>\<^verbatim>\<open>Send\<close> changes an output buffer at most.\<close>

lemma send_packet_same:
  assumes "send_packet K U q body s = Inr s'" "running s = 1"
    "\<And>tc. conns s q = Some tc \<Longrightarrow> highWaterCallback tc = Some DefaultCb"
  shows "same_conns s s' \<and> same_app s s'"
proof -
  let ?bs = "DoPackWith4BytesHeader body"
  have r: "send_in_loop K U q ?bs s = Inr s'"
    using assms(1,2) by (simp add: send_packet_def Send_def RunInLoop_def run_functor_def run_conn_def)
  then obtain tc where tc: "conns s q = Some tc" by (auto simp: send_in_loop_def rbind_eq_Inr)
  show ?thesis
  proof (cases "tstate tc = Connected")
    case True
    have hw: "(if P then call_back U (highWaterCallback tc) (ArgHighWater q n) t else Inr t) = Inr t" for P n t
      using assms(3) [OF tc] by (simp add: call_back_def default_callback_def)
    have "send_in_loop K U q ?bs s =
      rbind (Append ?bs (outputBuffer tc)) (\<lambda>buf.
        let s1 = upd_conn q (tc\<lparr>outputBuffer := buf\<rparr>) s
        in rbind (deref_chan (socketChannel tc) s1) (\<lambda>c.
          if \<not> IsWriting c
          then UpdateChannel K (socketChannel tc) (upd_chan (socketChannel tc) (snd (EnableWrite c)) s1)
          else Inr s1))"
      using tc True by (simp add: send_in_loop_def hw Let_def)
    from trans [OF this [symmetric] r] obtain buf c where k: "(if \<not> IsWriting c
          then UpdateChannel K (socketChannel tc) (upd_chan (socketChannel tc) (snd (EnableWrite c))
             (upd_conn q (tc\<lparr>outputBuffer := buf\<rparr>) s))
          else Inr (upd_conn q (tc\<lparr>outputBuffer := buf\<rparr>) s)) = Inr s'"
      unfolding Let_def rbind_eq_Inr by blast
    have u: "same_conns s (upd_conn q (tc\<lparr>outputBuffer := buf\<rparr>) s)"
      "same_app s (upd_conn q (tc\<lparr>outputBuffer := buf\<rparr>) s)"
      using tc by (simp_all add: same_upd_conn cproj_def)
    show ?thesis
    proof (cases "IsWriting c")
      case False
      with k have "UpdateChannel K (socketChannel tc) (upd_chan (socketChannel tc) (snd (EnableWrite c))
          (upd_conn q (tc\<lparr>outputBuffer := buf\<rparr>) s)) = Inr s'" by simp
      note same = UpdateChannel_same [OF this]
      show ?thesis
        using same_trans(1) [OF same_trans(1) [OF u(1) same_upd_chan(1)] same(1)]
          same_trans(2) [OF same_trans(2) [OF u(2) same_upd_chan(2)] same(2)] by simp
    qed (use k u in simp)
  qed (use r tc in \<open>simp add: send_in_loop_def\<close>)
qed

section \<open>The invariant of the application\<close>

text \<open>A game: two different players, a table that some game reaches, a turn.\<close>

definition game_ok :: "GameContext \<Rightarrow> bool" where
  "game_ok g \<longleftrightarrow> RedConnID g \<noteq> BlackConnID g \<and> reachable_table (gTable g)
     \<and> (TurnNow g = GameSideRed \<or> TurnNow g = GameSideBlack)"

definition plays :: "(int \<rightharpoonup> ConnContext) \<Rightarrow> int \<Rightarrow> nat \<Rightarrow> bool" where
  "plays m k a \<longleftrightarrow> (\<exists>cc. m k = Some cc \<and> Gcontext cc = Some a)"

text \<open>A context is in the state \<^verbatim>\<open>Gaming\<close> exactly when it has a game, it is one of the two players of that
  game, and both players' contexts point to it.\<close>

definition games_ok :: "(int \<rightharpoonup> ConnContext) \<Rightarrow> (nat \<rightharpoonup> GameContext) \<Rightarrow> nat \<Rightarrow> bool" where
  "games_ok m gs n \<longleftrightarrow> (\<forall>k cc. m k = Some cc \<longrightarrow>
     (case Gcontext cc of None \<Rightarrow> ccState cc \<noteq> ConnStateGaming
      | Some a \<Rightarrow> ccState cc = ConnStateGaming \<and> a < n \<and> (\<exists>g. gs a = Some g \<and> game_ok g
          \<and> (k = RedConnID g \<or> k = BlackConnID g) \<and> plays m (RedConnID g) a \<and> plays m (BlackConnID g) a)))"

text \<open>At most one connection waits for an opponent.\<close>

definition one_waits :: "(int \<rightharpoonup> ConnContext) \<Rightarrow> bool" where
  "one_waits m \<longleftrightarrow> (\<forall>j k c d. m j = Some c \<longrightarrow> m k = Some d \<longrightarrow> ccState c = ConnStateMatching \<longrightarrow>
     ccState d = ConnStateMatching \<longrightarrow> j = k)"

text \<open>The callbacks that the server and \<^verbatim>\<open>OnConnect\<close> install; the identifier in a context is one that
  was handed out, and no other connection uses its entry.\<close>

definition conn_fine :: "chess_world \<Rightarrow> nat \<Rightarrow> chess_val tcpConnection \<Rightarrow> bool" where
  "conn_fine s q tc \<longleftrightarrow> connectedCallback tc = Some (UserCb OnConnectF) \<and> messageCallback tc = Some (UserCb OnMessageF)
     \<and> highWaterCallback tc = Some DefaultCb \<and> writeCompleteCallback tc = Some DefaultCb
     \<and> (\<forall>k ok. ctx_Get ''conn_id'' (conn_ctx tc) = (Some (IntVal k), ok) \<longrightarrow>
          k \<le> sint (AtomicIDIncrease s) \<and> (\<forall>cc. ConnMap s k = Some cc \<longrightarrow> ccConn cc = q))"

text \<open>Each entry names itself and an established connection that knows its key (\<open>X\<close>: the entries whose
  connection is being closed); each established connection has an entry.\<close>

definition entry_fine :: "int set \<Rightarrow> chess_world \<Rightarrow> int \<Rightarrow> ConnContext \<Rightarrow> bool" where
  "entry_fine X s k cc \<longleftrightarrow> ccID cc = k \<and> (\<exists>tc. conns s (ccConn cc) = Some tc
     \<and> ctx_Get ''conn_id'' (conn_ctx tc) = (Some (IntVal k), True)
     \<and> disconnectedCallback tc = Some (UserCb OnCloseF) \<and> (k \<notin> X \<longrightarrow> tstate tc = Connected))"

definition conns_fine :: "int set \<Rightarrow> chess_world \<Rightarrow> bool" where
  "conns_fine X s \<longleftrightarrow> running s = 1 \<and> finite (dom (ConnMap s)) \<and> (\<forall>q \<ge> nextConn s. conns s q = None)
     \<and> (\<forall>q tc. conns s q = Some tc \<longrightarrow> conn_fine s q tc \<and> tstate tc \<noteq> Disconnecting
          \<and> (tstate tc = Connected \<longrightarrow> (\<exists>k cc. ConnMap s k = Some cc \<and> ccConn cc = q)))
     \<and> (\<forall>k cc. ConnMap s k = Some cc \<longrightarrow> entry_fine X s k cc)"

definition chess_inv :: "int set \<Rightarrow> chess_world \<Rightarrow> bool" where
  "chess_inv X s \<longleftrightarrow> conns_fine X s \<and> games_ok (ConnMap s) (games s) (nextGame s) \<and> one_waits (ConnMap s)"

lemma cproj_eqD:
  assumes "cproj tc = cproj td"
  shows "tstate tc = tstate td" "conn_ctx tc = conn_ctx td" "connectedCallback tc = connectedCallback td"
    "disconnectedCallback tc = disconnectedCallback td" "messageCallback tc = messageCallback td"
    "highWaterCallback tc = highWaterCallback td" "writeCompleteCallback tc = writeCompleteCallback td"
  using arg_cong [OF assms, of tstate] arg_cong [OF assms, of conn_ctx] arg_cong [OF assms, of connectedCallback]
    arg_cong [OF assms, of disconnectedCallback] arg_cong [OF assms, of messageCallback]
    arg_cong [OF assms, of highWaterCallback] arg_cong [OF assms, of writeCompleteCallback]
  by (simp_all add: cproj_def)

lemma same_connsD:
  assumes "same_conns s s'" "conns s' q = Some tc'"
  obtains tc where "conns s q = Some tc" "cproj tc' = cproj tc"
proof -
  have "map_option cproj (conns s' q) = map_option cproj (conns s q)" using assms(1) by (simp add: same_conns_def)
  with assms(2) that show thesis by (cases "conns s q") auto
qed

lemma same_conns_sym: "same_conns s s' \<Longrightarrow> same_conns s' s"
  by (simp add: same_conns_def)

lemma conns_fine_same:
  assumes "conns_fine X s" "same_conns s s'" "same_app s s'"
  shows "conns_fine X s'"
proof -
  have f: "ConnMap s' = ConnMap s" "AtomicIDIncrease s' = AtomicIDIncrease s" "running s' = running s"
      "nextConn s' = nextConn s"
    using assms(3) by (simp_all add: same_app_def)
  have "conn_fine s' q tc' \<and> tstate tc' \<noteq> Disconnecting
      \<and> (tstate tc' = Connected \<longrightarrow> (\<exists>k cc. ConnMap s k = Some cc \<and> ccConn cc = q))"
    if q: "conns s' q = Some tc'" for q tc'
  proof -
    obtain tc where tc: "conns s q = Some tc" "cproj tc' = cproj tc" by (rule same_connsD [OF assms(2) q])
    then show ?thesis using assms(1) cproj_eqD [OF tc(2)] by (simp add: conns_fine_def conn_fine_def f)
  qed
  moreover have "entry_fine X s' k cc" if m: "ConnMap s k = Some cc" for k cc
  proof -
    obtain tc where tc: "ccID cc = k" "conns s (ccConn cc) = Some tc"
        "ctx_Get ''conn_id'' (conn_ctx tc) = (Some (IntVal k), True)"
        "disconnectedCallback tc = Some (UserCb OnCloseF)" "k \<notin> X \<longrightarrow> tstate tc = Connected"
      using assms(1) m unfolding conns_fine_def entry_fine_def by blast
    obtain td where td: "conns s' (ccConn cc) = Some td" "cproj tc = cproj td"
      by (rule same_connsD [OF same_conns_sym [OF assms(2)] tc(2)])
    then show ?thesis using tc cproj_eqD [OF td(2)] by (simp add: entry_fine_def)
  qed
  moreover have "conns s' q = None" if "nextConn s \<le> q" for q
    using assms(1,2) that unfolding conns_fine_def same_conns_def by (metis map_option_is_None)
  ultimately show ?thesis using assms(1) by (simp add: conns_fine_def f)
qed

lemma chess_inv_same: "chess_inv X s \<Longrightarrow> same_conns s s' \<Longrightarrow> same_app s s' \<Longrightarrow> chess_inv X s'"
  using conns_fine_same [of X s s'] by (simp add: chess_inv_def same_app_def)

subsection \<open>Updates of the map and of the games\<close>

lemma games_okD:
  assumes "games_ok m gs n" "m k = Some cc" "Gcontext cc = Some a"
  obtains g where "ccState cc = ConnStateGaming" "a < n" "gs a = Some g" "game_ok g"
    "k = RedConnID g \<or> k = BlackConnID g" "plays m (RedConnID g) a" "plays m (BlackConnID g) a"
  using assms unfolding games_ok_def by fastforce

lemma games_ok_idle: "games_ok m gs n \<Longrightarrow> m k = Some cc \<Longrightarrow> ccState cc \<noteq> ConnStateGaming \<Longrightarrow> Gcontext cc = None"
  unfolding games_ok_def by (fastforce split: option.splits)

lemma games_ok_gaming: "games_ok m gs n \<Longrightarrow> m k = Some cc \<Longrightarrow> Gcontext cc = None \<Longrightarrow> ccState cc \<noteq> ConnStateGaming"
  unfolding games_ok_def by (fastforce split: option.splits)

lemma games_okI:
  assumes "\<And>k cc. m k = Some cc \<Longrightarrow> Gcontext cc = None \<Longrightarrow> ccState cc \<noteq> ConnStateGaming"
    "\<And>k cc a. m k = Some cc \<Longrightarrow> Gcontext cc = Some a \<Longrightarrow> ccState cc = ConnStateGaming \<and> a < n \<and>
       (\<exists>g. gs a = Some g \<and> game_ok g \<and> (k = RedConnID g \<or> k = BlackConnID g)
          \<and> plays m (RedConnID g) a \<and> plays m (BlackConnID g) a)"
  shows "games_ok m gs n"
  using assms unfolding games_ok_def by (auto split: option.splits)

lemma games_ok_upd:
  assumes "games_ok m gs n" "m k = Some cc" "Gcontext cc' = Gcontext cc"
    "ccState cc' = ccState cc \<or> Gcontext cc = None \<and> ccState cc' \<noteq> ConnStateGaming"
  shows "games_ok (m(k \<mapsto> cc')) gs n"
proof (rule games_okI)
  have p: "plays (m(k \<mapsto> cc')) j a = plays m j a" for j a using assms(2,3) by (auto simp: plays_def)
  fix j c assume j: "(m(k \<mapsto> cc')) j = Some c"
  show "ccState c \<noteq> ConnStateGaming" if "Gcontext c = None"
    using j that assms games_ok_gaming [OF assms(1)] by (cases "j = k") auto
  fix a assume a: "Gcontext c = Some a"
  have "\<exists>d. m j = Some d \<and> Gcontext d = Some a \<and> ccState d = ccState c"
    using j a assms(2-4) by (cases "j = k") auto
  then obtain d where "m j = Some d" "Gcontext d = Some a" "ccState d = ccState c" by blast
  then show "ccState c = ConnStateGaming \<and> a < n \<and> (\<exists>g. gs a = Some g \<and> game_ok g
      \<and> (j = RedConnID g \<or> j = BlackConnID g) \<and> plays (m(k \<mapsto> cc')) (RedConnID g) a \<and> plays (m(k \<mapsto> cc')) (BlackConnID g) a)"
    using games_okD [OF assms(1)] unfolding p by metis
qed

lemma games_ok_store:
  assumes "games_ok m gs n" "gs a = Some g" "game_ok g'" "RedConnID g' = RedConnID g" "BlackConnID g' = BlackConnID g"
  shows "games_ok m (gs(a \<mapsto> g')) n"
proof (rule games_okI)
  fix j c assume j: "m j = Some c"
  show "ccState c \<noteq> ConnStateGaming" if "Gcontext c = None" by (rule games_ok_gaming [OF assms(1) j that])
  fix b assume b: "Gcontext c = Some b"
  obtain h where h: "ccState c = ConnStateGaming" "b < n" "gs b = Some h" "game_ok h"
      "j = RedConnID h \<or> j = BlackConnID h" "plays m (RedConnID h) b" "plays m (BlackConnID h) b"
    using games_okD [OF assms(1) j b] by blast
  then show "ccState c = ConnStateGaming \<and> b < n \<and> (\<exists>g. (gs(a \<mapsto> g')) b = Some g \<and> game_ok g
      \<and> (j = RedConnID g \<or> j = BlackConnID g) \<and> plays m (RedConnID g) b \<and> plays m (BlackConnID g) b)"
    using assms(2-5) by (cases "b = a") auto
qed

lemma games_ok_free:
  assumes "games_ok m gs n" "\<And>k. \<not> plays m k a"
  shows "games_ok m (gs(a \<mapsto> g)) n"
proof (rule games_okI)
  fix j c assume j: "m j = Some c"
  show "ccState c \<noteq> ConnStateGaming" if "Gcontext c = None" by (rule games_ok_gaming [OF assms(1) j that])
  fix b assume b: "Gcontext c = Some b"
  then have "b \<noteq> a" using assms(2) [of j] j by (auto simp: plays_def)
  then show "ccState c = ConnStateGaming \<and> b < n \<and> (\<exists>h. (gs(a \<mapsto> g)) b = Some h \<and> game_ok h
      \<and> (j = RedConnID h \<or> j = BlackConnID h) \<and> plays m (RedConnID h) b \<and> plays m (BlackConnID h) b)"
    using games_okD [OF assms(1) j b] by fastforce
qed

lemma games_ok_start:
  assumes "games_ok m gs n" "m j = Some v" "Gcontext v = None" "m k = Some c" "Gcontext c = None" "j \<noteq> k"
    "game_ok g" "RedConnID g = k" "BlackConnID g = j" "Gcontext v' = Some n" "Gcontext c' = Some n"
    "ccState v' = ConnStateGaming" "ccState c' = ConnStateGaming"
  shows "games_ok (m(j \<mapsto> v', k \<mapsto> c')) (gs(n \<mapsto> g)) (n + 1)"
proof (rule games_okI)
  let ?m = "m(j \<mapsto> v', k \<mapsto> c')"
  fix i d assume i: "?m i = Some d"
  show "ccState d \<noteq> ConnStateGaming" if "Gcontext d = None"
    using i that assms games_ok_gaming [OF assms(1)] by (auto split: if_splits)
  fix b assume b: "Gcontext d = Some b"
  show "ccState d = ConnStateGaming \<and> b < n + 1 \<and> (\<exists>h. (gs(n \<mapsto> g)) b = Some h \<and> game_ok h
      \<and> (i = RedConnID h \<or> i = BlackConnID h) \<and> plays ?m (RedConnID h) b \<and> plays ?m (BlackConnID h) b)"
  proof (cases "i = j \<or> i = k")
    case True
    then show ?thesis using i b assms by (auto simp: plays_def split: if_splits)
  next
    case False
    then have "m i = Some d" using i by simp
    from games_okD [OF assms(1) this b] obtain h where h: "ccState d = ConnStateGaming" "b < n" "gs b = Some h"
        "game_ok h" "i = RedConnID h \<or> i = BlackConnID h" "plays m (RedConnID h) b" "plays m (BlackConnID h) b"
      by blast
    have "plays ?m x b" if "plays m x b" for x using that assms(2-5) by (auto simp: plays_def)
    with h show ?thesis by auto
  qed
qed

lemma games_ok_end:
  assumes "games_ok m gs n" "m k = Some c" "Gcontext c = Some a" "gs a = Some g"
    "k = RedConnID g \<and> r = BlackConnID g \<or> k = BlackConnID g \<and> r = RedConnID g"
    "Gcontext c' = None" "Gcontext d' = None" "ccState c' \<noteq> ConnStateGaming" "ccState d' \<noteq> ConnStateGaming"
  shows "games_ok (m(k \<mapsto> c', r \<mapsto> d')) gs n"
proof (rule games_okI)
  let ?m = "m(k \<mapsto> c', r \<mapsto> d')"
  fix i d assume i: "?m i = Some d"
  show "ccState d \<noteq> ConnStateGaming" if "Gcontext d = None"
    using i that assms games_ok_gaming [OF assms(1)] by (auto split: if_splits)
  fix b assume b: "Gcontext d = Some b"
  then have ne: "i \<noteq> k" "i \<noteq> r" using i assms(6,7) by (auto split: if_splits)
  then have "m i = Some d" using i by simp
  from games_okD [OF assms(1) this b] obtain h where h: "ccState d = ConnStateGaming" "b < n" "gs b = Some h"
      "game_ok h" "i = RedConnID h \<or> i = BlackConnID h" "plays m (RedConnID h) b" "plays m (BlackConnID h) b"
    by blast
  obtain g' where "gs a = Some g'" "plays m (RedConnID g') a" "plays m (BlackConnID g') a"
    using games_okD [OF assms(1,2,3)] by blast
  then have p: "plays m k a" "plays m r a" using assms(4,5) by auto
  have "b \<noteq> a" using h(3,5) ne assms(4,5) by auto
  then have "plays ?m x b" if "plays m x b" for x using that p by (auto simp: plays_def)
  with h show "ccState d = ConnStateGaming \<and> b < n \<and> (\<exists>h. gs b = Some h \<and> game_ok h
      \<and> (i = RedConnID h \<or> i = BlackConnID h) \<and> plays ?m (RedConnID h) b \<and> plays ?m (BlackConnID h) b)" by blast
qed

lemma games_ok_remove:
  assumes "games_ok m gs n" "\<And>c. m k = Some c \<Longrightarrow> Gcontext c = None"
  shows "games_ok (m(k := None)) gs n"
proof (rule games_okI)
  fix i d assume i: "(m(k := None)) i = Some d"
  then have m: "m i = Some d" by (auto split: if_splits)
  show "ccState d \<noteq> ConnStateGaming" if "Gcontext d = None" by (rule games_ok_gaming [OF assms(1) m that])
  fix b assume "Gcontext d = Some b"
  from games_okD [OF assms(1) m this] obtain h where h: "ccState d = ConnStateGaming" "b < n" "gs b = Some h"
      "game_ok h" "i = RedConnID h \<or> i = BlackConnID h" "plays m (RedConnID h) b" "plays m (BlackConnID h) b"
    by blast
  have "plays (m(k := None)) x b" if "plays m x b" for x using that assms(2) by (auto simp: plays_def)
  with h show "ccState d = ConnStateGaming \<and> b < n \<and> (\<exists>h. gs b = Some h \<and> game_ok h
      \<and> (i = RedConnID h \<or> i = BlackConnID h) \<and> plays (m(k := None)) (RedConnID h) b
      \<and> plays (m(k := None)) (BlackConnID h) b)" by blast
qed

lemma games_ok_insert:
  assumes "games_ok m gs n" "m k = None" "Gcontext c = None" "ccState c \<noteq> ConnStateGaming"
  shows "games_ok (m(k \<mapsto> c)) gs n"
proof (rule games_okI)
  fix i d assume i: "(m(k \<mapsto> c)) i = Some d"
  show "ccState d \<noteq> ConnStateGaming" if "Gcontext d = None"
    using i that assms games_ok_gaming [OF assms(1)] by (auto split: if_splits)
  fix b assume b: "Gcontext d = Some b"
  then have m: "m i = Some d" using i assms(3) by (auto split: if_splits)
  from games_okD [OF assms(1) m b] obtain h where h: "ccState d = ConnStateGaming" "b < n" "gs b = Some h"
      "game_ok h" "i = RedConnID h \<or> i = BlackConnID h" "plays m (RedConnID h) b" "plays m (BlackConnID h) b"
    by blast
  have "plays (m(k \<mapsto> c)) x b" if "plays m x b" for x using that assms(2) by (auto simp: plays_def)
  with h show "ccState d = ConnStateGaming \<and> b < n \<and> (\<exists>h. gs b = Some h \<and> game_ok h
      \<and> (i = RedConnID h \<or> i = BlackConnID h) \<and> plays (m(k \<mapsto> c)) (RedConnID h) b \<and> plays (m(k \<mapsto> c)) (BlackConnID h) b)"
    by blast
qed

lemma one_waits_upd:
  "one_waits m \<Longrightarrow> (ccState c = ConnStateMatching \<Longrightarrow> \<forall>j d. j \<noteq> k \<longrightarrow> m j = Some d \<longrightarrow> ccState d \<noteq> ConnStateMatching) \<Longrightarrow>
     one_waits (m(k \<mapsto> c))"
  unfolding one_waits_def by auto

lemma one_waits_remove: "one_waits m \<Longrightarrow> one_waits (m(k := None))"
  unfolding one_waits_def by auto

subsection \<open>Connections and entries\<close>

lemma conns_fineD:
  assumes "conns_fine X s"
  shows "running s = 1" "finite (dom (ConnMap s))" "nextConn s \<le> q \<Longrightarrow> conns s q = None"
    "conns s q = Some tc \<Longrightarrow> conn_fine s q tc" "conns s q = Some tc \<Longrightarrow> tstate tc \<noteq> Disconnecting"
    "conns s q = Some tc \<Longrightarrow> tstate tc = Connected \<Longrightarrow> \<exists>k cc. ConnMap s k = Some cc \<and> ccConn cc = q"
    "ConnMap s k = Some cc \<Longrightarrow> entry_fine X s k cc"
  using assms unfolding conns_fine_def by blast+

lemma conns_fineI:
  assumes "running s = 1" "finite (dom (ConnMap s))" "\<And>q. nextConn s \<le> q \<Longrightarrow> conns s q = None"
    "\<And>q tc. conns s q = Some tc \<Longrightarrow> conn_fine s q tc \<and> tstate tc \<noteq> Disconnecting
       \<and> (tstate tc = Connected \<longrightarrow> (\<exists>k cc. ConnMap s k = Some cc \<and> ccConn cc = q))"
    "\<And>k cc. ConnMap s k = Some cc \<Longrightarrow> entry_fine X s k cc"
  shows "conns_fine X s"
  using assms unfolding conns_fine_def by blast

lemma entry_fineD:
  assumes "entry_fine X s k cc"
  obtains tc where "ccID cc = k" "conns s (ccConn cc) = Some tc" "ctx_Get ''conn_id'' (conn_ctx tc) = (Some (IntVal k), True)"
    "disconnectedCallback tc = Some (UserCb OnCloseF)" "k \<notin> X \<Longrightarrow> tstate tc = Connected"
  using assms unfolding entry_fine_def by blast

lemma conn_id_Inr:
  "conn_id q s = Inr k \<longleftrightarrow> (\<exists>tc ok. conns s q = Some tc \<and> ctx_Get ''conn_id'' (conn_ctx tc) = (Some (IntVal k), ok))"
proof (cases "conns s q")
  case (Some tc)
  obtain v ok where g: "ctx_Get ''conn_id'' (conn_ctx tc) = (v, ok)" by (cases "ctx_Get ''conn_id'' (conn_ctx tc)") auto
  with Some have "conn_id q s = (case v of Some (IntVal i) \<Rightarrow> Inr i | _ \<Rightarrow> Inl (PanicMsg ''interface conversion''))"
    by (simp add: conn_id_def conn_GetContext_def)
  with Some g show ?thesis by (auto split: option.splits chess_val.splits)
qed (simp add: conn_id_def conn_GetContext_def deref_conn_def)

lemma deref_cc_Inr [simp]: "deref_cc k s = Inr cc \<longleftrightarrow> ConnMap s k = Some cc"
  by (auto simp: deref_cc_def split: option.splits)

lemma deref_game_Inr [simp]: "deref_game p s = Inr (a, g) \<longleftrightarrow> p = Some a \<and> games s a = Some g"
  by (auto simp: deref_game_def split: option.splits)

text \<open>The entry that a connection knows is its own.\<close>

lemma entry_of_conn:
  "conns_fine X s \<Longrightarrow> conn_id q s = Inr k \<Longrightarrow> ConnMap s k = Some cc \<Longrightarrow> ccConn cc = q \<and> ccID cc = k"
  using conns_fineD(4,7) [of X s] unfolding conn_id_Inr conn_fine_def entry_fine_def by blast

lemma conn_of_entry:
  assumes "conns_fine X s" "ConnMap s k = Some cc"
  shows "conn_id (ccConn cc) s = Inr k"
  using conns_fineD(7) [OF assms] unfolding conn_id_Inr entry_fine_def by blast

lemma conns_fine_upd_cc:
  assumes "conns_fine X s" "ConnMap s k = Some cc" "ccID cc' = ccID cc" "ccConn cc' = ccConn cc"
  shows "conns_fine X (upd_cc k cc' s)"
proof (rule conns_fineI)
  note d = conns_fineD [OF assms(1)]
  have f: "conns (upd_cc k cc' s) = conns s" "nextConn (upd_cc k cc' s) = nextConn s" "running (upd_cc k cc' s) = running s"
      "AtomicIDIncrease (upd_cc k cc' s) = AtomicIDIncrease s" "ConnMap (upd_cc k cc' s) = (ConnMap s)(k \<mapsto> cc')"
    by (simp_all add: upd_cc_def)
  show "running (upd_cc k cc' s) = 1" "finite (dom (ConnMap (upd_cc k cc' s)))"
      "nextConn (upd_cc k cc' s) \<le> q \<Longrightarrow> conns (upd_cc k cc' s) q = None" for q
    using d(1-3) unfolding f by simp_all
  fix q tc assume "conns (upd_cc k cc' s) q = Some tc"
  then have q: "conns s q = Some tc" unfolding f .
  have "conn_fine (upd_cc k cc' s) q tc"
    using d(4) [OF q] assms(2,4) unfolding conn_fine_def f by auto
  moreover have "\<exists>j c. ConnMap (upd_cc k cc' s) j = Some c \<and> ccConn c = q" if "tstate tc = Connected"
  proof -
    obtain j c where "ConnMap s j = Some c" "ccConn c = q" using d(6) [OF q \<open>tstate tc = Connected\<close>] by blast
    then show ?thesis unfolding f using assms(2,4) by (cases "j = k") auto
  qed
  ultimately show "conn_fine (upd_cc k cc' s) q tc \<and> tstate tc \<noteq> Disconnecting
      \<and> (tstate tc = Connected \<longrightarrow> (\<exists>j c. ConnMap (upd_cc k cc' s) j = Some c \<and> ccConn c = q))"
    using d(5) [OF q] by blast
next
  fix j c assume "ConnMap (upd_cc k cc' s) j = Some c"
  then show "entry_fine X (upd_cc k cc' s) j c"
    using conns_fineD(7) [OF assms(1)] assms(2-4) unfolding entry_fine_def
    by (cases "j = k") (auto simp: upd_cc_def)
qed

lemma conns_fine_game [simp]:
  "conns_fine X (upd_game a g s) = conns_fine X s" "conns_fine X (s\<lparr>nextGame := n\<rparr>) = conns_fine X s"
  by (simp_all add: conns_fine_def conn_fine_def entry_fine_def upd_game_def)

lemma conns_fine_remove:
  assumes "conns_fine {k} s" "ConnMap s k = Some cc" "conns s (ccConn cc) = Some tc" "tstate tc \<noteq> Connected"
  shows "conns_fine {} (s\<lparr>ConnMap := (ConnMap s)(k := None)\<rparr>)"
proof (rule conns_fineI)
  note d = conns_fineD [OF assms(1)]
  let ?s = "s\<lparr>ConnMap := (ConnMap s)(k := None)\<rparr>"
  show "running ?s = 1" "finite (dom (ConnMap ?s))" "nextConn ?s \<le> q \<Longrightarrow> conns ?s q = None" for q
    using d(1-3) by simp_all
  fix q td assume "conns ?s q = Some td"
  then have q: "conns s q = Some td" by simp
  have "conn_fine ?s q td" using d(4) [OF q] unfolding conn_fine_def by simp
  moreover have "\<exists>j c. ConnMap ?s j = Some c \<and> ccConn c = q" if t: "tstate td = Connected"
  proof -
    obtain j c where j: "ConnMap s j = Some c" "ccConn c = q" using d(6) [OF q t] by blast
    then have "j \<noteq> k" using assms(2-4) q t by auto
    with j show ?thesis by auto
  qed
  ultimately show "conn_fine ?s q td \<and> tstate td \<noteq> Disconnecting
      \<and> (tstate td = Connected \<longrightarrow> (\<exists>j c. ConnMap ?s j = Some c \<and> ccConn c = q))"
    using d(5) [OF q] by blast
next
  fix j c assume "ConnMap (s\<lparr>ConnMap := (ConnMap s)(k := None)\<rparr>) j = Some c"
  then have "j \<noteq> k" "ConnMap s j = Some c" by (auto split: if_splits)
  with conns_fineD(7) [OF assms(1)] show "entry_fine {} (s\<lparr>ConnMap := (ConnMap s)(k := None)\<rparr>) j c"
    unfolding entry_fine_def by force
qed

lemma conns_fine_close:
  assumes "conns_fine {} s" "ConnMap s k = Some cc" "conns s (ccConn cc) = Some tc"
    and s': "conns s' = (conns s)(ccConn cc \<mapsto> tc\<lparr>tstate := Disconnected\<rparr>)" "same_app s s'"
  shows "conns_fine {k} s'"
proof (rule conns_fineI)
  note d = conns_fineD [OF assms(1)]
  have f: "ConnMap s' = ConnMap s" "AtomicIDIncrease s' = AtomicIDIncrease s" "running s' = running s"
      "nextConn s' = nextConn s"
    using s'(2) by (simp_all add: same_app_def)
  show "running s' = 1" "finite (dom (ConnMap s'))" using d(1,2) by (simp_all add: f)
  show "conns s' q = None" if "nextConn s' \<le> q" for q using d(3) that assms(3) by (auto simp: f s'(1))
  fix q td assume q: "conns s' q = Some td"
  show "conn_fine s' q td \<and> tstate td \<noteq> Disconnecting
      \<and> (tstate td = Connected \<longrightarrow> (\<exists>j c. ConnMap s' j = Some c \<and> ccConn c = q))"
  proof (cases "q = ccConn cc")
    case True
    then have "td = tc\<lparr>tstate := Disconnected\<rparr>" using q s'(1) by simp
    then show ?thesis using d(4) [OF assms(3)] True by (simp add: conn_fine_def f)
  next
    case False
    then have "conns s q = Some td" using q s'(1) by simp
    from d(4-6) [OF this] show ?thesis by (simp add: conn_fine_def f)
  qed
next
  fix j c assume "ConnMap s' j = Some c"
  then have j: "ConnMap s j = Some c" using s'(2) by (simp add: same_app_def)
  show "entry_fine {k} s' j c"
  proof (cases "ccConn c = ccConn cc")
    case True
    then have "j = k" using conn_of_entry [OF assms(1) j] conn_of_entry [OF assms(1,2)] by simp
    then show ?thesis using conns_fineD(7) [OF assms(1) j] True assms(3) s'(1) unfolding entry_fine_def by auto
  next
    case False
    then show ?thesis using conns_fineD(7) [OF assms(1) j] s'(1) unfolding entry_fine_def by auto
  qed
qed

section \<open>Closing\<close>

lemma chess_invD:
  assumes "chess_inv X s"
  shows "conns_fine X s" "games_ok (ConnMap s) (games s) (nextGame s)" "one_waits (ConnMap s)"
  using assms by (simp_all add: chess_inv_def)

lemma send_fine:
  assumes "send_packet K U q body s = Inr s'" "conns_fine X s"
  shows "same_conns s s'" "same_app s s'"
  using send_packet_same [OF assms(1) conns_fineD(1) [OF assms(2)]] conns_fineD(4) [OF assms(2)]
  unfolding conn_fine_def by blast+

lemma upd_cc_fields [simp]:
  "ConnMap (upd_cc k cc s) = (ConnMap s)(k \<mapsto> cc)" "games (upd_cc k cc s) = games s" "nextGame (upd_cc k cc s) = nextGame s"
  "AtomicIDIncrease (upd_cc k cc s) = AtomicIDIncrease s" "conns (upd_cc k cc s) = conns s"
  by (simp_all add: upd_cc_def)

lemma upd_game_fields [simp]:
  "ConnMap (upd_game a g s) = ConnMap s" "games (upd_game a g s) = (games s)(a \<mapsto> g)" "nextGame (upd_game a g s) = nextGame s"
  "AtomicIDIncrease (upd_game a g s) = AtomicIDIncrease s" "conns (upd_game a g s) = conns s"
  by (simp_all add: upd_game_def)

lemma same_appD:
  assumes "same_app s s'"
  shows "ConnMap s' = ConnMap s" "AtomicIDIncrease s' = AtomicIDIncrease s" "games s' = games s" "nextGame s' = nextGame s"
  using assms by (simp_all add: same_app_def)

text \<open>The two players of a game.\<close>

lemma opponent:
  assumes "games_ok m gs n" "m k = Some cc" "Gcontext cc = Some a" "gs a = Some g"
    "r = (if BlackConnID g = k then RedConnID g else BlackConnID g)"
  obtains "r \<noteq> k" "plays m r a" "k = RedConnID g \<and> r = BlackConnID g \<or> k = BlackConnID g \<and> r = RedConnID g" "game_ok g"
proof -
  obtain g' where "gs a = Some g'" "game_ok g'" "k = RedConnID g' \<or> k = BlackConnID g'"
      "plays m (RedConnID g') a" "plays m (BlackConnID g') a"
    using games_okD [OF assms(1-3)] by blast
  then show thesis using assms(4,5) by (intro that) (auto simp: game_ok_def)
qed

lemma OnClose_keeps:
  assumes inv: "chess_inv {k} s" and k: "ConnMap s k = Some cc" "conns s (ccConn cc) = Some tc" "tstate tc \<noteq> Connected"
    and r: "OnClose K U (ccConn cc) s = Inr s'"
  shows "chess_inv {} s' \<and> ConnMap s' k = None \<and> AtomicIDIncrease s' = AtomicIDIncrease s"
proof -
  note i = chess_invD [OF inv]
  let ?del = "\<lambda>t::chess_world. t\<lparr>ConnMap := (ConnMap t)(k := None)\<rparr>"
  have id: "conn_id (ccConn cc) s = Inr k" by (rule conn_of_entry [OF i(1) k(1)])
  show ?thesis
  proof (cases "ccState cc = ConnStateGaming")
    case False
    then have "s' = ?del s" using r id k(1) by (simp add: OnClose_def deref_cc_def)
    moreover have "games_ok ((ConnMap s)(k := None)) (games s) (nextGame s)"
      using games_ok_idle [OF i(2) k(1) False] k(1) by (intro games_ok_remove [OF i(2)]) simp
    ultimately show ?thesis
      using conns_fine_remove [OF i(1) k] one_waits_remove [OF i(3)] by (simp add: chess_inv_def)
  next
    case True
    define rem where "rem = (\<lambda>g::GameContext. if BlackConnID g = k then RedConnID g else BlackConnID g)"
    let ?none = "\<lambda>c::ConnContext. c\<lparr>Gcontext := None, ccState := ConnStateNone\<rparr>"
    obtain a g rc s2 where g: "Gcontext cc = Some a" "games s a = Some g" "ConnMap s (rem g) = Some rc"
        and s2: "send_packet K U (ccConn rc) (Marshal_ServerRemoteLoseConnection zero_header)
          (upd_cc (rem g) (?none rc) s) = Inr s2" "s' = ?del s2"
      using r id k(1) True by (auto simp: OnClose_def rbind_eq_Inr deref_cc_def rem_def Let_def split: prod.splits option.splits)
    let ?s1 = "upd_cc (rem g) (?none rc) s"
    obtain rk: "rem g \<noteq> k" and two: "k = RedConnID g \<and> rem g = BlackConnID g \<or> k = BlackConnID g \<and> rem g = RedConnID g"
      by (rule opponent [OF i(2) k(1) g(1,2), of "rem g"]) (auto simp: rem_def)
    have f1: "conns_fine {k} ?s1" by (rule conns_fine_upd_cc [OF i(1) g(3)]) simp_all
    note same = send_fine [OF s2(1) f1]
    have f2: "conns_fine {k} s2" by (rule conns_fine_same [OF f1 same])
    have m2: "ConnMap s2 k = Some cc" using same_appD(1) [OF same(2)] k(1) rk by simp
    obtain td where td: "conns s2 (ccConn cc) = Some td" "cproj tc = cproj td"
      by (rule same_connsD [OF same_conns_sym [OF same(1)], of "ccConn cc" tc]) (use k(2) in simp)
    have "conns_fine {} s'" unfolding s2(2)
      by (rule conns_fine_remove [OF f2 m2 td(1)]) (use k(3) cproj_eqD(1) [OF td(2)] in simp)
    moreover have "games_ok ((ConnMap s)(k \<mapsto> ?none cc, rem g \<mapsto> ?none rc)) (games s) (nextGame s)"
      by (rule games_ok_end [OF i(2) k(1) g(1,2) two]) simp_all
    then have "games_ok (((ConnMap s)(k \<mapsto> ?none cc, rem g \<mapsto> ?none rc))(k := None)) (games s) (nextGame s)"
      by (rule games_ok_remove) (use rk in auto)
    then have "games_ok ((ConnMap s)(rem g \<mapsto> ?none rc, k := None)) (games s) (nextGame s)"
      using rk by (simp add: fun_upd_twist)
    moreover have "one_waits ((ConnMap s)(rem g \<mapsto> ?none rc, k := None))"
      by (intro one_waits_remove one_waits_upd [OF i(3)]) simp
    ultimately show ?thesis using same_appD [OF same(2)] s2(2) by (simp add: chess_inv_def)
  qed
qed

text \<open>A user that runs \<^verbatim>\<open>OnClose\<close> as the disconnect callback.\<close>

definition closes :: "kernel \<Rightarrow> (chess_val, _) user \<Rightarrow> bool" where
  "closes K U \<longleftrightarrow> (\<forall>q s s'. U OnCloseF (ArgDisConnected q) s = Inr s' \<longrightarrow> (\<exists>V. OnClose K V q s = Inr s'))"

lemma chess_user_closes: "closes K (chess_user K ro n)"
  by (cases n) (auto simp: closes_def)

abbreviation keeps :: "chess_world \<Rightarrow> chess_world \<Rightarrow> bool" where
  "keeps s s' \<equiv> chess_inv {} s' \<and> AtomicIDIncrease s' = AtomicIDIncrease s"

lemma handleClose_inv:
  assumes inv: "chess_inv {} s" and U: "closes K U" and r: "handleClose K U q s = Inr s'"
  shows "\<exists>k cc. ConnMap s k = Some cc \<and> ccConn cc = q \<and> ConnMap s' k = None \<and> keeps s s'"
proof -
  note i = chess_invD [OF inv]
  obtain tc where tc: "conns s q = Some tc" "is_open tc"
    using r by (auto simp: handleClose_def rbind_eq_Inr split: if_splits)
  obtain s1 f tc2 where s1: "RemoveChannel K (socketChannel tc) (upd_conn q (tc\<lparr>tstate := Disconnected\<rparr>) s) = Inr s1"
      and cb: "conns s1 q = Some tc2"
        "call_back U (disconnectedCallback tc2) (ArgDisConnected q) (log_sys (SysClose f) s1) = Inr s'"
    using r tc by (auto simp: handleClose_def rbind_eq_Inr Let_def)
  let ?s2 = "log_sys (SysClose f) s1"
  have t: "tstate tc = Connected" using tc conns_fineD(5) [OF i(1)] by blast
  obtain k cc where k: "ConnMap s k = Some cc" "ccConn cc = q" using conns_fineD(6) [OF i(1) tc(1) t] by blast
  have d: "disconnectedCallback tc = Some (UserCb OnCloseF)"
    using entry_fineD [OF conns_fineD(7) [OF i(1) k(1)]] k(2) tc(1) by auto
  have c2: "conns ?s2 = (conns s)(q \<mapsto> tc\<lparr>tstate := Disconnected\<rparr>)" using RemoveChannel_same(1) [OF s1] by simp
  have a2: "same_app s ?s2"
    by (rule same_trans(2) [OF same_upd_conn(2) same_trans(2) [OF RemoveChannel_same(2) [OF s1] same_log(2)]])
  have "conns_fine {k} ?s2" by (rule conns_fine_close [OF i(1) k(1)]) (use k(2) tc(1) c2 a2 in simp_all)
  then have inv2: "chess_inv {k} ?s2" using i(2,3) same_appD [OF a2] by (simp add: chess_inv_def)
  have "U OnCloseF (ArgDisConnected q) ?s2 = Inr s'" using cb c2 d by (auto simp: call_back_def)
  then obtain V where v: "OnClose K V (ccConn cc) ?s2 = Inr s'" using U k(2) unfolding closes_def by blast
  have "ConnMap ?s2 k = Some cc" "conns ?s2 (ccConn cc) = Some (tc\<lparr>tstate := Disconnected\<rparr>)"
    using k c2 same_appD(1) [OF a2] by simp_all
  then have "chess_inv {} s' \<and> ConnMap s' k = None \<and> AtomicIDIncrease s' = AtomicIDIncrease ?s2"
    using OnClose_keeps [OF inv2 _ _ _ v, of "tc\<lparr>tstate := Disconnected\<rparr>"] by simp
  then show ?thesis using k same_appD(2) [OF a2] by auto
qed

lemma force_close_inv:
  assumes "chess_inv {} s" "closes K U" "force_close K U q s = Inr s'"
  shows "keeps s s'" "conn_id q s = Inr k \<Longrightarrow> ConnMap s' k = None"
proof -
  have r: "forceclose_in_loop K U q s = Inr s'"
    using assms(3) conns_fineD(1) [OF chess_invD(1) [OF assms(1)]]
    by (simp add: force_close_def ForceClose_def RunInLoop_def run_functor_def run_conn_def)
  then obtain tc where tc: "conns s q = Some tc" by (auto simp: forceclose_in_loop_def rbind_eq_Inr)
  have "keeps s s' \<and> (conn_id q s = Inr k \<longrightarrow> ConnMap s' k = None)"
  proof (cases "is_open tc")
    case True
    then have "handleClose K U q s = Inr s'" using r tc by (auto simp: forceclose_in_loop_def)
    from handleClose_inv [OF assms(1,2) this] obtain j cc where j: "ConnMap s j = Some cc" "ccConn cc = q"
        "ConnMap s' j = None" "keeps s s'" by blast
    with conn_of_entry [OF chess_invD(1) [OF assms(1)] j(1)] show ?thesis by auto
  next
    case False
    then have s': "s' = s" using r tc by (auto simp: forceclose_in_loop_def)
    have "ConnMap s k = None" if "conn_id q s = Inr k"
    proof (rule ccontr)
      assume "ConnMap s k \<noteq> None"
      then obtain cc where k: "ConnMap s k = Some cc" by blast
      have "ccConn cc = q" using entry_of_conn [OF chess_invD(1) [OF assms(1)] that k] by simp
      with entry_fineD [OF conns_fineD(7) [OF chess_invD(1) [OF assms(1)] k]] tc False show False by auto
    qed
    with s' assms(1) show ?thesis by simp
  qed
  then show "keeps s s'" "conn_id q s = Inr k \<Longrightarrow> ConnMap s' k = None" by auto
qed

lemma send_inv:
  assumes "chess_inv X s" "send_packet K U q body s = Inr s'"
  shows "chess_inv X s'" "same_app s s'"
  using chess_inv_same [OF assms(1)] send_fine [OF assms(2) chess_invD(1) [OF assms(1)]] by auto

section \<open>Messages\<close>

lemma lose_count_inv:
  assumes "chess_inv {} s" "ConnMap s k = Some cc"
  shows "chess_inv {} (upd_cc k (cc\<lparr>LoseHertbeatCount := n\<rparr>) s)"
proof -
  note i = chess_invD [OF assms(1)]
  have "conns_fine {} (upd_cc k (cc\<lparr>LoseHertbeatCount := n\<rparr>) s)" by (rule conns_fine_upd_cc [OF i(1) assms(2)]) simp_all
  moreover have "games_ok ((ConnMap s)(k \<mapsto> cc\<lparr>LoseHertbeatCount := n\<rparr>)) (games s) (nextGame s)"
    by (rule games_ok_upd [OF i(2) assms(2)]) simp_all
  moreover have "one_waits ((ConnMap s)(k \<mapsto> cc\<lparr>LoseHertbeatCount := n\<rparr>))"
    by (rule one_waits_upd [OF i(3)]) (use i(3) assms(2) in \<open>auto simp: one_waits_def\<close>)
  ultimately show ?thesis by (simp add: chess_inv_def)
qed

lemma start_game_inv:
  assumes inv: "chess_inv {} s" and j: "ConnMap s j = Some v" "ccState v = ConnStateMatching" "j \<noteq> k"
    and r: "start_game K U k j s = Inr s'"
  shows "\<exists>cc. ConnMap s k = Some cc \<and> (ccState cc \<noteq> ConnStateGaming \<longrightarrow> keeps s s')"
proof -
  note i = chess_invD [OF inv]
  obtain table where table: "NewDefaultChessTable = Inr table" using r by (auto simp: start_game_def rbind_eq_Inr)
  have dj: "deref_cc j s = Inr v" using j(1) by simp
  define g where "g = \<lparr>RedConnID = k, BlackConnID = ccID v, gTable = table, TurnNow = GameSideRed\<rparr>"
  define v' where "v' = v\<lparr>ccState := ConnStateGaming, Gcontext := Some (nextGame s)\<rparr>"
  let ?s2 = "upd_cc j v' (upd_game (nextGame s) g (s\<lparr>nextGame := nextGame s + 1\<rparr>))"
  obtain b3 b4 b6 b7 s3 s4 s6 cc q7 where s3: "send_packet K U (ccConn v) b3 ?s2 = Inr s3"
      and s4: "send_packet K U (ccConn v) b4 s3 = Inr s4" and cc: "ConnMap s4 k = Some cc"
      and s6: "send_packet K U (ccConn cc) b6
        (upd_cc k (cc\<lparr>ccState := ConnStateGaming, Gcontext := Some (nextGame s)\<rparr>) s4) = Inr s6"
      and s7: "send_packet K U q7 b7 s6 = Inr s'"
    using r unfolding start_game_def dj table rbind.simps Let_def g_def v'_def rbind_eq_Inr deref_cc_Inr by blast
  define cc' where "cc' = cc\<lparr>ccState := ConnStateGaming, Gcontext := Some (nextGame s)\<rparr>"
  have "conns_fine {} ?s2" by (rule conns_fine_upd_cc [where cc = v]) (use i(1) j(1) in \<open>simp_all add: v'_def\<close>)
  note q3 = this send_fine [OF s3 this]
  note f3 = conns_fine_same [OF q3]
  note q4 = f3 send_fine [OF s4 f3]
  note f4 = conns_fine_same [OF q4]
  have m4: "ConnMap s4 = (ConnMap s)(j \<mapsto> v')" "games s4 = (games s)(nextGame s \<mapsto> g)" "nextGame s4 = nextGame s + 1"
      "AtomicIDIncrease s4 = AtomicIDIncrease s"
    using same_appD [OF q3(3)] same_appD [OF q4(3)] by simp_all
  have k: "ConnMap s k = Some cc" using cc j(3) m4(1) by simp
  have f5: "conns_fine {} (upd_cc k cc' s4)" by (rule conns_fine_upd_cc [OF f4 cc]) (simp_all add: cc'_def)
  note q6 = f5 send_fine [OF s6 [folded cc'_def] f5]
  note f6 = conns_fine_same [OF q6]
  note e7 = f6 send_fine [OF s7 f6]
  have m7: "ConnMap s' = (ConnMap s)(j \<mapsto> v', k \<mapsto> cc')" "games s' = (games s)(nextGame s \<mapsto> g)"
      "nextGame s' = nextGame s + 1" "AtomicIDIncrease s' = AtomicIDIncrease s"
    using same_appD [OF q6(3)] same_appD [OF e7(3)] m4 by simp_all
  have "keeps s s'" if "ccState cc \<noteq> ConnStateGaming"
  proof -
    have "ccID v = j" using entry_fineD [OF conns_fineD(7) [OF i(1) j(1)]] by blast
    moreover have "game_ok g" unfolding game_ok_def g_def
      using table new_table [of table] j(3) \<open>ccID v = j\<close> by simp
    ultimately have "games_ok (ConnMap s') (games s') (nextGame s')" unfolding m7
      using games_ok_idle [OF i(2)] j k that
      by (intro games_ok_start [OF i(2) j(1) _ k]) (simp_all add: g_def v'_def cc'_def)
    moreover have "one_waits (ConnMap s')" unfolding m7
      by (intro one_waits_upd i(3)) (simp_all add: v'_def cc'_def)
    ultimately show ?thesis using conns_fine_same [OF e7] m7(4) by (simp add: chess_inv_def)
  qed
  with k show ?thesis by blast
qed

text \<open>Ranging over a map produces each key once, in an order that may differ from one range to the next. A packet \<^verbatim>\<open>StartMatch\<close> in another state than \<^verbatim>\<open>None\<close>: the entry is gone after \<^verbatim>\<open>ForceClose\<close>, and the code goes on.\<close>

definition range_documented :: "range_order \<Rightarrow> bool" where
  "range_documented ro \<longleftrightarrow> (\<forall>h m. finite (dom m) \<longrightarrow> distinct (ro h m) \<and> set (ro h m) = dom m)"

lemma find_opponent_Some:
  assumes "conns_fine X s" "find_opponent ro k s = Some j"
  shows "\<exists>v. ConnMap s j = Some v \<and> ccState v = ConnStateMatching \<and> j \<noteq> k"
proof -
  have "case ConnMap s j of None \<Rightarrow> False | Some v \<Rightarrow> ccID v \<noteq> k \<and> ccState v = ConnStateMatching"
    using assms(2) unfolding find_opponent_def by (auto simp: find_Some_iff)
  with entry_fineD [OF conns_fineD(7) [OF assms(1)]] show ?thesis by (fastforce split: option.splits)
qed

lemma find_opponent_None:
  assumes "conns_fine X s" "range_documented ro" "find_opponent ro k s = None" "ConnMap s j = Some d" "j \<noteq> k"
  shows "ccState d \<noteq> ConnStateMatching"
proof -
  have "j \<in> set (ro (hist s) (ConnMap s))" "ccID d = j"
    using assms(2,4) conns_fineD(2,7) [OF assms(1)] unfolding range_documented_def entry_fine_def by blast+
  with assms(3-5) show ?thesis unfolding find_opponent_def by (fastforce simp: find_None_iff)
qed

lemma on_start_match_inv:
  assumes inv: "chess_inv {} s" and U: "closes K U" and ro: "range_documented ro" and q: "conn_id q s = Inr k"
    and r: "on_start_match K U ro q k s = Inr s'"
  shows "keeps s s' \<and> (\<exists>cc. ConnMap s k = Some cc \<and> ccState cc = ConnStateNone)"
proof -
  note i = chess_invD [OF inv]
  obtain cc s1 where cc: "ConnMap s k = Some cc"
      and s1: "(if ccState cc \<noteq> ConnStateNone then force_close K U q s else Inr s) = Inr s1"
      and r1: "(case find_opponent ro k s1 of Some j \<Rightarrow> start_game K U k j s1
        | None \<Rightarrow> rbind (deref_cc k s1) (\<lambda>cc1. send_packet K U q (Marshal_ServerMatching zero_header)
               (upd_cc k (cc1\<lparr>ccState := ConnStateMatching\<rparr>) s1))) = Inr s'"
    using r by (auto simp: on_start_match_def rbind_eq_Inr)
  have i1: "chess_inv {} s1"
    using s1 inv force_close_inv(1) [OF inv U] by (auto split: if_splits)
  note opp = find_opponent_Some [OF chess_invD(1) [OF i1]]
  have some: "ConnMap s1 k \<noteq> None"
  proof (cases "find_opponent ro k s1")
    case (Some j)
    with opp start_game_inv [OF i1] r1 show ?thesis by fastforce
  qed (use r1 in \<open>auto simp: rbind_eq_Inr\<close>)
  have none: "ccState cc = ConnStateNone"
  proof (rule ccontr)
    assume "ccState cc \<noteq> ConnStateNone"
    with s1 have "force_close K U q s = Inr s1" by simp
    from force_close_inv(2) [OF inv U this q] some show False by simp
  qed
  with s1 have "s1 = s" by simp
  have "keeps s s'"
  proof (cases "find_opponent ro k s")
    case (Some j)
    with opp start_game_inv [OF inv] r1 cc none \<open>s1 = s\<close> show ?thesis by fastforce
  next
    case None
    let ?cc = "cc\<lparr>ccState := ConnStateMatching\<rparr>"
    have sent: "send_packet K U q (Marshal_ServerMatching zero_header) (upd_cc k ?cc s) = Inr s'"
      using r1 None cc \<open>s1 = s\<close> by (simp add: deref_cc_def)
    note others = find_opponent_None [OF i(1) ro None]
    have "conns_fine {} (upd_cc k ?cc s)" by (rule conns_fine_upd_cc [OF i(1) cc]) simp_all
    moreover have "games_ok ((ConnMap s)(k \<mapsto> ?cc)) (games s) (nextGame s)"
      by (rule games_ok_upd [OF i(2) cc]) (use games_ok_idle [OF i(2) cc] none in simp_all)
    moreover have "one_waits ((ConnMap s)(k \<mapsto> ?cc))" by (rule one_waits_upd [OF i(3)]) (use others in blast)
    ultimately have "chess_inv {} (upd_cc k ?cc s)" by (simp add: chess_inv_def)
    from send_inv [OF this sent] show ?thesis by (simp add: same_app_def)
  qed
  with cc none show ?thesis by blast
qed

text \<open>A move: refused ones leave the game alone, a move that goes on passes the turn, and one that takes the
  general ends the game for both players.\<close>

lemma move_stored:
  assumes "chess_inv {} s" "games s a = Some g" "reachable_table t" "TurnNow g' \<in> {GameSideRed, GameSideBlack}"
    "RedConnID g' = RedConnID g" "BlackConnID g' = BlackConnID g" "RedConnID g \<noteq> BlackConnID g" "gTable g' = t"
  shows "chess_inv {} (upd_game a g' s)"
proof -
  have "game_ok g'" using assms by (auto simp: game_ok_def)
  with games_ok_store [OF chess_invD(2) [OF assms(1)] assms(2)] assms(1,5,6) show ?thesis
    by (simp add: chess_inv_def)
qed

lemma move_won:
  assumes inv: "chess_inv {} s" and k: "ConnMap s k = Some cc" "Gcontext cc = Some a" "games s a = Some g"
    and two: "k = RedConnID g \<and> r = BlackConnID g \<or> k = BlackConnID g \<and> r = RedConnID g"
    and r: "ConnMap s r = Some rc" "r \<noteq> k"
  shows "chess_inv {} (upd_cc r (rc\<lparr>ccState := ConnStateNone, Gcontext := None\<rparr>)
      (upd_cc k (cc\<lparr>ccState := ConnStateNone, Gcontext := None\<rparr>) (upd_game a g' s)))"
    (is "chess_inv {} (upd_cc r ?rc (upd_cc k ?cc (upd_game a g' s)))")
proof -
  note i = chess_invD [OF inv]
  let ?m = "(ConnMap s)(k \<mapsto> ?cc, r \<mapsto> ?rc)"
  have "conns_fine {} (upd_cc k ?cc (upd_game a g' s))" by (rule conns_fine_upd_cc [where cc = cc]) (use i(1) k(1) in simp_all)
  then have "conns_fine {} (upd_cc r ?rc (upd_cc k ?cc (upd_game a g' s)))"
    by (rule conns_fine_upd_cc [where cc = rc]) (use r in simp_all)
  moreover have e: "games_ok ?m (games s) (nextGame s)"
    by (rule games_ok_end [OF i(2) k two]) simp_all
  have "\<not> plays ?m j a" for j
  proof
    assume "plays ?m j a"
    then have j: "j \<noteq> k" "j \<noteq> r" "plays (ConnMap s) j a" by (auto simp: plays_def split: if_splits)
    then obtain c where c: "ConnMap s j = Some c" "Gcontext c = Some a" by (auto simp: plays_def)
    from games_okD [OF i(2) c] k(3) two j show False by (metis option.inject)
  qed
  then have "games_ok ?m ((games s)(a \<mapsto> g')) (nextGame s)" by (rule games_ok_free [OF e])
  moreover have "one_waits ?m" by (intro one_waits_upd i(3)) simp_all
  ultimately show ?thesis by (simp add: chess_inv_def)
qed

lemma keeps_send:
  "chess_inv {} t \<Longrightarrow> AtomicIDIncrease t = AtomicIDIncrease s \<Longrightarrow> send_packet K U q body t = Inr s' \<Longrightarrow> keeps s s'"
  using send_inv [of "{}" t K U q body s'] by (simp add: same_app_def)

lemma move_reachable:
  assumes "reachable_table t" "DoMove side t fx fy tx ty = Inr (t', over, ok)" "\<not> ok \<or> \<not> over"
  shows "reachable_table t'"
proof (cases ok)
  case True
  then show ?thesis using move_table [OF assms(1)] assms(2,3) by simp
next
  case False
  have "length t = 90" using reachable_ok [OF assms(1)] by (simp add: board_ok_def)
  with False DoMove_refused [of t side fx fy tx ty t' over] assms(1,2) show ?thesis by simp
qed

lemma move_result_inv:
  assumes inv: "chess_inv {} s" and k: "ConnMap s k = Some cc" "Gcontext cc = Some a" "games s a = Some g"
    and two: "k = RedConnID g \<and> r = BlackConnID g \<or> k = BlackConnID g \<and> r = RedConnID g" and rk: "r \<noteq> k"
    and g: "game_ok g" and m: "DoMove side (gTable g) fx fy tx ty = Inr (table, over, ok)"
    and rside: "rside = GameSideRed \<or> rside = GameSideBlack"
    and c: "(if \<not> ok then send_packet K U q (move_failed msg) (upd_game a (g\<lparr>gTable := table\<rparr>) s)
      else if \<not> over then
        rbind (deref_cc r (upd_game a (g\<lparr>gTable := table\<rparr>) s)) (\<lambda>rc.
        rbind (send_packet K U (ccConn rc) notify (upd_game a (g\<lparr>gTable := table\<rparr>) s)) (\<lambda>s2.
          send_packet K U q resp (upd_game a (g\<lparr>gTable := table, TurnNow := rside\<rparr>) s2)))
      else
        rbind (deref_cc r (upd_cc k (cc\<lparr>ccState := ConnStateNone, Gcontext := None\<rparr>) (upd_game a (g\<lparr>gTable := table\<rparr>) s)))
          (\<lambda>rc. send_packet K U (ccConn rc) won (upd_cc r (rc\<lparr>ccState := ConnStateNone, Gcontext := None\<rparr>)
             (upd_cc k (cc\<lparr>ccState := ConnStateNone, Gcontext := None\<rparr>) (upd_game a (g\<lparr>gTable := table\<rparr>) s))))) = Inr s'"
  shows "keeps s s'"
proof -
  let ?s1 = "upd_game a (g\<lparr>gTable := table\<rparr>) s"
  have ne: "RedConnID g \<noteq> BlackConnID g" using g by (simp add: game_ok_def)
  have reach: "reachable_table table" if "\<not> ok \<or> \<not> over" using g move_reachable [OF _ m that] by (simp add: game_ok_def)
  have s1: "chess_inv {} ?s1" if "\<not> ok \<or> \<not> over"
    by (rule move_stored [OF inv k(3) reach [OF that]]) (use g in \<open>auto simp: game_ok_def\<close>)
  consider "\<not> ok" | "ok" "\<not> over" | "ok" over by blast
  then show ?thesis
  proof cases
    case 1
    with c show ?thesis by (intro keeps_send [OF s1]) simp_all
  next
    case 2
    with c obtain q2 s2 where s2: "send_packet K U q2 notify ?s1 = Inr s2"
        and sent: "send_packet K U q resp (upd_game a (g\<lparr>gTable := table, TurnNow := rside\<rparr>) s2) = Inr s'"
      by (auto simp: rbind_eq_Inr)
    have i1: "chess_inv {} ?s1" using s1 2 by blast
    note i2 = send_inv [OF i1 s2]
    have "chess_inv {} (upd_game a (g\<lparr>gTable := table, TurnNow := rside\<rparr>) s2)"
      using ne same_appD(3) [OF i2(2)] reach 2 rside
      by (intro move_stored [OF i2(1), where g = "g\<lparr>gTable := table\<rparr>"]) auto
    from keeps_send [OF this _ sent] same_appD(2) [OF i2(2)] show ?thesis by simp
  next
    case 3
    with c obtain rc where rc: "ConnMap s r = Some rc"
      and sent: "send_packet K U (ccConn rc) won (upd_cc r (rc\<lparr>ccState := ConnStateNone, Gcontext := None\<rparr>)
        (upd_cc k (cc\<lparr>ccState := ConnStateNone, Gcontext := None\<rparr>) ?s1)) = Inr s'"
      using rk by (auto simp: rbind_eq_Inr)
    show ?thesis by (rule keeps_send [OF move_won [OF inv k two rc rk] _ sent]) simp
  qed
qed

lemma on_move_inv:
  assumes inv: "chess_inv {} s" and U: "closes K U"
    and r: "on_move K U q k packet s = Inr s'"
  shows "keeps s s' \<and> (\<exists>cc a. ConnMap s k = Some cc \<and> Gcontext cc = Some a)"
proof -
  note i = chess_invD [OF inv]
  obtain cc a g where k: "ConnMap s k = Some cc" "Gcontext cc = Some a" "games s a = Some g"
    using r unfolding on_move_def rbind_eq_Inr by (auto simp: Let_def split: prod.splits)
  have d: "deref_cc k s = Inr cc" "deref_game (Gcontext cc) s = Inr (a, g)" using k by simp_all
  define side where "side = (if BlackConnID g = k then GameSideBlack else GameSideRed)"
  define rside where "rside = (if BlackConnID g = k then GameSideRed else GameSideBlack)"
  define rem where "rem = (if BlackConnID g = k then RedConnID g else BlackConnID g)"
  obtain rk: "rem \<noteq> k" and two: "k = RedConnID g \<and> rem = BlackConnID g \<or> k = BlackConnID g \<and> rem = RedConnID g"
      and g: "game_ok g"
    by (rule opponent [OF i(2) k, of rem]) (auto simp: rem_def)
  note b = r [unfolded on_move_def d rbind.simps Let_def prod.case, folded side_def rside_def rem_def]
  have "keeps s s'"
  proof (cases "ccState cc \<noteq> ConnStateGaming \<or> TurnNow g \<noteq> side")
    case True
    then show ?thesis using b force_close_inv(1) [OF inv U] keeps_send [OF inv refl] by (auto split: if_splits)
  next
    case False
    with b obtain table over ok where m: "DoMove side (gTable g) (FromX packet) (FromY packet) (ToX packet) (ToY packet)
        = Inr (table, over, ok)" by (auto simp: rbind_eq_Inr)
    have n: "\<not> ccState cc \<noteq> ConnStateGaming" "\<not> TurnNow g \<noteq> side" using False by simp_all
    note c = b [unfolded m rbind.simps prod.case if_not_P [OF n(1)] if_not_P [OF n(2)]]
    show ?thesis by (rule move_result_inv [OF inv k two rk g m _ c]) (simp add: rside_def)
  qed
  with k show ?thesis by blast
qed

lemma OnMessage_inv:
  assumes inv: "chess_inv {} s" and U: "closes K U" and ro: "range_documented ro" and r: "OnMessage K U ro q s = Inr s'"
  shows "keeps s s'"
proof -
  obtain k tc bs x where k: "conn_id q s = Inr k" and tc: "conns s q = Some tc"
      and x: "IsBytesCompleteWith4BytesHeader bs = Inr x" "Peek (inputBuffer tc) = Inr bs"
    using r by (auto simp: OnMessage_def rbind_eq_Inr)
  show ?thesis
  proof (cases x)
    case None
    with r k tc x show ?thesis using inv by (simp add: OnMessage_def)
  next
    case (Some packetBytes)
    with r k tc x obtain buf where
      b: "(case ServerParse packetBytes of None \<Rightarrow> force_close K U q (upd_conn q (tc\<lparr>inputBuffer := buf\<rparr>) s)
        | Some (PacketHeartbeat h) \<Rightarrow> on_heartbeat k (upd_conn q (tc\<lparr>inputBuffer := buf\<rparr>) s)
        | Some (PacketClientStartMatch h) \<Rightarrow> on_start_match K U ro q k (upd_conn q (tc\<lparr>inputBuffer := buf\<rparr>) s)
        | Some (PClientMove packet) \<Rightarrow> on_move K U q k packet (upd_conn q (tc\<lparr>inputBuffer := buf\<rparr>) s)
        | Some p \<Rightarrow> Inr (upd_conn q (tc\<lparr>inputBuffer := buf\<rparr>) s)) = Inr s'"
      by (auto simp: OnMessage_def rbind_eq_Inr Let_def)
    let ?s1 = "upd_conn q (tc\<lparr>inputBuffer := buf\<rparr>) s"
    have i1: "chess_inv {} ?s1"
      by (rule chess_inv_same [OF inv same_upd_conn(1) [OF tc] same_upd_conn(2)]) (simp add: cproj_def)
    have k1: "conn_id q ?s1 = Inr k" using k tc by (auto simp: conn_id_Inr)
    have beat: "keeps ?s1 s'" if "on_heartbeat k ?s1 = Inr s'"
      using that lose_count_inv [OF i1] by (auto simp: on_heartbeat_def rbind_eq_Inr)
    have "AtomicIDIncrease ?s1 = AtomicIDIncrease s" by (simp add: upd_conn_def)
    moreover have "keeps ?s1 s'"
      using b beat force_close_inv(1) [OF i1 U] on_start_match_inv [OF i1 U ro k1] on_move_inv [OF i1 U] i1
      by (auto split: option.splits packet.splits)
    ultimately show ?thesis by simp
  qed
qed

lemma OnTimeout_inv:
  assumes inv: "chess_inv {} s" and U: "closes K U" and r: "OnTimeout K U ro s = Inr s'"
  shows "keeps s s'"
proof (rule rfold_invariant [OF r [unfolded OnTimeout_def]])
  show "keeps s s" using inv by simp
  fix k t u assume t: "keeps s t" and b: "beat K U k t = Inr u"
  show "keeps s u"
  proof (cases "ConnMap t k")
    case (Some cc)
    with b obtain s1 cc1 where s1: "send_packet K U (ccConn cc) (Marshal_Heartbeat zero_header) t = Inr s1"
        and cc1: "ConnMap s1 k = Some cc1"
        and u: "force_close K U (ccConn cc1) (upd_cc k (cc1\<lparr>LoseHertbeatCount := LoseHertbeatCount cc1 + 1\<rparr>) s1) = Inr u
          \<or> u = upd_cc k (cc1\<lparr>LoseHertbeatCount := LoseHertbeatCount cc1 + 1\<rparr>) s1"
      by (auto simp: beat_def rbind_eq_Inr Let_def split: if_splits)
    have "keeps s s1" by (rule keeps_send [OF _ _ s1]) (use t in simp_all)
    then have "keeps s (upd_cc k (cc1\<lparr>LoseHertbeatCount := LoseHertbeatCount cc1 + 1\<rparr>) s1)"
      using lose_count_inv [OF _ cc1] by simp
    with u show ?thesis using force_close_inv(1) [OF _ U] by auto
  qed (use b t in \<open>simp add: beat_def\<close>)
qed

end
