(* ===== verification/Chess_Server.thy ===== *)
theory Chess_Server
  imports Chess_Game
begin

text \<open>
  The chess server as a whole: runs of events, from the start of the program. Accepting a
  connection, reading and writing keep the invariant of \<^verbatim>\<open>Chess_Game\<close>, and callbacks nest at most two deep.
\<close>

section \<open>Connections that arrive\<close>

lemma sint_Suc:
  fixes x :: "32 word"
  assumes "sint x < 2 ^ 31 - 1"
  shows "sint (x + 1) = sint x + 1"
proof -
  have "- (2 ^ 31) \<le> sint x" using sint_ge [of x] by simp
  with assms show ?thesis by (simp add: sint_word_ariths signed_take_bit_int_eq_self)
qed

lemma OnConnect_effect:
  assumes "conns s q = Some tc" "OnConnect q s = Inr s'"
  shows "conns s' = (conns s)(q \<mapsto> tc\<lparr>disconnectedCallback := Some (UserCb OnCloseF),
      conn_ctx := ctx_Set ''conn_id'' (Some (IntVal (sint (AtomicIDIncrease s + 1)))) (conn_ctx tc)\<rparr>)"
    "ConnMap s' = (ConnMap s)(sint (AtomicIDIncrease s + 1) \<mapsto> \<lparr>ccID = sint (AtomicIDIncrease s + 1),
       LoseHertbeatCount = 0, ccConn = q, ccState = ConnStateNone, Gcontext = None\<rparr>)"
    "AtomicIDIncrease s' = AtomicIDIncrease s + 1" "games s' = games s" "nextGame s' = nextGame s"
    "running s' = running s" "nextConn s' = nextConn s"
  using assms by (auto simp: OnConnect_def Let_def conn_SetContext_def SetDisConnectedCallback_def set_conn_def
      rbind_eq_Inr upd_cc_def upd_conn_def)

lemma ctx_Get_Set [simp]: "ctx_Get key (ctx_Set key v c) = (v, True)"
  by (simp add: ctx_Get_def ctx_Set_def Let_def)

lemma conns_fine_arrive:
  assumes fine: "conns_fine {} s" and id: "sint (AtomicIDIncrease s') = sint (AtomicIDIncrease s) + 1"
      "k = sint (AtomicIDIncrease s')"
    and s': "conns s' = (conns s)(nextConn s \<mapsto> tc)" "ConnMap s' = (ConnMap s)(k \<mapsto> cc)" "running s' = running s"
      "nextConn s' = nextConn s + 1"
    and tc: "tstate tc = Connected" "ctx_Get ''conn_id'' (conn_ctx tc) = (Some (IntVal k), True)"
      "connectedCallback tc = Some (UserCb OnConnectF)" "messageCallback tc = Some (UserCb OnMessageF)"
      "highWaterCallback tc = Some DefaultCb" "writeCompleteCallback tc = Some DefaultCb"
      "disconnectedCallback tc = Some (UserCb OnCloseF)"
    and cc: "ccID cc = k" "ccConn cc = nextConn s"
  shows "conns_fine {} s'" "ConnMap s k = None"
proof -
  note d = conns_fineD [OF fine]
  have le: "j \<le> sint (AtomicIDIncrease s)" if "conn_id q s = Inr j" for q j
    using that d(4) unfolding conn_id_Inr conn_fine_def by blast
  show none: "ConnMap s k = None"
  proof (rule ccontr)
    assume "ConnMap s k \<noteq> None"
    then obtain c where "ConnMap s k = Some c" by blast
    from le [OF conn_of_entry [OF fine this]] id show False by simp
  qed
  show "conns_fine {} s'"
  proof (rule conns_fineI)
    show "running s' = 1" "finite (dom (ConnMap s'))" using d(1,2) s'(2,3) by simp_all
    show "conns s' q = None" if "nextConn s' \<le> q" for q using d(3) that s'(1,4) by simp
  next
    fix q td assume q: "conns s' q = Some td"
    show "conn_fine s' q td \<and> tstate td \<noteq> Disconnecting
        \<and> (tstate td = Connected \<longrightarrow> (\<exists>j c. ConnMap s' j = Some c \<and> ccConn c = q))"
    proof (cases "q = nextConn s")
      case True
      then have "td = tc" using q s'(1) by simp
      with True tc cc id s'(2) show ?thesis by (auto simp: conn_fine_def)
    next
      case False
      then have q: "conns s q = Some td" using q s'(1) by simp
      have "conn_fine s' q td"
        using d(4) [OF q] le [of q] q id s'(2) unfolding conn_fine_def conn_id_Inr by fastforce
      moreover have "\<exists>j c. ConnMap s' j = Some c \<and> ccConn c = q" if "tstate td = Connected"
        using d(6) [OF q that] none s'(2) by (metis fun_upd_other option.distinct(1))
      ultimately show ?thesis using d(5) [OF q] by blast
    qed
  next
    fix j c assume j: "ConnMap s' j = Some c"
    show "entry_fine {} s' j c"
    proof (cases "j = k")
      case True
      then show ?thesis using j s'(1,2) tc cc by (auto simp: entry_fine_def)
    next
      case False
      then have "entry_fine {} s j c" using d(7) j s'(2) by simp
      moreover have "ccConn c \<noteq> nextConn s" using calculation d(3) [of "nextConn s"] by (auto simp: entry_fine_def)
      ultimately show ?thesis using s'(1) unfolding entry_fine_def by simp
    qed
  qed
qed

lemma accept_new:
  assumes "running s = 1"
  obtains s3 tc c where "\<forall>U. accept_conn K U f peer s = establishConn K U (nextConn s) s3" "conns s3 = (conns s)(nextConn s \<mapsto> tc)"
    "ConnMap s3 = ConnMap s" "AtomicIDIncrease s3 = AtomicIDIncrease s" "games s3 = games s" "nextGame s3 = nextGame s"
    "running s3 = 1" "nextConn s3 = nextConn s + 1" "conn_ctx tc = NewContext"
    "connectedCallback tc = Some (UserCb OnConnectF)" "messageCallback tc = Some (UserCb OnMessageF)"
    "highWaterCallback tc = Some DefaultCb" "writeCompleteCallback tc = Some DefaultCb"
    "hist s3 = hist s" "chans s3 = (chans s)(nextPtr s \<mapsto> c)" "fd c = f" "socketChannel tc = nextPtr s"
    "outputBuffer tc = NewBuffer"
proof -
  obtain q s1 where n: "newConnection f peer s = (q, s1)" by (cases "newConnection f peer s") auto
  then obtain tc0 c where q: "q = nextConn s"
      and s1: "s1 = upd_conn q tc0 (upd_chan (nextPtr s) c (s\<lparr>nextConn := q + 1, nextPtr := nextPtr s + 1\<rparr>))"
      "conn_ctx tc0 = NewContext" "highWaterCallback tc0 = Some DefaultCb" "writeCompleteCallback tc0 = Some DefaultCb"
      "fd c = f" "socketChannel tc0 = nextPtr s" "outputBuffer tc0 = NewBuffer"
    by (auto simp: newConnection_def alloc_chan_def Let_def channel_ops)
  define tc where "tc = tc0\<lparr>connectedCallback := Some (UserCb OnConnectF), messageCallback := Some (UserCb OnMessageF)\<rparr>"
  let ?s3 = "upd_conn q tc s1"
  have u: "upd_conn q y (upd_conn q x t) = upd_conn q y t" for x y and t :: chess_world by (simp add: upd_conn_def)
  have c3: "conns s1 q = Some tc0" using s1(1) by simp
  have g: "gid ?s3 = gid s1" "running s1 = 1" using s1(1) assms by (simp_all add: upd_conn_def upd_chan_def)
  have "accept_conn K U f peer s = establishConn K U q ?s3" for U
    using c3 g unfolding accept_conn_def n prod.case
    by (simp add: setConnectedCallback_def setMessageCallback_def set_conn_def u tc_def RunInLoop_def run_functor_def
        run_conn_def) (simp add: upd_conn_def RunInLoop_def run_functor_def run_conn_def)
  then show thesis
    using q s1 assms by (intro that [of ?s3 tc c]) (simp_all add: tc_def upd_conn_def upd_chan_def)
qed

text \<open>What happens up to the call of \<^verbatim>\<open>OnConnect\<close>.\<close>

lemma accept_steps:
  assumes "running s = 1" and r: "accept_conn K (chess_user K ro n) f peer s = Inr s'"
  obtains s3 s4 tc c where "UpdateChannel K (nextPtr s) (upd_conn (nextConn s) (tc\<lparr>tstate := Connected\<rparr>) s3) = Inr s4"
    "OnConnect (nextConn s) s4 = Inr s'" "conns s4 = (conns s)(nextConn s \<mapsto> tc\<lparr>tstate := Connected\<rparr>)"
    "ConnMap s4 = ConnMap s" "AtomicIDIncrease s4 = AtomicIDIncrease s" "games s4 = games s" "nextGame s4 = nextGame s"
    "running s4 = running s" "nextConn s4 = nextConn s + 1"
    "conn_ctx tc = NewContext" "connectedCallback tc = Some (UserCb OnConnectF)" "messageCallback tc = Some (UserCb OnMessageF)"
    "highWaterCallback tc = Some DefaultCb" "writeCompleteCallback tc = Some DefaultCb" "outputBuffer tc = NewBuffer"
    "socketChannel tc = nextPtr s" "hist s3 = hist s" "chans s3 = (chans s)(nextPtr s \<mapsto> c)" "fd c = f"
proof -
  let ?q = "nextConn s"
  obtain s3 tc c where acc: "\<forall>U. accept_conn K U f peer s = establishConn K U ?q s3" and s3: "conns s3 = (conns s)(?q \<mapsto> tc)"
    "ConnMap s3 = ConnMap s" "AtomicIDIncrease s3 = AtomicIDIncrease s" "games s3 = games s" "nextGame s3 = nextGame s"
    "running s3 = 1" "nextConn s3 = nextConn s + 1" and tc: "conn_ctx tc = NewContext"
    "connectedCallback tc = Some (UserCb OnConnectF)" "messageCallback tc = Some (UserCb OnMessageF)"
    "highWaterCallback tc = Some DefaultCb" "writeCompleteCallback tc = Some DefaultCb" "outputBuffer tc = NewBuffer"
    "socketChannel tc = nextPtr s" and ch: "hist s3 = hist s" "chans s3 = (chans s)(nextPtr s \<mapsto> c)" "fd c = f"
    by (rule accept_new [OF assms(1), where K = K and f = f and peer = peer]) blast
  have e: "establishConn K (chess_user K ro n) ?q s3 = Inr s'" using r acc by simp
  obtain s4 where s4: "UpdateChannel K (nextPtr s) (upd_conn ?q (tc\<lparr>tstate := Connected\<rparr>) s3) = Inr s4"
      and cb: "chess_user K ro n OnConnectF (ArgConnected ?q) s4 = Inr s'"
    using e s3(1) tc(2,7) by (auto simp: establishConn_def rbind_eq_Inr call_back_def split: if_splits)
  have c: "OnConnect ?q s4 = Inr s'" using cb by (cases n) simp_all
  note same = same_trans(2) [OF same_upd_conn(2) UpdateChannel_same(2) [OF s4]]
  have c4: "conns s4 = (conns s)(?q \<mapsto> tc\<lparr>tstate := Connected\<rparr>)" using UpdateChannel_same(3) [OF s4] s3(1) by simp
  have "ConnMap s4 = ConnMap s" "AtomicIDIncrease s4 = AtomicIDIncrease s" "games s4 = games s"
      "nextGame s4 = nextGame s" "running s4 = running s" "nextConn s4 = nextConn s + 1"
    using same s3 assms(1) by (simp_all add: same_app_def)
  from that [OF s4 c c4 this tc ch] show thesis .
qed

lemma accept_inv:
  assumes inv: "chess_inv {} s" and id: "sint (AtomicIDIncrease s) < 2 ^ 31 - 1"
    and r: "accept_conn K (chess_user K ro n) f peer s = Inr s'"
  shows "chess_inv {} s'" "AtomicIDIncrease s' = AtomicIDIncrease s + 1"
    "ConnMap s' = (ConnMap s)(sint (AtomicIDIncrease s) + 1 \<mapsto> \<lparr>ccID = sint (AtomicIDIncrease s) + 1,
       LoseHertbeatCount = 0, ccConn = nextConn s, ccState = ConnStateNone, Gcontext = None\<rparr>)"
proof -
  note i = chess_invD [OF inv]
  let ?q = "nextConn s"
  obtain s4 tc where c: "OnConnect ?q s4 = Inr s'" and c4: "conns s4 = (conns s)(?q \<mapsto> tc\<lparr>tstate := Connected\<rparr>)" and
    f4: "ConnMap s4 = ConnMap s" "AtomicIDIncrease s4 = AtomicIDIncrease s" "games s4 = games s" "nextGame s4 = nextGame s"
      "running s4 = running s" "nextConn s4 = nextConn s + 1"
    and tc: "conn_ctx tc = NewContext" "connectedCallback tc = Some (UserCb OnConnectF)" "messageCallback tc = Some (UserCb OnMessageF)"
      "highWaterCallback tc = Some DefaultCb" "writeCompleteCallback tc = Some DefaultCb"
    by (rule accept_steps [OF conns_fineD(1) [OF i(1)] r]) blast
  have "conns s4 ?q = Some (tc\<lparr>tstate := Connected\<rparr>)" using c4 by simp
  note eff = OnConnect_effect [OF this c, unfolded f4]
  let ?k = "sint (AtomicIDIncrease s + 1)"
  have fine: "conns_fine {} s'" "ConnMap s ?k = None"
    using conns_fine_arrive [OF i(1) _ refl, of s', unfolded eff(3), OF sint_Suc [OF id] eff(1) [unfolded c4 fun_upd_upd] eff(2,6,7)]
      tc by simp_all
  show "chess_inv {} s'" unfolding chess_inv_def eff(2,4,5)
    by (intro conjI fine games_ok_insert [OF i(2) fine(2)] one_waits_upd [OF i(3)]) simp_all
  show "AtomicIDIncrease s' = AtomicIDIncrease s + 1" by (rule eff(3))
  show "ConnMap s' = (ConnMap s)(sint (AtomicIDIncrease s) + 1 \<mapsto> \<lparr>ccID = sint (AtomicIDIncrease s) + 1,
       LoseHertbeatCount = 0, ccConn = nextConn s, ccState = ConnStateNone, Gcontext = None\<rparr>)"
    using eff(2) sint_Suc [OF id] by simp
qed

section \<open>Events\<close>

lemma handleRead_same:
  fixes s :: chess_world
  assumes "conns s q = Some tc" "chans s (socketChannel tc) = Some c"
  obtains e where "\<And>U. handleRead K U q s = Inl e"
  | s2 b where "same_conns s s2" "same_app s s2" "\<And>U. handleRead K U q s =
      (if b then call_back U (messageCallback tc) (ArgMessage q) s2 else handleClose K U q s2)"
      "chans s2 = chans s" "\<exists>b. conns s2 = (conns s)(q \<mapsto> tc\<lparr>inputBuffer := b\<rparr>)"
      "hist s2 = hist s \<or> (\<exists>f n r. hist s2 = hist s @ [SysReadv f n r])"
proof -
  let ?w = "int (length (data (inputBuffer tc))) - writeIndex (inputBuffer tc)"
  let ?n = "nat (?w + int (length (extraForReadFD s)))"
  let ?rv = "k_readv K (hist s) (fd c) ?n"
  show thesis
  proof (cases "ReadFD ?rv (extraForReadFD s) (inputBuffer tc)")
    case (Inl e)
    with assms that(1) show thesis by (simp add: handleRead_def Let_def)
  next
    case (Inr r)
    obtain n1 b x where r: "r = (n1, b, x)" by (cases r) auto
    let ?s1 = "upd_conn q (tc\<lparr>inputBuffer := b\<rparr>) (s\<lparr>extraForReadFD := x\<rparr>)"
    let ?s2 = "if ?w = 0 then ?s1 else log_sys (SysReadv (fd c) ?n ?rv) ?s1"
    have "same_conns s ?s1" "same_app s ?s1"
      using assms(1) by (auto simp: same_conns_def same_app_def upd_conn_def cproj_def)
    then have "same_conns s ?s2" "same_app s ?s2" using same_trans [of s ?s1] same_log by auto
    moreover have "handleRead K U q s =
        (if n1 > 0 then call_back U (messageCallback tc) (ArgMessage q) ?s2 else handleClose K U q ?s2)" for U
      using assms Inr r by (simp add: handleRead_def Let_def)
    moreover have "chans ?s2 = chans s" "\<exists>b. conns ?s2 = (conns s)(q \<mapsto> tc\<lparr>inputBuffer := b\<rparr>)"
      "hist ?s2 = hist s \<or> (\<exists>f n r. hist ?s2 = hist s @ [SysReadv f n r])"
      by (auto simp: upd_conn_def log_sys_def)
    ultimately show thesis by (rule that(2))
  qed
qed

lemma handleRead_inv:
  assumes inv: "chess_inv {} s" and ro: "range_documented ro" and r: "handleRead K (chess_user K ro n) q s = Inr s'"
  shows "keeps s s'"
proof -
  let ?U = "chess_user K ro n"
  obtain tc c where tc: "conns s q = Some tc" "chans s (socketChannel tc) = Some c"
    using r by (auto simp: handleRead_def rbind_eq_Inr)
  have m: "messageCallback tc = Some (UserCb OnMessageF)"
    using conns_fineD(4) [OF chess_invD(1) [OF inv] tc(1)] by (simp add: conn_fine_def)
  obtain s2 where s2: "same_conns s s2" "same_app s s2"
      and k: "call_back ?U (messageCallback tc) (ArgMessage q) s2 = Inr s' \<or> handleClose K ?U q s2 = Inr s'"
    by (rule handleRead_same [OF tc, of K]) (use r in \<open>auto split: if_splits\<close>)
  have i2: "chess_inv {} s2" by (rule chess_inv_same [OF inv s2])
  from k have "keeps s2 s'"
  proof
    assume "call_back ?U (messageCallback tc) (ArgMessage q) s2 = Inr s'"
    then have "?U OnMessageF (ArgMessage q) s2 = Inr s'" using m by (simp add: call_back_def)
    then obtain j where "OnMessage K (chess_user K ro j) ro q s2 = Inr s'" by (cases n) auto
    then show ?thesis by (rule OnMessage_inv [OF i2 chess_user_closes ro])
  qed (use handleClose_inv [OF i2 chess_user_closes] in blast)
  with same_appD(2) [OF s2(2)] show ?thesis by simp
qed

lemma handleWrite_same:
  assumes inv: "chess_inv {} s" and r: "handleWrite K U q s = Inr s'"
  shows "same_conns s s' \<and> same_app s s'"
proof -
  obtain tc c bs buf where tc: "conns s q = Some tc" "chans s (socketChannel tc) = Some c" "Peek (outputBuffer tc) = Inr bs"
      "Retrieve (case k_write K (hist s) (fd c) bs of Inl e \<Rightarrow> - 1 | Inr m \<Rightarrow> int m) (outputBuffer tc) = Inr buf"
    using r by (auto simp: handleWrite_def rbind_eq_Inr Let_def)
  let ?s2 = "upd_conn q (tc\<lparr>outputBuffer := buf\<rparr>) (log_sys (SysWrite (fd c) bs (k_write K (hist s) (fd c) bs)) s)"
  have w: "writeCompleteCallback tc = Some DefaultCb"
    using conns_fineD(4) [OF chess_invD(1) [OF inv] tc(1)] by (simp add: conn_fine_def)
  have s2: "same_conns s ?s2" "same_app s ?s2"
    using tc(1) by (auto simp: same_conns_def same_app_def upd_conn_def log_sys_def cproj_def)
  show ?thesis
  proof (cases "ReadableBytes buf = 0")
    case False
    with r tc have "s' = ?s2" by (simp add: handleWrite_def Let_def)
    with s2 show ?thesis by simp
  next
    case True
    with r tc w obtain s4 where s4: "UpdateChannel K (socketChannel tc) (upd_chan (socketChannel tc) (snd (DisableWrite c)) ?s2) = Inr s4"
        "s' = s4 \<or> s' = log_sys (SysShutdown (fd c)) s4"
      by (auto simp: handleWrite_def Let_def rbind_eq_Inr call_back_def default_callback_def split: if_splits)
    note u = UpdateChannel_same [OF s4(1)]
    have "same_conns s s4" "same_app s s4"
      using same_trans(1) [OF s2(1) same_trans(1) [OF same_upd_chan(1) u(1)]]
        same_trans(2) [OF s2(2) same_trans(2) [OF same_upd_chan(2) u(2)]] by simp_all
    with s4(2) show ?thesis using same_trans same_log by blast
  qed
qed

lemma handleWrite_inv: "chess_inv {} s \<Longrightarrow> handleWrite K U q s = Inr s' \<Longrightarrow> keeps s s'"
  using chess_inv_same handleWrite_same unfolding same_app_def by metis

lemma chess_event_inv:
  assumes "chess_inv {} s" "range_documented ro" "sint (AtomicIDIncrease s) < 2 ^ 31 - 1"
    "chess_event_step K ro n e s = Inr s'"
  shows "chess_inv {} s' \<and> sint (AtomicIDIncrease s') \<le> sint (AtomicIDIncrease s) + 1"
proof (cases e)
  case (EvAccept f peer)
  then have "accept_conn K (chess_user K ro n) f peer s = Inr s'" using assms(4) by (simp add: chess_event_step_def)
  from accept_inv [OF assms(1,3) this] sint_Suc [OF assms(3)] show ?thesis by simp
next
  case (EvRead q)
  then show ?thesis using handleRead_inv [OF assms(1,2)] assms(4) by (simp add: chess_event_step_def)
next
  case (EvWrite q)
  then show ?thesis using handleWrite_inv [OF assms(1)] assms(1,4) by (auto simp: chess_event_step_def split: if_splits)
next
  case EvTimeout
  then show ?thesis using OnTimeout_inv [OF assms(1) chess_user_closes] assms(4) by (simp add: chess_event_step_def)
qed

lemma chess_events_inv:
  assumes "rfold (chess_event_step K ro n) evs s = Inr s'" "chess_inv {} s" "world_inv {} s" "range_documented ro"
    "ctl_documented K" "sint (AtomicIDIncrease s) + int (length evs) \<le> 2 ^ 31 - 1"
  shows "chess_inv {} s' \<and> world_inv {} s' \<and> sint (AtomicIDIncrease s') \<le> sint (AtomicIDIncrease s) + int (length evs)"
  using assms
proof (induction evs arbitrary: s)
  case (Cons e evs)
  then obtain s1 where s1: "chess_event_step K ro n e s = Inr s1" "rfold (chess_event_step K ro n) evs s1 = Inr s'"
    by (auto simp: rbind_eq_Inr)
  have i: "chess_inv {} s1 \<and> sint (AtomicIDIncrease s1) \<le> sint (AtomicIDIncrease s) + 1"
    by (rule chess_event_inv [OF Cons.prems(2,4) _ s1(1)]) (use Cons.prems(6) in simp)
  moreover have "world_inv {} s1"
    using on_okD [OF chess_event_sound [OF Cons.prems(5,3)] s1(1)] by (simp add: sound_def)
  ultimately have "chess_inv {} s' \<and> world_inv {} s' \<and> sint (AtomicIDIncrease s') \<le> sint (AtomicIDIncrease s1) + int (length evs)"
    using Cons.prems by (intro Cons.IH [OF s1(2)]) simp_all
  with i show ?case by simp
qed simp

section \<open>How deep callbacks nest\<close>

text \<open>No connection has a high-water callback of its own, so \<^verbatim>\<open>Send\<close> calls no user code; only \<^verbatim>\<open>ForceClose\<close>
  does, and what it calls is \<^verbatim>\<open>OnClose\<close>, which only sends. Hence two levels are all that is ever used.\<close>

lemma send_indep: "conns_fine X s \<Longrightarrow> send_packet K U q body s = send_packet K V q body s"
proof -
  assume f: "conns_fine X s"
  have "send_in_loop K U q bs s = send_in_loop K V q bs s" for bs
  proof (cases "conns s q")
    case (Some tc)
    then have "highWaterCallback tc = Some DefaultCb" using conns_fineD(4) [OF f] by (simp add: conn_fine_def)
    then have "call_back W (highWaterCallback tc) a t = default_callback a t" for W a and t :: chess_world
      by (simp add: call_back_def)
    then show ?thesis by (simp add: send_in_loop_def Some cong: if_cong)
  qed (simp add: send_in_loop_def deref_conn_def)
  then show ?thesis using conns_fineD(1) [OF f]
    by (simp add: send_packet_def Send_def RunInLoop_def run_functor_def run_conn_def)
qed

lemma send_fine_again: "conns_fine X s \<Longrightarrow> send_packet K U q body s = Inr s' \<Longrightarrow> conns_fine X s'"
  using conns_fine_same send_fine by blast

lemma OnClose_indep:
  assumes "conns_fine X s"
  shows "OnClose K U q s = OnClose K V q s"
  unfolding OnClose_def Let_def prod.case_eq_if
  by (intro rbind_eqI refl if_cong send_indep [OF conns_fine_upd_cc [OF assms]]) auto

definition same_close :: "(chess_val, _) user \<Rightarrow> (chess_val, _) user \<Rightarrow> bool" where
  "same_close U V \<longleftrightarrow> (\<forall>X q s. conns_fine X s \<longrightarrow> U OnCloseF (ArgDisConnected q) s = V OnCloseF (ArgDisConnected q) s)"

lemma same_close_chess: "same_close (chess_user K ro (Suc m)) (chess_user K ro (Suc n))"
  using OnClose_indep by (auto simp: same_close_def)

lemma handleClose_indep:
  assumes "conns_fine {} s" "same_close U V"
  shows "handleClose K U q s = handleClose K V q s"
proof -
  have cb: "call_back U (disconnectedCallback tc2) (ArgDisConnected q) (log_sys e s1) =
      call_back V (disconnectedCallback tc2) (ArgDisConnected q) (log_sys e s1)"
    if tc: "deref_conn q s = Inr tc" "\<not> (tstate tc \<noteq> Disconnecting \<and> tstate tc \<noteq> Connected)"
      and s1: "RemoveChannel K (socketChannel tc) (upd_conn q (tc\<lparr>tstate := Disconnected\<rparr>) s) = Inr s1"
      and t2: "deref_conn q (log_sys e s1) = Inr tc2" for tc s1 e tc2
  proof -
    let ?s2 = "log_sys e s1"
    have q: "conns s q = Some tc" using tc(1) by simp
    have "tstate tc = Connected" using tc(2) conns_fineD(5) [OF assms(1) q] by blast
    then obtain k cc where k: "ConnMap s k = Some cc" "ccConn cc = q" using conns_fineD(6) [OF assms(1) q] by blast
    have c2: "conns ?s2 = (conns s)(q \<mapsto> tc\<lparr>tstate := Disconnected\<rparr>)" using RemoveChannel_same(1) [OF s1] by simp
    have "same_app s ?s2"
      by (rule same_trans(2) [OF same_upd_conn(2) same_trans(2) [OF RemoveChannel_same(2) [OF s1] same_log(2)]])
    then have "conns_fine {k} ?s2" using k q c2 by (intro conns_fine_close [OF assms(1) k(1)]) simp_all
    moreover have "tc2 = tc\<lparr>tstate := Disconnected\<rparr>" using t2 c2 by simp
    moreover have "disconnectedCallback tc = Some (UserCb OnCloseF)"
      by (rule entry_fineD [OF conns_fineD(7) [OF assms(1) k(1)]]) (use k(2) q in simp)
    ultimately show ?thesis using assms(2) by (simp add: call_back_def same_close_def)
  qed
  show ?thesis unfolding handleClose_def Let_def
    by (rule rbind_eqI [OF refl], rule if_cong [OF refl refl]) (intro rbind_eqI refl cb, assumption+)
qed

lemma force_close_indep:
  assumes "conns_fine {} s" "same_close U V"
  shows "force_close K U q s = force_close K V q s"
  using conns_fineD(1) [OF assms(1)] handleClose_indep [OF assms]
  by (simp add: force_close_def ForceClose_def RunInLoop_def run_functor_def run_conn_def forceclose_in_loop_def
      cong: if_cong)

lemma start_game_indep:
  assumes "conns_fine {} s"
  shows "start_game K U connID k s = start_game K V connID k s"
proof -
  have u: "conns_fine {} (upd_cc j (cc\<lparr>ccState := x, Gcontext := y\<rparr>) t)" if "conns_fine {} t" "deref_cc j t = Inr cc" for j cc x y t
    by (rule conns_fine_upd_cc [OF that(1)]) (use that(2) in simp_all)
  have g: "conns_fine {} (upd_cc k (v\<lparr>ccState := x, Gcontext := y\<rparr>) (upd_game a g (s\<lparr>nextGame := n\<rparr>)))"
    if "deref_cc k s = Inr v" for v x y a g n
    by (rule u) (use assms that in \<open>simp_all add: deref_cc_def\<close>)
  note f = send_fine_again
  show ?thesis unfolding start_game_def Let_def
    apply (rule rbind_eqI [OF refl], rule rbind_eqI [OF refl])
    apply (rule rbind_eqI [OF send_indep [OF g]], assumption)
    apply (rule rbind_eqI [OF send_indep [OF f [OF g]]], assumption+)
    apply (rule rbind_eqI [OF refl])
    apply (rule rbind_eqI [OF send_indep [OF u [OF f [OF f [OF g]]]]], assumption+)
    apply (rule rbind_eqI [OF refl])
    apply (rule send_indep [OF f [OF u [OF f [OF f [OF g]]]]], assumption+)
    done
qed

lemma on_start_match_indep:
  assumes inv: "chess_inv {} s" and U: "same_close U V" "closes K U"
  shows "on_start_match K U ro q k s = on_start_match K V ro q k s"
proof -
  have next_eq: "(case find_opponent ro k t of Some j \<Rightarrow> start_game K U k j t
        | None \<Rightarrow> rbind (deref_cc k t) (\<lambda>c. send_packet K U q b (upd_cc k (c\<lparr>ccState := ConnStateMatching\<rparr>) t))) =
      (case find_opponent ro k t of Some j \<Rightarrow> start_game K V k j t
        | None \<Rightarrow> rbind (deref_cc k t) (\<lambda>c. send_packet K V q b (upd_cc k (c\<lparr>ccState := ConnStateMatching\<rparr>) t)))"
    if f: "conns_fine {} t" for t b
  proof (cases "find_opponent ro k t")
    case None
    have "send_packet K U q b (upd_cc k (c\<lparr>ccState := ConnStateMatching\<rparr>) t) =
        send_packet K V q b (upd_cc k (c\<lparr>ccState := ConnStateMatching\<rparr>) t)" if "deref_cc k t = Inr c" for c
      by (rule send_indep [OF conns_fine_upd_cc [OF f]]) (use that in simp_all)
    with None show ?thesis by (auto intro: rbind_eqI)
  qed (use start_game_indep [OF f] in simp)
  have close: "(if b then force_close K U q s else Inr s) = (if b then force_close K V q s else Inr s)" for b
    using force_close_indep [OF chess_invD(1) [OF inv] U(1)] by simp
  have "conns_fine {} t" if "(if b then force_close K U q s else Inr s) = Inr t" for b t
    using that force_close_inv(1) [OF inv U(2)] inv chess_invD(1) by (auto split: if_splits)
  then show ?thesis unfolding on_start_match_def by (intro rbind_eqI refl close next_eq)
qed

lemma on_move_indep:
  assumes f: "conns_fine {} s" and U: "same_close U V"
  shows "on_move K U q k packet s = on_move K V q k packet s"
proof -
  have u: "conns_fine {} (upd_cc j (c\<lparr>ccState := x, Gcontext := y\<rparr>) t)" if "conns_fine {} t" "deref_cc j t = Inr c" for j c x y t
    by (rule conns_fine_upd_cc [OF that(1)]) (use that(2) in simp_all)
  have w: "conns_fine {} (upd_cc k (c\<lparr>ccState := x, Gcontext := y\<rparr>) (upd_game a g s))" if "deref_cc k s = Inr c" for c x y a g
    by (rule u) (use f that in \<open>simp_all add: deref_cc_def\<close>)
  have g: "conns_fine {} (upd_game a g' t)" if "conns_fine {} t" for a g' t using that by simp
  show ?thesis unfolding on_move_def Let_def prod.case_eq_if
    by (intro rbind_eqI refl if_cong send_indep [OF f] send_indep [OF g [OF f]] force_close_indep [OF f U]
        send_indep [OF g [OF send_fine_again [OF g [OF f]]]] send_indep [OF u [OF w]])
      assumption+
qed

lemma OnMessage_indep:
  assumes inv: "chess_inv {} s" and U: "same_close U V" "closes K U"
  shows "OnMessage K U ro q s = OnMessage K V ro q s"
proof -
  have i: "chess_inv {} (upd_conn q (tc\<lparr>inputBuffer := b\<rparr>) s)" if "deref_conn q s = Inr tc" for tc b
    using that by (intro chess_inv_same [OF inv same_upd_conn(1) same_upd_conn(2)]) (simp_all add: cproj_def)
  show ?thesis unfolding OnMessage_def Let_def
    by (intro rbind_eqI refl, intro option.case_cong refl rbind_eqI packet.case_cong)
      (simp_all add: i force_close_indep [OF chess_invD(1) [OF i] U(1)] on_start_match_indep [OF i U]
        on_move_indep [OF chess_invD(1) [OF i] U(1)])
qed

lemma OnTimeout_indep:
  assumes inv: "chess_inv {} s" and U: "same_close U V" "closes K U"
  shows "OnTimeout K U ro s = OnTimeout K V ro s"
  unfolding OnTimeout_def
proof (rule rfold_eqI [where P = "chess_inv {}"])
  fix k t assume i: "chess_inv {} t"
  have "chess_inv {} u" if "send_packet K U q b t = Inr u" for q b u by (rule send_inv(1) [OF i that])
  then have l: "conns_fine {} (upd_cc k (c\<lparr>LoseHertbeatCount := n\<rparr>) u)"
    if "send_packet K U q b t = Inr u" "deref_cc k u = Inr c" for q b u c n
    using lose_count_inv that by (metis chess_invD(1) deref_cc_Inr)
  show "beat K U k t = beat K V k t" unfolding beat_def Let_def
    by (intro option.case_cong refl rbind_eqI if_cong send_indep [OF chess_invD(1) [OF i]] force_close_indep [OF l U(1)])
      assumption+
next
  fix k t u assume "chess_inv {} t" "beat K U k t = Inr u"
  then have "OnTimeout K U (\<lambda>h m. [k]) t = Inr u" by (simp add: OnTimeout_def)
  from OnTimeout_inv [OF \<open>chess_inv {} t\<close> U(2) this] show "chess_inv {} u" by simp
qed (rule inv)

lemma handleRead_depth:
  assumes inv: "chess_inv {} s"
  shows "handleRead K (chess_user K ro (Suc (Suc m))) q s = handleRead K (chess_user K ro (Suc (Suc n))) q s"
proof (cases "\<exists>tc c. conns s q = Some tc \<and> chans s (socketChannel tc) = Some c")
  case True
  then obtain tc c where tc: "conns s q = Some tc" "chans s (socketChannel tc) = Some c" by blast
  have m: "messageCallback tc = Some (UserCb OnMessageF)"
    using conns_fineD(4) [OF chess_invD(1) [OF inv] tc(1)] by (simp add: conn_fine_def)
  show ?thesis
  proof (rule handleRead_same [OF tc, of K])
    fix s2 b assume s2: "same_conns s s2" "same_app s s2"
      and h: "\<And>U. handleRead K U q s = (if b then call_back U (messageCallback tc) (ArgMessage q) s2 else handleClose K U q s2)"
    have i2: "chess_inv {} s2" by (rule chess_inv_same [OF inv s2])
    show ?thesis unfolding h
      using OnMessage_indep [OF i2 same_close_chess chess_user_closes]
        handleClose_indep [OF chess_invD(1) [OF i2] same_close_chess] m
      by (simp add: call_back_def del: chess_user.simps) (simp add: chess_user.simps)
  qed simp
next
  case False
  then have "handleRead K U q s = Inl NilDeref" for U
    by (cases "conns s q"; cases "chans s (socketChannel (the (conns s q)))")
      (auto simp: handleRead_def deref_conn_def deref_chan_def)
  then show ?thesis by simp
qed

lemma handleWrite_indep:
  assumes "conns_fine {} s"
  shows "handleWrite K U q s = handleWrite K V q s"
proof (cases "conns s q")
  case (Some tc)
  then have "writeCompleteCallback tc = Some DefaultCb" using conns_fineD(4) [OF assms] by (simp add: conn_fine_def)
  then have "call_back W (writeCompleteCallback tc) a t = default_callback a t" for W a and t :: chess_world
    by (simp add: call_back_def)
  then show ?thesis by (simp add: handleWrite_def Some Let_def cong: if_cong)
qed (simp add: handleWrite_def deref_conn_def)

lemma chess_event_depth:
  assumes inv: "chess_inv {} s"
  shows "chess_event_step K ro (Suc (Suc m)) e s = chess_event_step K ro (Suc (Suc n)) e s"
proof (cases e)
  case EvTimeout
  then show ?thesis unfolding chess_event_step_def
    using OnTimeout_indep [OF inv same_close_chess chess_user_closes] by simp
next
  case (EvAccept f peer)
  obtain s3 tc where "\<forall>U. accept_conn K U f peer s = establishConn K U (nextConn s) s3"
      "conns s3 = (conns s)(nextConn s \<mapsto> tc)" "connectedCallback tc = Some (UserCb OnConnectF)"
    by (rule accept_new [OF conns_fineD(1) [OF chess_invD(1) [OF inv]], where K = K and f = f and peer = peer]) blast
  then show ?thesis by (simp add: chess_event_step_def EvAccept establishConn_def call_back_def cong: if_cong)
next
  case (EvRead q)
  then show ?thesis using handleRead_depth [OF inv] by (simp add: chess_event_step_def del: chess_user.simps)
next
  case (EvWrite q)
  then show ?thesis using handleWrite_indep [OF chess_invD(1) [OF inv]]
    by (simp add: chess_event_step_def del: chess_user.simps)
qed

section \<open>The start of the program\<close>

definition chess_start :: "chess_world \<Rightarrow> bool" where
  "chess_start s \<longleftrightarrow> running s = 1 \<and> conns s = Map.empty \<and> ConnMap s = Map.empty \<and> AtomicIDIncrease s = 0"

lemma chess_start_inv: "chess_start s \<Longrightarrow> chess_inv {} s"
  by (simp add: chess_start_def chess_inv_def conns_fine_def games_ok_def one_waits_def)

text \<open>A loop with its eventfd channel (descriptor 5) and no connection.\<close>

definition chess_sample :: chess_world where
  "chess_sample = \<lparr>
     hist = [SysEpollCtl EPOLL_CTL_ADD 5 1 None],
     chans = [0 \<mapsto> \<lparr>fd = 5, events = 1, revents = 0, index = 1, readCallback = Some HWakeup, writeCallback = None\<rparr>],
     the_poller = \<lparr>epollFD = 3, channelMap = [(5, 0)], eventListLen = 128, idxCounter = 1\<rparr>,
     timerQ = \<lparr>timerChannel = 0, timerIdCounter = 0, theap = []\<rparr>,
     wakeupEventChannel = 0, functors = [], running = 1, gid = 1, loop_id = 1,
     loop_ctx = NewContext, doOnLoop = None, doOnStop = None, extraForReadFD = [0], nextPtr = 1,
     replies = Map.empty, nextReply = 0, conns = Map.empty, nextConn = 0,
     ConnMap = Map.empty, AtomicIDIncrease = 0, games = Map.empty, nextGame = 0\<rparr>"

definition sample_range :: range_order where
  "sample_range h m = sorted_list_of_set (dom m)"

lemma sample_range_documented: "range_documented sample_range"
  by (simp add: range_documented_def sample_range_def)

lemma chess_sample_inv: "chess_start chess_sample" "world_inv {} chess_sample"
  by (auto simp: chess_start_def chess_sample_def world_inv_def poller_inv_def in_sync_but_def conns_ok_def
      registered_def Let_def)

section \<open>Properties\<close>

text \<open>C15. The chess server, from its start and for every sequence of events (connections
  that arrive, readable and writable sockets, heartbeat timeouts) that does not panic and has fewer than \<open>2 ^ 31\<close>
  events, keeps connections, contexts and games in agreement: every established connection has one entry of
  \<^verbatim>\<open>ConnMap\<close> and every entry an established connection that carries its key as \<^verbatim>\<open>conn_id\<close>; a context is in the state
  \<^verbatim>\<open>Gaming\<close> exactly when it has a game, of which it is one of the two different players, both of whose contexts point to it, with a
  board that legal moves reach; at most one connection waits for an opponent; and the invariant of the connection layer holds, so the
  callbacks meet the contract it demands. Nested callbacks never need more than two levels.\<close>

theorem chess_server_inv:
  assumes "ctl_documented K" "range_documented ro" "chess_start s" "world_inv {} s"
    "int (length evs) < 2 ^ 31" "rfold (chess_event_step K ro n) evs s = Inr s'"
  shows "chess_inv {} s' \<and> world_inv {} s'
    \<and> (\<forall>m e. chess_event_step K ro (m + 2) e s' = chess_event_step K ro 2 e s')"
proof -
  have "chess_inv {} s' \<and> world_inv {} s'"
    using chess_events_inv [OF assms(6) chess_start_inv [OF assms(3)] assms(4,2,1)] assms(3,5)
    by (simp add: chess_start_def)
  moreover from this have "chess_event_step K ro (m + 2) e s' = chess_event_step K ro 2 e s'" for m e
    using chess_event_depth [of s' K ro m e 0] by (simp add: numeral_2_eq_2 del: chess_user.simps)
  ultimately show ?thesis by blast
qed

theorem chess_server_inv_witness:
  "\<exists>s'. rfold (chess_event_step (sample_kernel []) sample_range 2) [EvAccept 7 (0, 0), EvAccept 8 (0, 0), EvTimeout] chess_sample = Inr s' \<and> chess_inv {} s'"
proof -
  obtain b where b: "Append (DoPackWith4BytesHeader (Marshal_Heartbeat zero_header)) NewBuffer = Inr b"
    using Append_ok [OF NewBuffer_inv, of "DoPackWith4BytesHeader (Marshal_Heartbeat zero_header)"] NewBuffer_read
    by (auto simp: fits_def)
  have "is_ok (rfold (chess_event_step (sample_kernel []) sample_range 2) [EvAccept 7 (0, 0), EvAccept 8 (0, 0), EvTimeout] chess_sample)"
    by (simp add: chess_event_step_def accept_conn_def newConnection_def alloc_chan_def Let_def numeral_2_eq_2
        setConnectedCallback_def setMessageCallback_def set_conn_def deref_conn_def upd_conn_def upd_chan_def
        RunInLoop_def run_functor_def run_conn_def establishConn_def UpdateChannel_def base_frame chess_sample_def
        channel_ops sample_kernel_def registered_def call_back_def OnConnect_def conn_SetContext_def SetDisConnectedCallback_def
        upd_cc_def OnTimeout_def sample_range_def beat_def send_packet_def Send_def send_in_loop_def
        b WritableEvent_def deref_cc_def MaxLoseHeartbeat_def)
  then obtain s' where s': "rfold (chess_event_step (sample_kernel []) sample_range 2) [EvAccept 7 (0, 0), EvAccept 8 (0, 0), EvTimeout] chess_sample = Inr s'"
    by (auto simp: is_ok_iff simp del: rfold.simps)
  with chess_server_inv [OF sample_ctl sample_range_documented chess_sample_inv _ s'] show ?thesis by simp
qed

text \<open>C37. Three packets that a client may send bring the server down instead of
  closing the connection: \<^verbatim>\<open>StartMatch\<close> from a client that already waits or plays (the handler goes on
  after \<^verbatim>\<open>ForceClose\<close> and dereferences the entry that \<^verbatim>\<open>OnClose\<close> has removed), \<^verbatim>\<open>Move\<close> from a client without a game
  (the game is dereferenced before the state is checked), and on one's turn a move on which \<^verbatim>\<open>DoMove\<close>
  panics, such as a cannon jumping to an empty point.\<close>

theorem packets_that_panic:
  assumes "chess_inv {} s" "range_documented ro" "conn_id q s = Inr k" "ConnMap s k = Some cc" "conns s q = Some tc"
    "Peek (inputBuffer tc) = Inr bs" "IsBytesCompleteWith4BytesHeader bs = Inr (Some body)"
    "case ServerParse body of
       Some (PacketClientStartMatch h) \<Rightarrow> ccState cc \<noteq> ConnStateNone
     | Some (PClientMove p) \<Rightarrow> ccState cc \<noteq> ConnStateGaming
         \<or> (\<exists>a g side. Gcontext cc = Some a \<and> games s a = Some g \<and> TurnNow g = side \<and>
              side = (if BlackConnID g = k then GameSideBlack else GameSideRed) \<and>
              DoMove side (gTable g) (FromX p) (FromY p) (ToX p) (ToY p) = Inl NilDeref)
     | _ \<Rightarrow> False"
  shows "\<not> is_ok (OnMessage K (chess_user K ro n) ro q s)"
proof
  let ?U = "chess_user K ro n"
  assume "is_ok (OnMessage K ?U ro q s)"
  then obtain s' where "OnMessage K ?U ro q s = Inr s'" by (auto simp: is_ok_iff)
  with assms(3,5-7) obtain buf where
    b: "(case ServerParse body of None \<Rightarrow> force_close K ?U q (upd_conn q (tc\<lparr>inputBuffer := buf\<rparr>) s)
      | Some (PacketHeartbeat h) \<Rightarrow> on_heartbeat k (upd_conn q (tc\<lparr>inputBuffer := buf\<rparr>) s)
      | Some (PacketClientStartMatch h) \<Rightarrow> on_start_match K ?U ro q k (upd_conn q (tc\<lparr>inputBuffer := buf\<rparr>) s)
      | Some (PClientMove packet) \<Rightarrow> on_move K ?U q k packet (upd_conn q (tc\<lparr>inputBuffer := buf\<rparr>) s)
      | Some p \<Rightarrow> Inr (upd_conn q (tc\<lparr>inputBuffer := buf\<rparr>) s)) = Inr s'"
    by (auto simp: OnMessage_def rbind_eq_Inr Let_def)
  let ?s1 = "upd_conn q (tc\<lparr>inputBuffer := buf\<rparr>) s"
  have i1: "chess_inv {} ?s1"
    by (rule chess_inv_same [OF assms(1) same_upd_conn(1) [OF assms(5)] same_upd_conn(2)]) (simp add: cproj_def)
  have f1: "ConnMap ?s1 k = Some cc" "games ?s1 = games s" "conn_id q ?s1 = Inr k"
    using assms(3-5) by (auto simp: upd_conn_def conn_id_Inr)
  have match: "ccState cc = ConnStateNone" if "on_start_match K ?U ro q k ?s1 = Inr s'"
    using on_start_match_inv [OF i1 chess_user_closes assms(2) f1(3) that] f1(1) by auto
  have idle: "ccState cc = ConnStateGaming" if "on_move K ?U q k p ?s1 = Inr s'" for p
    using on_move_inv [OF i1 chess_user_closes that] f1(1) games_okD [OF chess_invD(2) [OF i1] f1(1)] by auto
  have jump: "DoMove side (gTable g) (FromX p) (FromY p) (ToX p) (ToY p) \<noteq> Inl NilDeref"
    if m: "on_move K ?U q k p ?s1 = Inr s'" and g: "Gcontext cc = Some a" "games s a = Some g" "TurnNow g = side"
      "side = (if BlackConnID g = k then GameSideBlack else GameSideRed)" for p a g side
  proof
    assume "DoMove side (gTable g) (FromX p) (FromY p) (ToX p) (ToY p) = Inl NilDeref"
    with m g idle [OF m] f1 show False
      by (auto simp: on_move_def deref_cc_def deref_game_def Let_def split: if_splits)
  qed
  from assms(8) b match idle jump show False by (auto split: option.splits packet.splits)
qed

text \<open>Concrete state: connection 0, with identifier 1, waits for an opponent and sends \<^verbatim>\<open>StartMatch\<close> again.\<close>

definition impatient_tc :: "chess_val tcpConnection" where
  "impatient_tc = \<lparr>tstate = Connected, socketChannel = 1, connectedCallback = Some (UserCb OnConnectF),
     disconnectedCallback = Some (UserCb OnCloseF), messageCallback = Some (UserCb OnMessageF),
     highWaterCallback = Some DefaultCb, writeCompleteCallback = Some DefaultCb, hignWaterLevel = 0,
     remoteAddrPort = (0, 0), outputBuffer = NewBuffer,
     inputBuffer = (let bs = DoPackWith4BytesHeader (Marshal_ClientStartMatch zero_header)
       in \<lparr>data = bs, readIndex = 0, writeIndex = int (length bs)\<rparr>),
     conn_ctx = ctx_Set ''conn_id'' (Some (IntVal 1)) NewContext\<rparr>"

definition impatient_cc :: ConnContext where
  "impatient_cc = \<lparr>ccID = 1, LoseHertbeatCount = 0, ccConn = 0, ccState = ConnStateMatching, Gcontext = None\<rparr>"

definition impatient :: chess_world where
  "impatient = chess_sample\<lparr>conns := [0 \<mapsto> impatient_tc], nextConn := 1, ConnMap := [1 \<mapsto> impatient_cc], AtomicIDIncrease := 1\<rparr>"

lemma impatient_inv: "chess_inv {} impatient"
  by (auto simp: chess_inv_def conns_fine_def conn_fine_def entry_fine_def games_ok_def one_waits_def impatient_def
      impatient_tc_def impatient_cc_def chess_sample_def)

theorem packets_that_panic_witness:
  "\<not> is_ok (OnMessage (sample_kernel []) (chess_user (sample_kernel []) sample_range 2) sample_range 0 impatient)"
proof -
  have p: "IsBytesCompleteWith4BytesHeader (DoPackWith4BytesHeader (Marshal_ClientStartMatch zero_header)) =
      Inr (Some (Marshal_ClientStartMatch zero_header))" by code_simp
  have "conn_id 0 impatient = Inr 1" by (auto simp: conn_id_Inr impatient_def impatient_tc_def)
  moreover have "ConnMap impatient 1 = Some impatient_cc" "conns impatient 0 = Some impatient_tc" by (simp_all add: impatient_def)
  moreover have "Peek (inputBuffer impatient_tc) = Inr (DoPackWith4BytesHeader (Marshal_ClientStartMatch zero_header))"
    by (simp add: impatient_tc_def Peek_def go_slice_def Let_def)
  ultimately show ?thesis
    by (rule packets_that_panic [OF impatient_inv sample_range_documented _ _ _ _ p])
      (simp add: parse_only_header impatient_cc_def)
qed

end
