(* ===== verification/Chess_Play.thy ===== *)
theory Chess_Play
  imports Chess_Server
begin

text \<open>
  What the players see of the chess server: the answers to \<^verbatim>\<open>StartMatch\<close> and \<^verbatim>\<open>Move\<close>, as the new
  contexts and games and the packets queued on every connection.
\<close>

section \<open>What the server sends on a connection\<close>

definition open_at :: "nat \<Rightarrow> chess_world \<Rightarrow> bool" where
  "open_at q s \<longleftrightarrow> (\<exists>tc. conns s q = Some tc \<and> tstate tc = Connected)"

text \<open>The output buffer of a connection is in order; how much its array holds.\<close>

definition obuf :: "nat \<Rightarrow> chess_world \<Rightarrow> bool" where
  "obuf q s \<longleftrightarrow> (\<exists>tc. conns s q = Some tc \<and> buf_inv (outputBuffer tc))"

definition room :: "nat \<Rightarrow> chess_world \<Rightarrow> nat" where
  "room q s = (case conns s q of None \<Rightarrow> 0 | Some tc \<Rightarrow> length (data (outputBuffer tc)))"

definition frames :: "byte list list \<Rightarrow> byte list" where
  "frames ps = concat (map DoPackWith4BytesHeader ps)"

lemma frames_simps [simp]: "frames [] = []" "frames (p # ps) = DoPackWith4BytesHeader p @ frames ps" "frames (ps @ qs) = frames ps @ frames qs"
  by (simp_all add: frames_def)

definition unwritten :: "history \<Rightarrow> bool" where
  "unwritten h \<longleftrightarrow> (\<forall>f. written f h = [])"

lemma unwritten_simps [simp]:
  "unwritten []" "unwritten (h @ h') \<longleftrightarrow> unwritten h \<and> unwritten h'" "unwritten [SysEpollCtl a b c d]"
  "unwritten [SysClose f]" "unwritten [SysShutdown f]" "unwritten [SysReadv f n r]"
  by (auto simp: unwritten_def written_def)

text \<open>Channels stay allocated and keep their descriptor.\<close>

definition fds :: "chess_world \<Rightarrow> chess_world \<Rightarrow> bool" where
  "fds s t \<longleftrightarrow> (\<forall>p c. chans s p = Some c \<longrightarrow> (\<exists>c'. chans t p = Some c' \<and> fd c' = fd c))"

lemma fds_refl [simp]: "fds s s"
  by (simp add: fds_def)

lemma fds_same: "chans t = chans s \<Longrightarrow> fds s t"
  by (simp add: fds_def)

lemma fds_trans: "fds s t \<Longrightarrow> fds t u \<Longrightarrow> fds s u"
  by (fastforce simp: fds_def)

lemma fds_upd_chan: "chans s p = Some c \<Longrightarrow> fd c' = fd c \<Longrightarrow> fds s (upd_chan p c' s)"
  by (simp add: fds_def upd_chan_def)

lemma UpdateChannel_fds:
  fixes s s' :: chess_world
  shows "UpdateChannel K p s = Inr s' \<Longrightarrow> fds s s'"
  by (auto simp: UpdateChannel_def base_frame rbind_eq_Inr fds_def split: option.splits if_splits)

lemma RemoveChannel_fds:
  fixes s s' :: chess_world
  shows "RemoveChannel K p s = Inr s' \<Longrightarrow> fds s s' \<and> (\<exists>h. hist s' = hist s @ h \<and> unwritten h)"
  by (auto simp: RemoveChannel_def base_frame rbind_eq_Inr fds_def split: option.splits if_splits)

text \<open>From \<open>s\<close> to \<open>t\<close> the packets \<open>ps\<close> were queued on \<open>q\<close> and no byte was written. The queue has the right length in
  any case; its bytes are those of the packets when the array did not have to grow.\<close>

definition said :: "nat \<Rightarrow> chess_world \<Rightarrow> byte list list \<Rightarrow> chess_world \<Rightarrow> bool" where
  "said q s ps t \<longleftrightarrow> fds s t \<and> (\<exists>h. hist t = hist s @ h \<and> unwritten h) \<and> (open_at q t \<longrightarrow> open_at q s
     \<and> (obuf q s \<longrightarrow> obuf q t \<and> room q s \<le> room q t
       \<and> length (pending_out q t) = length (pending_out q s) + length (frames ps)
       \<and> (length (pending_out q t) \<le> room q s \<longrightarrow> pending_out q t = pending_out q s @ frames ps)))"

lemma said_trans:
  assumes a: "said q s ps t" and b: "said q t qs u"
  shows "said q s (ps @ qs) u"
proof -
  obtain h1 h2 where h: "hist t = hist s @ h1" "unwritten h1" "hist u = hist t @ h2" "unwritten h2"
    using a b by (auto simp: said_def)
  then have "\<exists>h. hist u = hist s @ h \<and> unwritten h" by (intro exI [of _ "h1 @ h2"]) simp
  moreover have "fds s u" using a b fds_trans unfolding said_def by blast
  ultimately show ?thesis using a b unfolding said_def by auto
qed

lemma said_nothing:
  assumes "conns t q = conns s q" "fds s t" "\<exists>h. hist t = hist s @ h \<and> unwritten h"
  shows "said q s [] t"
  using assms by (simp add: said_def open_at_def obuf_def room_def pending_out_def)

lemma said_refl [simp]: "said q s [] s"
  by (rule said_nothing) (auto intro: exI [of _ "[]"])

lemma said_app [simp]:
  "said q s ps (upd_cc k cc t) = said q s ps t" "said q s ps (upd_game a g t) = said q s ps t"
  "said q s ps (t\<lparr>ConnMap := m\<rparr>) = said q s ps t" "said q s ps (t\<lparr>games := gs\<rparr>) = said q s ps t"
  "said q s ps (t\<lparr>nextGame := n\<rparr>) = said q s ps t" "said q s ps (t\<lparr>AtomicIDIncrease := i\<rparr>) = said q s ps t"
  by (simp_all add: said_def open_at_def obuf_def room_def pending_out_def upd_cc_def upd_game_def fds_def)

lemma Append_queue:
  assumes "buf_inv buf" "Append bs buf = Inr buf'"
  shows "buf_inv buf' \<and> length (data buf) \<le> length (data buf') \<and> length (content buf') = length (content buf) + length bs
    \<and> (length (content buf') \<le> length (data buf) \<longrightarrow> content buf' = content buf @ bs)"
proof -
  have len: "length (data buf) \<le> length (data buf')"
    using assms(2) by (auto simp: Append_def Let_def rbind_eq_Inr go_copy_at_def go_make_def split: if_splits)
  have r: "ReadableBytes buf = int (length (content buf))" using content_length [OF assms(1)] by simp
  consider "int (length bs) \<le> int (length (data buf)) - writeIndex buf"
    | "int (length (data buf)) - writeIndex buf < int (length bs)"
      "ReadableBytes buf + int (length bs) \<le> int (length (data buf))"
    | "int (length (data buf)) < ReadableBytes buf + int (length bs)" by linarith
  then show ?thesis
  proof cases
    case 1
    with Append_tail [OF assms(1) 1] assms(2) len show ?thesis by auto
  next
    case 2
    with Append_compact [OF assms(1) 2] assms(2) len show ?thesis by auto
  next
    case 3
    then have "\<not> int (length bs) + 8192 < readIndex buf" using Append_grow(2) [OF assms(1) 3] assms(2) by auto
    with Append_grow(1) [OF assms(1) 3] assms(2) len r 3 show ?thesis by auto
  qed
qed

lemma send_said:
  assumes "send_packet K U p body s = Inr s'" "conns_fine X s"
  shows "said q s (if p = q then [body] else []) s'"
proof -
  let ?bs = "DoPackWith4BytesHeader body"
  have r: "send_in_loop K U p ?bs s = Inr s'"
    using assms(1) conns_fineD(1) [OF assms(2)]
    by (simp add: send_packet_def Send_def RunInLoop_def run_functor_def run_conn_def)
  then obtain tc where tc: "conns s p = Some tc" by (auto simp: send_in_loop_def rbind_eq_Inr)
  then have hw: "highWaterCallback tc = Some DefaultCb" using conns_fineD(4) [OF assms(2)] by (simp add: conn_fine_def)
  show ?thesis
  proof (cases "tstate tc = Connected")
    case False
    then have "s' = s" using r tc by (simp add: send_in_loop_def)
    with False tc show ?thesis by (auto simp: said_def open_at_def intro: exI [of _ "[]"])
  next
    case True
    have "(if P then call_back U (highWaterCallback tc) (ArgHighWater p n) t else Inr t) = Inr t" for P n and t :: chess_world
      using hw by (simp add: call_back_def default_callback_def)
    then obtain buf c where b: "Append ?bs (outputBuffer tc) = Inr buf" and c0: "chans s (socketChannel tc) = Some c"
      and k: "(if \<not> IsWriting c
        then UpdateChannel K (socketChannel tc) (upd_chan (socketChannel tc) (snd (EnableWrite c))
           (upd_conn p (tc\<lparr>outputBuffer := buf\<rparr>) s))
        else Inr (upd_conn p (tc\<lparr>outputBuffer := buf\<rparr>) s)) = Inr s'"
      using r tc True by (auto simp: send_in_loop_def rbind_eq_Inr Let_def)
    have c: "conns s' = (conns s)(p \<mapsto> tc\<lparr>outputBuffer := buf\<rparr>)" and h: "fds s s'" "\<exists>h. hist s' = hist s @ h \<and> unwritten h"
    proof -
      have "conns s' = (conns s)(p \<mapsto> tc\<lparr>outputBuffer := buf\<rparr>) \<and> fds s s' \<and> (\<exists>h. hist s' = hist s @ h \<and> unwritten h)"
      proof (cases "IsWriting c")
        case True
        with k show ?thesis by (auto simp: upd_conn_def fds_def intro: exI [of _ "[]"])
      next
        case False
        with k have u: "UpdateChannel K (socketChannel tc) (upd_chan (socketChannel tc) (snd (EnableWrite c))
            (upd_conn p (tc\<lparr>outputBuffer := buf\<rparr>) s)) = Inr s'" by simp
        have "fds s (upd_chan (socketChannel tc) (snd (EnableWrite c)) (upd_conn p (tc\<lparr>outputBuffer := buf\<rparr>) s))"
          using c0 by (simp add: fds_def upd_chan_def upd_conn_def channel_ops)
        from fds_trans [OF this UpdateChannel_fds [OF u]] UpdateChannel_same(3) [OF u] UpdateChannel_hist [OF u]
        show ?thesis by (auto simp: upd_conn_def upd_chan_def)
      qed
      then show "conns s' = (conns s)(p \<mapsto> tc\<lparr>outputBuffer := buf\<rparr>)" "fds s s'" "\<exists>h. hist s' = hist s @ h \<and> unwritten h" by simp_all
    qed
    show ?thesis
    proof (cases "p = q")
      case True
      have "obuf q s' \<and> room q s \<le> room q s' \<and> length (pending_out q s') = length (pending_out q s) + length ?bs
          \<and> (length (pending_out q s') \<le> room q s \<longrightarrow> pending_out q s' = pending_out q s @ ?bs)" if "obuf q s"
        using that Append_queue [OF _ b] tc c True by (auto simp: obuf_def room_def pending_out_def)
      with True h \<open>tstate tc = Connected\<close> tc show ?thesis by (auto simp: said_def open_at_def)
    next
      case False
      with said_nothing [of s' q s] c h show ?thesis by simp
    qed
  qed
qed

section \<open>What a handler queues on each connection\<close>

definition queues :: "chess_world \<Rightarrow> (nat \<Rightarrow> byte list list) \<Rightarrow> chess_world \<Rightarrow> bool" where
  "queues s out t \<longleftrightarrow> same_conns s t \<and> (\<forall>q. said q s (out q) t)"

lemma queuesD: "queues s out t \<Longrightarrow> out q = ps \<Longrightarrow> said q s ps t"
  by (auto simp: queues_def)

lemma queues_refl [simp]: "queues s (\<lambda>q. []) s"
  by (simp add: queues_def)

lemma queues_app [simp]:
  "queues s out (upd_cc k cc t) = queues s out t" "queues s out (upd_game a g t) = queues s out t"
  "queues s out (t\<lparr>nextGame := n\<rparr>) = queues s out t"
  by (simp_all add: queues_def same_conns_def upd_cc_def upd_game_def said_def open_at_def obuf_def room_def
      pending_out_def fds_def)

lemma send_queues:
  assumes "queues s out t" "send_packet K U p body t = Inr u" "conns_fine X t"
  shows "queues s (\<lambda>q. out q @ (if q = p then [body] else [])) u"
  unfolding eq_commute [of _ p]
  using assms(1) send_fine(1) [OF assms(2,3)] send_said [OF assms(2,3)] said_trans same_trans(1)
  unfolding queues_def by blast

text \<open>Two entries have two connections.\<close>

lemma conns_differ:
  assumes "conns_fine X s" "ConnMap s j = Some v" "ConnMap s k = Some cc" "j \<noteq> k"
  shows "ccConn v \<noteq> ccConn cc"
  using conn_of_entry [OF assms(1,2)] conn_of_entry [OF assms(1,3)] assms(4) by auto

section \<open>The steps of the handlers\<close>

text \<open>\<^verbatim>\<open>handleClose\<close> up to the call of \<^verbatim>\<open>OnClose\<close>; \<^verbatim>\<open>handleRead\<close> up to the call of \<^verbatim>\<open>OnMessage\<close>; one
  entry of \<^verbatim>\<open>OnTimeout\<close>.\<close>

lemma handleClose_steps:
  assumes inv: "chess_inv {} s" and U: "closes K U" and r: "handleClose K U p s = Inr s'"
  obtains k cc tc s2 V h where "ConnMap s k = Some cc" "ccConn cc = p" "conns s2 = (conns s)(p \<mapsto> tc\<lparr>tstate := Disconnected\<rparr>)"
    "same_app s s2" "conns_fine {k} s2" "fds s s2" "hist s2 = hist s @ h" "unwritten h" "OnClose K V p s2 = Inr s'"
proof -
  note i = chess_invD [OF inv]
  obtain tc where tc: "conns s p = Some tc" "is_open tc"
    using r by (auto simp: handleClose_def rbind_eq_Inr split: if_splits)
  obtain s1 f tc2 where s1: "RemoveChannel K (socketChannel tc) (upd_conn p (tc\<lparr>tstate := Disconnected\<rparr>) s) = Inr s1"
      and cb: "conns s1 p = Some tc2"
        "call_back U (disconnectedCallback tc2) (ArgDisConnected p) (log_sys (SysClose f) s1) = Inr s'"
    using r tc by (auto simp: handleClose_def rbind_eq_Inr Let_def)
  let ?s2 = "log_sys (SysClose f) s1"
  have "tstate tc = Connected" using tc conns_fineD(5) [OF i(1)] by blast
  then obtain k cc where k: "ConnMap s k = Some cc" "ccConn cc = p" using conns_fineD(6) [OF i(1) tc(1)] by blast
  have d: "disconnectedCallback tc = Some (UserCb OnCloseF)"
    using entry_fineD [OF conns_fineD(7) [OF i(1) k(1)]] k(2) tc(1) by auto
  have c2: "conns ?s2 = (conns s)(p \<mapsto> tc\<lparr>tstate := Disconnected\<rparr>)" using RemoveChannel_same(1) [OF s1] by simp
  have a2: "same_app s ?s2"
    by (rule same_trans(2) [OF same_upd_conn(2) same_trans(2) [OF RemoveChannel_same(2) [OF s1] same_log(2)]])
  have fine: "conns_fine {k} ?s2" by (rule conns_fine_close [OF i(1) k(1)]) (use k(2) tc(1) c2 a2 in simp_all)
  obtain h where h: "fds s s1" "hist s1 = hist s @ h" "unwritten h"
    using RemoveChannel_fds [OF s1] by (auto simp: fds_def upd_conn_def)
  have "U OnCloseF (ArgDisConnected p) ?s2 = Inr s'" using cb c2 d by (auto simp: call_back_def)
  then obtain V where close: "OnClose K V p ?s2 = Inr s'" using U unfolding closes_def by blast
  have "fds s ?s2" "hist ?s2 = hist s @ h @ [SysClose f]" "unwritten (h @ [SysClose f])"
    using h by (simp_all add: fds_def log_sys_def)
  from that [OF k c2 a2 fine this close] show thesis .
qed

lemma force_close_steps:
  assumes "chess_inv {} s" "force_close K U p s = Inr s'"
  shows "\<exists>tc. conns s p = Some tc \<and> (if is_open tc then handleClose K U p s = Inr s' else s' = s)"
proof -
  have "forceclose_in_loop K U p s = Inr s'"
    using assms(2) conns_fineD(1) [OF chess_invD(1) [OF assms(1)]]
    by (simp add: force_close_def ForceClose_def RunInLoop_def run_functor_def run_conn_def)
  then show ?thesis by (auto simp: forceclose_in_loop_def rbind_eq_Inr split: if_splits)
qed

lemma handleRead_steps:
  assumes inv: "chess_inv {} s" and r: "handleRead K (chess_user K ro n) p s = Inr s'"
  obtains tc s2 b where "conns s p = Some tc" "same_conns s s2" "same_app s s2" "chans s2 = chans s"
    "conns s2 = (conns s)(p \<mapsto> tc\<lparr>inputBuffer := b\<rparr>)" "\<exists>h. hist s2 = hist s @ h \<and> unwritten h" "chess_inv {} s2"
    "(\<exists>j. OnMessage K (chess_user K ro j) ro p s2 = Inr s') \<or> handleClose K (chess_user K ro n) p s2 = Inr s'"
proof -
  let ?U = "chess_user K ro n"
  obtain tc c where tc: "conns s p = Some tc" "chans s (socketChannel tc) = Some c"
    using r by (auto simp: handleRead_def rbind_eq_Inr)
  have m: "messageCallback tc = Some (UserCb OnMessageF)"
    using conns_fineD(4) [OF chess_invD(1) [OF inv] tc(1)] by (simp add: conn_fine_def)
  obtain s2 b where s2: "same_conns s s2" "same_app s s2" "chans s2 = chans s" "conns s2 = (conns s)(p \<mapsto> tc\<lparr>inputBuffer := b\<rparr>)"
      and h: "hist s2 = hist s \<or> (\<exists>f n r. hist s2 = hist s @ [SysReadv f n r])"
      and k: "call_back ?U (messageCallback tc) (ArgMessage p) s2 = Inr s' \<or> handleClose K ?U p s2 = Inr s'"
    by (rule handleRead_same [OF tc, of K]) (use r in \<open>auto split: if_splits\<close>)
  have "\<exists>j. OnMessage K (chess_user K ro j) ro p s2 = Inr s'" if "call_back ?U (messageCallback tc) (ArgMessage p) s2 = Inr s'"
    using that m by (cases n) (auto simp: call_back_def)
  with k have "(\<exists>j. OnMessage K (chess_user K ro j) ro p s2 = Inr s') \<or> handleClose K ?U p s2 = Inr s'" by blast
  moreover have "\<exists>h. hist s2 = hist s @ h \<and> unwritten h" using h by auto
  ultimately show thesis using tc(1) s2 chess_inv_same [OF inv s2(1,2)] by (intro that)
qed

lemma beat_steps:
  assumes inv: "chess_inv {} t" and b: "beat K U k t = Inr u" and cc: "ConnMap t k = Some cc"
  obtains s1 where "send_packet K U (ccConn cc) (Marshal_Heartbeat zero_header) t = Inr s1" "same_app t s1"
    "chess_inv {} (upd_cc k (cc\<lparr>LoseHertbeatCount := LoseHertbeatCount cc + 1\<rparr>) s1)"
    "if LoseHertbeatCount cc + 1 \<ge> MaxLoseHeartbeat
     then force_close K U (ccConn cc) (upd_cc k (cc\<lparr>LoseHertbeatCount := LoseHertbeatCount cc + 1\<rparr>) s1) = Inr u
     else u = upd_cc k (cc\<lparr>LoseHertbeatCount := LoseHertbeatCount cc + 1\<rparr>) s1"
proof -
  obtain s1 where s1: "send_packet K U (ccConn cc) (Marshal_Heartbeat zero_header) t = Inr s1"
    using b cc by (auto simp: beat_def rbind_eq_Inr)
  note i1 = send_inv [OF inv s1]
  have cc1: "ConnMap s1 k = Some cc" using same_appD(1) [OF i1(2)] cc by simp
  have "if LoseHertbeatCount cc + 1 \<ge> MaxLoseHeartbeat
     then force_close K U (ccConn cc) (upd_cc k (cc\<lparr>LoseHertbeatCount := LoseHertbeatCount cc + 1\<rparr>) s1) = Inr u
     else u = upd_cc k (cc\<lparr>LoseHertbeatCount := LoseHertbeatCount cc + 1\<rparr>) s1"
    using b cc cc1 s1 by (simp add: beat_def Let_def deref_cc_def split: if_splits)
  with s1 i1(2) lose_count_inv [OF i1(1) cc1] show thesis by (rule that)
qed

section \<open>A match\<close>

definition matched_packets :: "GameSide \<Rightarrow> ChessTable \<Rightarrow> byte list list" where
  "matched_packets side table = [Marshal_ServerMatching zero_header,
     Marshal_ServerMatchedOK \<lparr>hType = None, matchedSide = side, matchedTable = Some table\<rparr>]"

lemma start_game_queues:
  assumes inv: "chess_inv {} s" and k: "ConnMap s k = Some cc" and j: "ConnMap s j = Some v" "j \<noteq> k"
    and r: "start_game K U k j s = Inr s'"
  shows "\<exists>table. NewDefaultChessTable = Inr table
    \<and> ConnMap s' = (ConnMap s)(j \<mapsto> v\<lparr>ccState := ConnStateGaming, Gcontext := Some (nextGame s)\<rparr>,
        k \<mapsto> cc\<lparr>ccState := ConnStateGaming, Gcontext := Some (nextGame s)\<rparr>)
    \<and> games s' = (games s)(nextGame s \<mapsto> \<lparr>RedConnID = k, BlackConnID = j, gTable = table, TurnNow = GameSideRed\<rparr>)
    \<and> queues s (\<lambda>q. if q = ccConn v then matched_packets GameSideBlack table
        else if q = ccConn cc then matched_packets GameSideRed table else []) s'"
proof -
  note f = chess_invD(1) [OF inv]
  obtain table where table: "NewDefaultChessTable = Inr table" using r by (auto simp: start_game_def rbind_eq_Inr)
  have dj: "deref_cc j s = Inr v" using j by simp
  have id: "ccID v = j" using entry_fineD [OF conns_fineD(7) [OF f j(1)]] by blast
  define g where "g = \<lparr>RedConnID = k, BlackConnID = ccID v, gTable = table, TurnNow = GameSideRed\<rparr>"
  define v' where "v' = v\<lparr>ccState := ConnStateGaming, Gcontext := Some (nextGame s)\<rparr>"
  let ?s2 = "upd_cc j v' (upd_game (nextGame s) g (s\<lparr>nextGame := nextGame s + 1\<rparr>))"
  let ?m = "Marshal_ServerMatching zero_header"
  let ?ok = "\<lambda>side. Marshal_ServerMatchedOK \<lparr>hType = None, matchedSide = side, matchedTable = Some table\<rparr>"
  obtain s3 s4 s6 and d cc6 :: ConnContext where s3: "send_packet K U (ccConn v) ?m ?s2 = Inr s3"
      and s4: "send_packet K U (ccConn v) (?ok GameSideBlack) s3 = Inr s4" and d: "ConnMap s4 k = Some d"
      and s6: "send_packet K U (ccConn d) ?m
        (upd_cc k (d\<lparr>ccState := ConnStateGaming, Gcontext := Some (nextGame s)\<rparr>) s4) = Inr s6"
      and cc6: "ConnMap s6 k = Some cc6" and s7: "send_packet K U (ccConn cc6) (?ok GameSideRed) s6 = Inr s'"
    using r unfolding start_game_def dj table rbind.simps Let_def g_def v'_def rbind_eq_Inr deref_cc_Inr by blast
  have f2: "conns_fine {} ?s2" by (rule conns_fine_upd_cc [where cc = v]) (use f j in \<open>simp_all add: v'_def\<close>)
  note f3 = send_fine_again [OF f2 s3]
  note f4 = send_fine_again [OF f3 s4]
  have "queues s (\<lambda>q. []) ?s2" by simp
  note q4 = send_queues [OF send_queues [OF this s3 f2] s4 f3]
  have m4: "ConnMap s4 = (ConnMap s)(j \<mapsto> v')" "games s4 = (games s)(nextGame s \<mapsto> g)"
    using same_appD [OF send_fine(2) [OF s3 f2]] same_appD [OF send_fine(2) [OF s4 f3]] by simp_all
  have d': "d = cc" using d k j m4(1) by simp
  let ?s5 = "upd_cc k (cc\<lparr>ccState := ConnStateGaming, Gcontext := Some (nextGame s)\<rparr>) s4"
  have f5: "conns_fine {} ?s5" by (rule conns_fine_upd_cc [OF f4 d [unfolded d']]) simp_all
  note s6 = s6 [unfolded d']
  note f6 = send_fine_again [OF f5 s6]
  have "ccConn cc6 = ccConn cc" using cc6 same_appD(1) [OF send_fine(2) [OF s6 f5]] by auto
  note s7 = s7 [unfolded this]
  note send_queues [OF send_queues [OF queues_app(1) [THEN iffD2, OF q4] s6 f5] s7 f6]
  moreover have "ccConn v \<noteq> ccConn cc" using conns_differ [OF f j(1) k j(2)] .
  then have "(\<lambda>q. ((([] @ (if q = ccConn v then [?m] else [])) @ (if q = ccConn v then [?ok GameSideBlack] else []))
      @ (if q = ccConn cc then [?m] else [])) @ (if q = ccConn cc then [?ok GameSideRed] else []))
    = (\<lambda>q. if q = ccConn v then matched_packets GameSideBlack table
        else if q = ccConn cc then matched_packets GameSideRed table else [])"
    by (auto simp: matched_packets_def)
  moreover have "ConnMap s' = (ConnMap s)(j \<mapsto> v', k \<mapsto> cc\<lparr>ccState := ConnStateGaming, Gcontext := Some (nextGame s)\<rparr>)"
    "games s' = (games s)(nextGame s \<mapsto> g)"
    using same_appD [OF send_fine(2) [OF s6 f5]] same_appD [OF send_fine(2) [OF s7 f6]] m4 by simp_all
  ultimately show ?thesis using table by (intro exI [of _ table]) (simp add: g_def v'_def id)
qed

text \<open>Every branch of \<^verbatim>\<open>on_move\<close>, for a player of the game \<open>a\<close>.\<close>

lemma on_move_queues:
  assumes inv: "chess_inv {} s" and p: "conn_id p s = Inr k"
    and k: "ConnMap s k = Some cc" "Gcontext cc = Some a" "games s a = Some g"
    and side: "side = (if BlackConnID g = k then GameSideBlack else GameSideRed)"
      "rside = (if BlackConnID g = k then GameSideRed else GameSideBlack)"
      "rem = (if BlackConnID g = k then RedConnID g else BlackConnID g)"
    and r: "on_move K U p k packet s = Inr s'"
  shows "ccState cc = ConnStateGaming \<and> (\<exists>rc. ConnMap s rem = Some rc \<and> ccConn rc \<noteq> p \<and>
    (if TurnNow g \<noteq> side then ConnMap s' = ConnMap s \<and> games s' = games s
      \<and> queues s (\<lambda>q. if q = p then [move_failed ''it is not your turn''] else []) s'
    else \<exists>table over ok. DoMove side (gTable g) (FromX packet) (FromY packet) (ToX packet) (ToY packet) = Inr (table, over, ok)
      \<and> (if \<not> ok then ConnMap s' = ConnMap s \<and> games s' = games s
          \<and> queues s (\<lambda>q. if q = p then [move_failed ''you cannot move like this''] else []) s'
        else if \<not> over then ConnMap s' = ConnMap s \<and> games s' = (games s)(a \<mapsto> g\<lparr>gTable := table, TurnNow := rside\<rparr>)
          \<and> queues s (\<lambda>q. if q = p then [Marshal_ServerMoveResp \<lparr>hType = None, respOK = True, TableOnOK = Some table,
                ErrMsgOnFailed = None\<rparr>]
              else if q = ccConn rc then [Marshal_ServerNotifyRemoteMove \<lparr>hType = None, notifyTable = Some table\<rparr>] else []) s'
        else ConnMap s' = (ConnMap s)(k \<mapsto> cc\<lparr>ccState := ConnStateNone, Gcontext := None\<rparr>,
              rem \<mapsto> rc\<lparr>ccState := ConnStateNone, Gcontext := None\<rparr>)
          \<and> games s' = (games s)(a \<mapsto> g\<lparr>gTable := table\<rparr>)
          \<and> queues s (\<lambda>q. if q = ccConn rc then [Marshal_ServerGameOver \<lparr>hType = None, overTable = Some table,
                WinnerSide = side\<rparr>] else []) s')))"
proof -
  note i = chess_invD [OF inv]
  have g: "ccState cc = ConnStateGaming" using games_okD [OF i(2) k(1,2)] .
  obtain rk: "rem \<noteq> k" and ok: "game_ok g" and pl: "plays (ConnMap s) rem a" by (rule opponent [OF i(2) k side(3)]) blast
  then obtain rc where rc: "ConnMap s rem = Some rc" by (auto simp: plays_def)
  have pk: "ccConn cc = p" using entry_of_conn [OF i(1) p k(1)] by simp
  have ne: "ccConn rc \<noteq> p" using conns_differ [OF i(1) rc k(1) rk] pk by simp
  have d: "deref_cc k s = Inr cc" "deref_game (Gcontext cc) s = Inr (a, g)" using k by simp_all
  note b = r [unfolded on_move_def d rbind.simps Let_def prod.case, folded side]
  have q0: "queues s (\<lambda>q. []) s" by simp
  show ?thesis
  proof (cases "TurnNow g = side")
    case False
    with b g have "send_packet K U p (move_failed ''it is not your turn'') s = Inr s'" by simp
    from send_queues [OF q0 this i(1)] same_appD [OF send_fine(2) [OF this i(1)]] g rc ne False show ?thesis by simp
  next
    case True
    with b g obtain table over ok where m: "DoMove side (gTable g) (FromX packet) (FromY packet) (ToX packet) (ToY packet)
        = Inr (table, over, ok)" by (auto simp: rbind_eq_Inr)
    have n: "\<not> ccState cc \<noteq> ConnStateGaming" "\<not> TurnNow g \<noteq> side" using True g by simp_all
    note c = b [unfolded m rbind.simps prod.case if_not_P [OF n(1)] if_not_P [OF n(2)]]
    let ?s1 = "upd_game a (g\<lparr>gTable := table\<rparr>) s"
    have f1: "conns_fine {} ?s1" and q1: "queues s (\<lambda>q. []) ?s1" using i(1) by simp_all
    consider "\<not> ok" | "ok" "\<not> over" | "ok" over by blast
    then show ?thesis
    proof cases
      case 1
      then have "table = gTable g" using DoMove_refused [of "gTable g"] ok m reachable_ok by (simp add: game_ok_def board_ok_def)
      with k(3) have "(games s)(a \<mapsto> g\<lparr>gTable := table\<rparr>) = games s" by (simp add: fun_upd_idem)
      moreover from 1 c have "send_packet K U p (move_failed ''you cannot move like this'') ?s1 = Inr s'" by simp
      note send_queues [OF q1 this f1] same_appD [OF send_fine(2) [OF this f1]]
      ultimately show ?thesis using 1 g rc ne m True by simp blast
    next
      case 2
      with c rc obtain s2 where s2: "send_packet K U (ccConn rc) (Marshal_ServerNotifyRemoteMove \<lparr>hType = None, notifyTable = Some table\<rparr>) ?s1 = Inr s2"
          and s3: "send_packet K U p (Marshal_ServerMoveResp \<lparr>hType = None, respOK = True, TableOnOK = Some table,
             ErrMsgOnFailed = None\<rparr>) (upd_game a (g\<lparr>gTable := table, TurnNow := rside\<rparr>) s2) = Inr s'" (is "send_packet K U p ?resp ?s3 = Inr s'")
        by (auto simp: rbind_eq_Inr)
      have f3: "conns_fine {} ?s3" using send_fine_again [OF f1 s2] by simp
      note q3 = send_queues [OF queues_app(2) [THEN iffD2, OF send_queues [OF q1 s2 f1]] s3 f3]
      have "(\<lambda>q. ([] @ (if q = ccConn rc then [x] else [])) @ (if q = p then [y] else []))
          = (\<lambda>q. if q = p then [y] else if q = ccConn rc then [x] else [])" for x y :: "byte list" using ne by auto
      note q3 [unfolded this]
      moreover have "ConnMap s' = ConnMap s" "games s' = (games s)(a \<mapsto> g\<lparr>gTable := table, TurnNow := rside\<rparr>)"
        using same_appD [OF send_fine(2) [OF s2 f1]] same_appD [OF send_fine(2) [OF s3 f3]] by simp_all
      ultimately show ?thesis using 2 g rc ne m True by simp blast
    next
      case 3
      let ?s2 = "upd_cc k (cc\<lparr>ccState := ConnStateNone, Gcontext := None\<rparr>) ?s1"
      let ?s3 = "upd_cc rem (rc\<lparr>ccState := ConnStateNone, Gcontext := None\<rparr>) ?s2"
      from 3 c rc rk have s3: "send_packet K U (ccConn rc)
            (Marshal_ServerGameOver \<lparr>hType = None, overTable = Some table, WinnerSide = side\<rparr>) ?s3 = Inr s'"
        by (simp add: deref_cc_def)
      have "conns_fine {} ?s2" by (rule conns_fine_upd_cc [where cc = cc]) (use f1 k(1) in simp_all)
      then have f3: "conns_fine {} ?s3" by (rule conns_fine_upd_cc [where cc = rc]) (use rc rk in simp_all)
      have "queues s (\<lambda>q. []) ?s3" using q0 by simp
      from send_queues [OF this s3 f3] same_appD [OF send_fine(2) [OF s3 f3]] show ?thesis using 3 g rc ne m True by simp blast
    qed
  qed
qed

lemma on_start_match_queues:
  assumes inv: "chess_inv {} s" and U: "closes K U" and ro: "range_documented ro" and p: "conn_id p s = Inr k"
    and r: "on_start_match K U ro p k s = Inr s'"
  shows "\<exists>cc. ConnMap s k = Some cc \<and> ccConn cc = p \<and> ccState cc = ConnStateNone \<and>
   (case find_opponent ro k s of
      None \<Rightarrow> (\<forall>j c. ConnMap s j = Some c \<longrightarrow> ccState c \<noteq> ConnStateMatching)
        \<and> ConnMap s' = (ConnMap s)(k \<mapsto> cc\<lparr>ccState := ConnStateMatching\<rparr>) \<and> games s' = games s
        \<and> queues s (\<lambda>q. if q = p then [Marshal_ServerMatching zero_header] else []) s'
    | Some j \<Rightarrow> \<exists>v table. ConnMap s j = Some v \<and> ccState v = ConnStateMatching \<and> j \<noteq> k \<and> NewDefaultChessTable = Inr table
        \<and> ConnMap s' = (ConnMap s)(j \<mapsto> v\<lparr>ccState := ConnStateGaming, Gcontext := Some (nextGame s)\<rparr>,
            k \<mapsto> cc\<lparr>ccState := ConnStateGaming, Gcontext := Some (nextGame s)\<rparr>)
        \<and> games s' = (games s)(nextGame s \<mapsto> \<lparr>RedConnID = k, BlackConnID = j, gTable = table, TurnNow = GameSideRed\<rparr>)
        \<and> queues s (\<lambda>q. if q = ccConn v then matched_packets GameSideBlack table
            else if q = p then matched_packets GameSideRed table else []) s')"
proof -
  obtain cc where cc: "ConnMap s k = Some cc" "ccState cc = ConnStateNone"
    using on_start_match_inv [OF inv U ro p r] by blast
  note f = chess_invD(1) [OF inv]
  have c: "ccConn cc = p" using entry_of_conn [OF f p cc(1)] by simp
  show ?thesis
  proof (cases "find_opponent ro k s")
    case (Some j)
    with r cc have st: "start_game K U k j s = Inr s'" by (simp add: on_start_match_def deref_cc_def)
    obtain v where v: "ConnMap s j = Some v" "ccState v = ConnStateMatching" "j \<noteq> k"
      using find_opponent_Some [OF f Some] by blast
    from start_game_queues [OF inv cc(1) v(1,3) st] cc c v Some show ?thesis by auto
  next
    case None
    let ?s1 = "upd_cc k (cc\<lparr>ccState := ConnStateMatching\<rparr>) s"
    have sent: "send_packet K U p (Marshal_ServerMatching zero_header) ?s1 = Inr s'"
      using r cc None by (simp add: on_start_match_def deref_cc_def)
    have "ccState d \<noteq> ConnStateMatching" if "ConnMap s j = Some d" for j d
      using find_opponent_None [OF f ro None that] cc that by (cases "j = k") auto
    moreover have "queues s (\<lambda>q. []) ?s1" and f1: "conns_fine {} ?s1" using conns_fine_upd_cc [OF f cc(1)] by simp_all
    note send_queues [OF this(1) sent f1] same_appD [OF send_fine(2) [OF sent f1]]
    ultimately show ?thesis using cc c None by auto
  qed
qed

section \<open>A concrete game\<close>

text \<open>The first turn of a game between connections 0 and 1, whose contexts have the keys 1 and 2.\<close>

definition sample_move :: PacketClientMove where
  "sample_move = \<lparr>hType = None, FromX = 1, FromY = 0, ToX = 2, ToY = 2\<rparr>"

lemma opening_move:
  "DoMove GameSideRed default_table 1 0 2 2 = Inr (moved default_table GameSideRed PieceTypeMa 1 0 2 2, False, True)"
proof -
  have "length default_table = 90" using default_table_ok by (simp add: board_ok_def)
  moreover have "map_option PType (at default_table 1 0) = Some PieceTypeMa"
    "map_option PSide (at default_table 1 0) = Some GameSideRed"
    "at default_table 1 1 = None" "at default_table 2 2 = None" by code_simp+
  ultimately show ?thesis using DoMove_cases [of default_table GameSideRed 1 0 2 2]
    by (auto simp: on_board_def shuai_at_def)
qed

lemma Append_again:
  assumes "buf_inv buf" "readIndex buf = 0"
  obtains buf' where "Append bs buf = Inr buf'" "buf_inv buf'" "readIndex buf' = 0"
proof -
  consider "int (length bs) \<le> int (length (data buf)) - writeIndex buf"
    | "int (length (data buf)) - writeIndex buf < int (length bs)"
      "ReadableBytes buf + int (length bs) \<le> int (length (data buf))"
    | "int (length (data buf)) < ReadableBytes buf + int (length bs)" by linarith
  then show thesis
    using that Append_tail [OF assms(1), of bs] Append_compact [OF assms(1), of bs] Append_grow(1) [OF assms(1), of bs] assms(2)
    by cases auto
qed

lemma sample_game:
  defines "K \<equiv> sample_kernel []" and "ro \<equiv> sample_range" and "n \<equiv> Suc (Suc 0)"
  shows "\<exists>s1 s2 s3 s4. rfold (chess_event_step K ro n) [EvAccept 7 (0, 0), EvAccept 8 (0, 0)] chess_sample = Inr s1
    \<and> on_start_match K (chess_user K ro n) ro 0 1 s1 = Inr s2 \<and> on_start_match K (chess_user K ro n) ro 1 2 s2 = Inr s3
    \<and> on_move K (chess_user K ro n) 1 2 sample_move s3 = Inr s4
    \<and> conn_id 0 s1 = Inr 1 \<and> conn_id 1 s2 = Inr 2 \<and> find_opponent ro 2 s2 = Some 1 \<and> nextGame s2 = 0 \<and> conn_id 1 s3 = Inr 2
    \<and> map_option Gcontext (ConnMap s3 2) = Some (Some 0) \<and> map_option ccConn (ConnMap s3 1) = Some 0
    \<and> games s3 0 = Some \<lparr>RedConnID = 2, BlackConnID = 1, gTable = default_table, TurnNow = GameSideRed\<rparr>
    \<and> chess_inv {} s1 \<and> chess_inv {} s2 \<and> chess_inv {} s3"
proof -
  have t: "NewDefaultChessTable = Inr default_table" by (simp add: new_table_eq)
  let ?m = "DoPackWith4BytesHeader (Marshal_ServerMatching zero_header)"
  let ?b = "DoPackWith4BytesHeader (Marshal_ServerMatchedOK \<lparr>hType = None, matchedSide = GameSideBlack, matchedTable = Some default_table\<rparr>)"
  let ?r = "DoPackWith4BytesHeader (Marshal_ServerMatchedOK \<lparr>hType = None, matchedSide = GameSideRed, matchedTable = Some default_table\<rparr>)"
  let ?t = "moved default_table GameSideRed PieceTypeMa 1 0 2 2"
  let ?y = "DoPackWith4BytesHeader (Marshal_ServerNotifyRemoteMove \<lparr>hType = None, notifyTable = Some ?t\<rparr>)"
  let ?z = "DoPackWith4BytesHeader (Marshal_ServerMoveResp \<lparr>hType = None, respOK = True, TableOnOK = Some ?t, ErrMsgOnFailed = None\<rparr>)"
  obtain b1 where b1: "Append ?m NewBuffer = Inr b1" "buf_inv b1" "readIndex b1 = 0"
    by (rule Append_again [OF NewBuffer_inv]) (simp add: NewBuffer_def)
  obtain b2 where b2: "Append ?m b1 = Inr b2" "buf_inv b2" "readIndex b2 = 0" by (rule Append_again [OF b1(2,3)])
  obtain b3 where b3: "Append ?b b2 = Inr b3" "buf_inv b3" "readIndex b3 = 0" by (rule Append_again [OF b2(2,3)])
  obtain b4 where b4: "Append ?y b3 = Inr b4" by (rule Append_again [OF b3(2,3)])
  obtain c1 where c1: "Append ?r b1 = Inr c1" "buf_inv c1" "readIndex c1 = 0" by (rule Append_again [OF b1(2,3)])
  obtain c2 where c2: "Append ?z c1 = Inr c2" by (rule Append_again [OF c1(2,3)])
  note run = chess_event_step_def accept_conn_def newConnection_def alloc_chan_def Let_def
        setConnectedCallback_def setMessageCallback_def set_conn_def deref_conn_def upd_conn_def upd_chan_def
        RunInLoop_def run_functor_def run_conn_def establishConn_def UpdateChannel_def base_frame chess_sample_def
        channel_ops sample_kernel_def registered_def call_back_def OnConnect_def conn_SetContext_def SetDisConnectedCallback_def
        upd_cc_def upd_game_def sample_range_def send_packet_def Send_def send_in_loop_def
        WritableEvent_def ReadableEvent_def deref_cc_def deref_game_def conn_id_def conn_GetContext_def on_start_match_def start_game_def
        find_opponent_def t on_move_def sample_move_def opening_move default_callback_def
  note bufs = b1(1) b2(1) b3(1) b4 c1(1) c2
  have "case rfold (chess_event_step K ro n) [EvAccept 7 (0, 0), EvAccept 8 (0, 0)] chess_sample of Inl x \<Rightarrow> False
    | Inr s1 \<Rightarrow> conn_id 0 s1 = Inr 1 \<and> (case on_start_match K (chess_user K ro n) ro 0 1 s1 of Inl x \<Rightarrow> False
    | Inr s2 \<Rightarrow> conn_id 1 s2 = Inr 2 \<and> find_opponent ro 2 s2 = Some 1 \<and> nextGame s2 = 0
      \<and> (case on_start_match K (chess_user K ro n) ro 1 2 s2 of Inl x \<Rightarrow> False
    | Inr s3 \<Rightarrow> conn_id 1 s3 = Inr 2 \<and> map_option Gcontext (ConnMap s3 2) = Some (Some 0) \<and> map_option ccConn (ConnMap s3 1) = Some 0
      \<and> games s3 0 = Some \<lparr>RedConnID = 2, BlackConnID = 1, gTable = default_table, TurnNow = GameSideRed\<rparr> \<and> (case on_move K (chess_user K ro n) 1 2 sample_move s3 of Inl x \<Rightarrow> False
    | Inr s4 \<Rightarrow> True)))"
    by (simp add: K_def ro_def n_def run bufs)
  then obtain s1 s2 s3 s4 where s: "rfold (chess_event_step K ro n) [EvAccept 7 (0, 0), EvAccept 8 (0, 0)] chess_sample = Inr s1"
      "on_start_match K (chess_user K ro n) ro 0 1 s1 = Inr s2" "on_start_match K (chess_user K ro n) ro 1 2 s2 = Inr s3"
      "on_move K (chess_user K ro n) 1 2 sample_move s3 = Inr s4"
      and id: "conn_id 0 s1 = Inr 1" "conn_id 1 s2 = Inr 2" "conn_id 1 s3 = Inr 2"
      and rest: "find_opponent ro 2 s2 = Some 1" "nextGame s2 = 0" "map_option Gcontext (ConnMap s3 2) = Some (Some 0)"
        "map_option ccConn (ConnMap s3 1) = Some 0"
        "games s3 0 = Some \<lparr>RedConnID = 2, BlackConnID = 1, gTable = default_table, TurnNow = GameSideRed\<rparr>"
    by (auto split: sum.splits)
  have ro: "range_documented ro" "ctl_documented K" using sample_range_documented sample_ctl by (simp_all add: ro_def K_def)
  have i1: "chess_inv {} s1"
    using chess_events_inv [OF s(1) chess_start_inv [OF chess_sample_inv(1)] chess_sample_inv(2) ro] by (simp add: chess_sample_def)
  have i2: "chess_inv {} s2" using on_start_match_inv [OF i1 chess_user_closes ro(1) id(1) s(2)] by blast
  have i3: "chess_inv {} s3" using on_start_match_inv [OF i2 chess_user_closes ro(1) id(2) s(3)] by blast
  from s id rest i1 i2 i3 show ?thesis by blast
qed

section \<open>Properties\<close>

text \<open>C17. \<^verbatim>\<open>StartMatch\<close>, answered. The client was idle. When nobody waits it becomes the one that waits, and
  is sent \<^verbatim>\<open>Matching\<close>. Otherwise it plays red in a new game with the starting board, red to move, against the client that
  waited, who plays black; both contexts point to the game, and each of the two, in this order, is sent \<^verbatim>\<open>Matching\<close> and
  \<^verbatim>\<open>MatchedOK\<close> with its own side and the board. Nothing is sent to anybody else, and no connection is closed.\<close>

theorem match_made:
  assumes "chess_inv {} s" "range_documented ro" "conn_id p s = Inr k" "on_start_match K (chess_user K ro n) ro p k s = Inr s'"
  shows "\<exists>cc. ConnMap s k = Some cc \<and> ccConn cc = p \<and> ccState cc = ConnStateNone \<and>
   (case find_opponent ro k s of
      None \<Rightarrow> (\<forall>j c. ConnMap s j = Some c \<longrightarrow> ccState c \<noteq> ConnStateMatching)
        \<and> ConnMap s' = (ConnMap s)(k \<mapsto> cc\<lparr>ccState := ConnStateMatching\<rparr>) \<and> games s' = games s
        \<and> queues s (\<lambda>q. if q = p then [Marshal_ServerMatching zero_header] else []) s'
    | Some j \<Rightarrow> \<exists>v table. ConnMap s j = Some v \<and> ccState v = ConnStateMatching \<and> j \<noteq> k \<and> NewDefaultChessTable = Inr table
        \<and> ConnMap s' = (ConnMap s)(j \<mapsto> v\<lparr>ccState := ConnStateGaming, Gcontext := Some (nextGame s)\<rparr>,
            k \<mapsto> cc\<lparr>ccState := ConnStateGaming, Gcontext := Some (nextGame s)\<rparr>)
        \<and> games s' = (games s)(nextGame s \<mapsto> \<lparr>RedConnID = k, BlackConnID = j, gTable = table, TurnNow = GameSideRed\<rparr>)
        \<and> queues s (\<lambda>q. if q = ccConn v then matched_packets GameSideBlack table
            else if q = p then matched_packets GameSideRed table else []) s')"
  by (rule on_start_match_queues [OF assms(1) chess_user_closes assms(2-4)])

text \<open>Concrete run: connection 0 waits, connection 1 starts a match.\<close>

theorem match_made_witness:
  "\<exists>s s'. find_opponent sample_range 2 s = Some 1
    \<and> on_start_match (sample_kernel []) (chess_user (sample_kernel []) sample_range 2) sample_range 1 2 s = Inr s'
    \<and> games s' 0 = Some \<lparr>RedConnID = 2, BlackConnID = 1, gTable = default_table, TurnNow = GameSideRed\<rparr>
    \<and> said 1 s (matched_packets GameSideRed default_table) s'"
proof -
  obtain s s' where s: "on_start_match (sample_kernel []) (chess_user (sample_kernel []) sample_range 2) sample_range 1 2 s = Inr s'"
      "conn_id 1 s = Inr 2" "find_opponent sample_range 2 s = Some 1" "nextGame s = 0" "chess_inv {} s"
    using sample_game unfolding numeral_2_eq_2 by blast
  from match_made [OF s(5) sample_range_documented s(2,1)] s(3) obtain v cc where
    v: "ConnMap s 1 = Some v" "ConnMap s 2 = Some cc" "ccConn cc = 1"
      "games s' = (games s)(nextGame s \<mapsto> \<lparr>RedConnID = 2, BlackConnID = 1, gTable = default_table, TurnNow = GameSideRed\<rparr>)"
      "queues s (\<lambda>q. if q = ccConn v then matched_packets GameSideBlack default_table
            else if q = 1 then matched_packets GameSideRed default_table else []) s'"
    by (auto simp: new_table_eq)
  have "ccConn v \<noteq> 1" using conns_differ [OF chess_invD(1) [OF s(5)] v(1,2)] v(3) by simp
  then have "said 1 s (matched_packets GameSideRed default_table) s'" by (intro queuesD [OF v(5)]) simp
  with s v(4) show ?thesis by (intro exI [of _ s] exI [of _ s']) simp
qed

text \<open>C18. \<^verbatim>\<open>Move\<close>, answered, for a client with a game. It plays, and its opponent has another connection. Out of turn it is told so;
  a move that the rules refuse is refused; both leave everything else alone. A legal move that does not end the game is stored, passes the turn,
  and is sent to both: \<^verbatim>\<open>MoveResp\<close> to the player, \<^verbatim>\<open>NotifyRemoteMove\<close> to the opponent, with the same board. A move that takes the general makes both
  idle and sends \<^verbatim>\<open>GameOver\<close>, with the board and the winner's side, to the loser; to the winner it sends nothing. Nothing is
  sent to anybody else, and no connection is closed.\<close>

theorem move_answered:
  assumes "chess_inv {} s" "conn_id p s = Inr k" "ConnMap s k = Some cc" "Gcontext cc = Some a" "games s a = Some g"
    "on_move K U p k packet s = Inr s'"
  shows "let side = (if BlackConnID g = k then GameSideBlack else GameSideRed);
      rside = (if BlackConnID g = k then GameSideRed else GameSideBlack);
      rem = (if BlackConnID g = k then RedConnID g else BlackConnID g)
    in ccState cc = ConnStateGaming \<and> (\<exists>rc. ConnMap s rem = Some rc \<and> ccConn rc \<noteq> p \<and>
    (if TurnNow g \<noteq> side then ConnMap s' = ConnMap s \<and> games s' = games s
      \<and> queues s (\<lambda>q. if q = p then [move_failed ''it is not your turn''] else []) s'
    else \<exists>table over ok. DoMove side (gTable g) (FromX packet) (FromY packet) (ToX packet) (ToY packet) = Inr (table, over, ok)
      \<and> (if \<not> ok then ConnMap s' = ConnMap s \<and> games s' = games s
          \<and> queues s (\<lambda>q. if q = p then [move_failed ''you cannot move like this''] else []) s'
        else if \<not> over then ConnMap s' = ConnMap s \<and> games s' = (games s)(a \<mapsto> g\<lparr>gTable := table, TurnNow := rside\<rparr>)
          \<and> queues s (\<lambda>q. if q = p then [Marshal_ServerMoveResp \<lparr>hType = None, respOK = True, TableOnOK = Some table,
                ErrMsgOnFailed = None\<rparr>]
              else if q = ccConn rc then [Marshal_ServerNotifyRemoteMove \<lparr>hType = None, notifyTable = Some table\<rparr>] else []) s'
        else ConnMap s' = (ConnMap s)(k \<mapsto> cc\<lparr>ccState := ConnStateNone, Gcontext := None\<rparr>,
              rem \<mapsto> rc\<lparr>ccState := ConnStateNone, Gcontext := None\<rparr>)
          \<and> games s' = (games s)(a \<mapsto> g\<lparr>gTable := table\<rparr>)
          \<and> queues s (\<lambda>q. if q = ccConn rc then [Marshal_ServerGameOver \<lparr>hType = None, overTable = Some table,
                WinnerSide = side\<rparr>] else []) s')))"
  unfolding Let_def by (rule on_move_queues [OF assms(1-5) refl refl refl assms(6)])

text \<open>Concrete run: red, on connection 1, opens the game with its Ma.\<close>

theorem move_answered_witness:
  "\<exists>s s'. on_move (sample_kernel []) (chess_user (sample_kernel []) sample_range 2) 1 2 sample_move s = Inr s'
    \<and> map_option TurnNow (games s 0) = Some GameSideRed \<and> map_option TurnNow (games s' 0) = Some GameSideBlack
    \<and> said 0 s [Marshal_ServerNotifyRemoteMove \<lparr>hType = None,
         notifyTable = Some (moved default_table GameSideRed PieceTypeMa 1 0 2 2)\<rparr>] s'"
proof -
  let ?g = "\<lparr>RedConnID = 2, BlackConnID = 1, gTable = default_table, TurnNow = GameSideRed\<rparr>"
  obtain s s' where s: "on_move (sample_kernel []) (chess_user (sample_kernel []) sample_range 2) 1 2 sample_move s = Inr s'"
      "conn_id 1 s = Inr 2" "map_option Gcontext (ConnMap s 2) = Some (Some 0)" "map_option ccConn (ConnMap s 1) = Some 0"
      "games s 0 = Some ?g" "chess_inv {} s"
    using sample_game unfolding numeral_2_eq_2 by blast
  from s(3) obtain cc where cc: "ConnMap s 2 = Some cc" "Gcontext cc = Some 0" by auto
  have m: "DoMove GameSideRed default_table (FromX sample_move) (FromY sample_move) (ToX sample_move) (ToY sample_move)
      = Inr (moved default_table GameSideRed PieceTypeMa 1 0 2 2, False, True)"
    by (simp add: sample_move_def opening_move)
  let ?t = "moved default_table GameSideRed PieceTypeMa 1 0 2 2"
  obtain rc where rc: "ConnMap s 1 = Some rc" "ccConn rc = 0" using s(4) by auto
  from move_answered [OF s(6,2) cc s(5,1)] rc m
  have g': "games s' = (games s)(0 \<mapsto> ?g\<lparr>gTable := ?t, TurnNow := GameSideBlack\<rparr>)"
    and q: "queues s (\<lambda>q. if q = 1 then [Marshal_ServerMoveResp \<lparr>hType = None, respOK = True, TableOnOK = Some ?t, ErrMsgOnFailed = None\<rparr>]
       else if q = ccConn rc then [Marshal_ServerNotifyRemoteMove \<lparr>hType = None, notifyTable = Some ?t\<rparr>] else []) s'"
    by (simp_all add: Let_def) auto
  have "said 0 s [Marshal_ServerNotifyRemoteMove \<lparr>hType = None, notifyTable = Some ?t\<rparr>] s'"
    by (rule queuesD [OF q]) (simp add: rc)
  with s g' show ?thesis by (intro exI [of _ s] exI [of _ s']) simp
qed

end
