(* ===== verification/Chess_Client.thy ===== *)
theory Chess_Client
  imports Chess_Packets
begin

text \<open>
  The chess client (\<^verbatim>\<open>frontend/main.go\<close>, \<^verbatim>\<open>frontend/tools/draw.go\<close>). Its \<^verbatim>\<open>select\<close> loop is a step
  function on the three variables of \<^verbatim>\<open>main\<close>; which ready case a \<^verbatim>\<open>select\<close> takes is open, so a run is any list of
  events. What the program does to the outside (calls of the console package, writes to the
  connection, lines on standard output, a sleep) is appended to \<open>actions\<close>; \<open>W\<close> answers the writes and
  may depend on all that was done before. The console package is third-party: its calls are
  recorded with their arguments, its constants are names. Text is a list of code points.
\<close>

section \<open>Text\<close>

type_synonym rune = int

definition ascii :: "string \<Rightarrow> rune list" where
  "ascii s = map of_char s"

text \<open>White space, the same set for \<^verbatim>\<open>strings.TrimSpace\<close> and \<^verbatim>\<open>fmt\<close>.\<close>

definition isSpace :: "rune \<Rightarrow> bool" where
  "isSpace r \<longleftrightarrow> 9 \<le> r \<and> r \<le> 13 \<or> 0x2000 \<le> r \<and> r \<le> 0x200A \<or>
     r \<in> {0x20, 0x85, 0xA0, 0x1680, 0x2028, 0x2029, 0x202F, 0x205F, 0x3000}"

definition TrimSpace :: "rune list \<Rightarrow> rune list" where
  "TrimSpace s = rev (dropWhile isSpace (rev (dropWhile isSpace s)))"

text \<open>\<^verbatim>\<open>Sscanf(cmd, "%d %d %d %d", ...)\<close>. Before a number, spaces are skipped and a newline is an error;
  the space of the format matches one or more spaces, none at the end of the input, and no
  newline at first; what follows the last number is ignored.\<close>

fun SkipSpace :: "rune list \<Rightarrow> rune list option" where
  "SkipSpace [] = Some []"
| "SkipSpace (r # s) = (if r = 10 then None else if isSpace r then SkipSpace s else Some (r # s))"

definition isDigit :: "rune \<Rightarrow> bool" where
  "isDigit r \<longleftrightarrow> 48 \<le> r \<and> r \<le> 57"

definition scanInt :: "rune list \<Rightarrow> (int \<times> rune list) option" where
  "scanInt s0 = (case SkipSpace s0 of None \<Rightarrow> None | Some s \<Rightarrow>
     (let (neg, s1) = (case s of [] \<Rightarrow> (False, []) | c # r \<Rightarrow> if c = 45 then (True, r) else if c = 43 then (False, r) else (False, s));
          ds = takeWhile isDigit s1;
          n = fold (\<lambda>d n. 10 * n + (d - 48)) ds 0;
          v = (if neg then - n else n)
      in if ds = [] \<or> \<not> int64 v then None else Some (v, dropWhile isDigit s1)))"

definition scanSpace :: "rune list \<Rightarrow> rune list option" where
  "scanSpace s = (case s of [] \<Rightarrow> Some [] | c # r \<Rightarrow>
     if \<not> isSpace c \<or> c = 10 then None else Some (dropWhile (\<lambda>c. isSpace c \<and> c \<noteq> 10) r))"

fun scanInts :: "nat \<Rightarrow> rune list \<Rightarrow> int list option" where
  "scanInts 0 s = Some []"
| "scanInts (Suc n) s = (case scanInt s of None \<Rightarrow> None | Some (v, r) \<Rightarrow>
     if n = 0 then Some [v] else (case scanSpace r of None \<Rightarrow> None | Some r1 \<Rightarrow>
       map_option (\<lambda>vs. v # vs) (scanInts n r1)))"

section \<open>The console\<close>

datatype console_color = ColorRed | ColorBlue | ColorDarkTurquoise

datatype console_style = DefaultStyle | Foreground console_color

datatype console_item = ItemText "rune list" | ItemStyle console_style

datatype console_call = Clear | SendLineBackWithColor "console_item list" | SendLineBack "rune list"
  | PopBackLine | Stop

section \<open>Drawing\<close>

text \<open>The names of the pieces, by their code points.\<close>

definition getPieceTypeName :: "ChessPoint option \<Rightarrow> rune list res" where
  "getPieceTypeName point =
     (case point of None \<Rightarrow> Inr (ascii ''  '')
      | Some p \<Rightarrow> (case PType p of
            PieceTypeBing \<Rightarrow> Inr [0x5175]
          | PieceTypeChe \<Rightarrow> Inr [0x8F66]
          | PieceTypeMa \<Rightarrow> Inr [0x9A6C]
          | PieceTypePao \<Rightarrow> Inr [0x70AE]
          | PieceTypeShi \<Rightarrow> Inr [0x58EB]
          | PieceTypeShuai \<Rightarrow> Inr [0x5E05]
          | PieceTypeXiang \<Rightarrow> Inr [0x8C61]
          | PieceTypeOther i \<Rightarrow> Inl (PanicMsg ''check here'')))"

definition draw_cell :: "ChessTable \<Rightarrow> int \<Rightarrow> int \<Rightarrow> console_item list res" where
  "draw_cell table x y =
     rbind (GetPoint x y table) (\<lambda>p.
     rbind (getPieceTypeName p) (\<lambda>name.
       Inr ((case p of None \<Rightarrow> [] | Some c \<Rightarrow>
               [ItemStyle (Foreground (if PSide c = GameSideRed then ColorRed else ColorBlue))]) @ [ItemText name])))"

definition draw_row :: "ChessTable \<Rightarrow> int \<Rightarrow> console_item list res" where
  "draw_row table y =
     rbind (rmap (\<lambda>x. draw_cell table x y) [0..8]) (\<lambda>cells.
       Inr (ItemText (ascii (show_int y @ '' '')) # concat cells @ [ItemStyle DefaultStyle, ItemText (ascii (show_int y))]))"

definition columns :: console_call where
  "columns = SendLineBackWithColor [ItemText (ascii ''  0 1 2 3 4 5 6 7 8'')]"

definition river :: console_call where
  "river = SendLineBackWithColor [ItemStyle (Foreground ColorDarkTurquoise),
     ItemText (ascii ''========'' @ [0x695A, 0x6CB3] @ ascii ''========='')]"

definition DrawTable :: "ChessTable \<Rightarrow> string \<Rightarrow> console_call list res" where
  "DrawTable table msg =
     rbind (rmap (\<lambda>y. rbind (draw_row table y) (\<lambda>r.
         Inr (SendLineBackWithColor r # (if y = 5 then [river] else [])))) (rev [0..9])) (\<lambda>rows.
       Inr ([Clear, columns] @ concat rows @ [columns, SendLineBack (ascii msg)]))"

section \<open>The client\<close>

datatype client_state = StateNone | StateMatching | StateGaming | StateOver

datatype client_action = RunConsole | Console console_call | ConnWrite "byte list" "io_error option"
  | Printf string "io_error option" | SleepSeconds int

record chess_client =
  heartbeatLoseCount :: int
  cstate :: client_state
  myTurn :: bool
  actions :: "client_action list"

datatype client_event = CmdEvent "rune list" | ErrEvent io_error | PacketEvent "packet option" | TickEvent

definition ClientMaxLoseHeartbeat :: int where
  "ClientMaxLoseHeartbeat = 5"

definition act :: "client_action list \<Rightarrow> chess_client \<Rightarrow> chess_client" where
  "act xs c = c\<lparr>actions := actions c @ xs\<rparr>"

definition conn_write :: "(client_action list \<Rightarrow> byte list \<Rightarrow> io_error option) \<Rightarrow> byte list \<Rightarrow> chess_client
    \<Rightarrow> io_error option \<times> chess_client" where
  "conn_write W bs c = (let err = W (actions c) bs in (err, act [ConnWrite bs err] c))"

text \<open>A turn of the loop: \<^const>\<open>True\<close> when it goes on, \<^const>\<open>False\<close> when \<^verbatim>\<open>main\<close> returns.\<close>

definition on_command :: "(client_action list \<Rightarrow> byte list \<Rightarrow> io_error option) \<Rightarrow> rune list \<Rightarrow> chess_client
    \<Rightarrow> (bool \<times> chess_client) res" where
  "on_command W cmd c =
     (if TrimSpace cmd = ascii ''quit'' then Inr (False, act [Console Stop] c)
      else if cstate c = StateGaming then
        (case scanInts 4 cmd of
           Some [fromX, fromY, toX, toY] \<Rightarrow>
             (case conn_write W (DoPackWith4BytesHeader (Marshal_ClientMove
                 \<lparr>hType = None, FromX = fromX, FromY = fromY, ToX = toX, ToY = toY\<rparr>)) c of (err, c1) \<Rightarrow>
                if err \<noteq> None then Inr (False, act [Console Stop, Printf ''network error: '' err] c1) else Inr (True, c1))
         | _ \<Rightarrow> Inr (True, act [Console PopBackLine, Console (SendLineBack (ascii ''invalid input''))] c))
      else Inr (True, c))"

definition draw :: "ChessTable option \<Rightarrow> string \<Rightarrow> chess_client \<Rightarrow> chess_client res" where
  "draw t msg c = (case t of None \<Rightarrow> Inl NilDeref
     | Some table \<Rightarrow> rbind (DrawTable table msg) (\<lambda>calls. Inr (act (map Console calls) c)))"

definition on_packet :: "packet option \<Rightarrow> chess_client \<Rightarrow> (bool \<times> chess_client) res" where
  "on_packet p c =
     (case p of
        Some (PServerMatchedOK packet) \<Rightarrow>
          if cstate c \<noteq> StateMatching then Inl (PanicMsg ''protocol error'')
          else
            (let red = (matchedSide packet = GameSideRed);
                 msg = (if red then ''it is your turn, red one'' else ''it is not your turn, you are purple one'')
             in rbind (draw (matchedTable packet) msg (c\<lparr>cstate := StateGaming, myTurn := red\<rparr>)) (\<lambda>c1. Inr (True, c1)))
      | Some (PacketServerMatching h) \<Rightarrow> Inr (True, c\<lparr>cstate := StateMatching\<rparr>)
      | Some (PServerMoveResp packet) \<Rightarrow>
          if \<not> respOK packet then
            (case ErrMsgOnFailed packet of None \<Rightarrow> Inl NilDeref
             | Some msg \<Rightarrow> Inr (True, act [Console PopBackLine, Console (SendLineBack (ascii msg))] c))
          else rbind (draw (TableOnOK packet) ''it is not your turn'' c) (\<lambda>c1. Inr (True, c1\<lparr>myTurn := False\<rparr>))
      | Some (PServerGameOver packet) \<Rightarrow>
          rbind (draw (overTable packet) (''game over, winner is '' @ (if myTurn c then ''you'' else ''him''))
              (c\<lparr>cstate := StateOver\<rparr>)) (\<lambda>c1. Inr (False, act [SleepSeconds 10, Console Stop] c1))
      | Some (PacketHeartbeat h) \<Rightarrow> Inr (True, c\<lparr>heartbeatLoseCount := 0\<rparr>)
      | Some (PacketServerRemoteLoseConnection h) \<Rightarrow>
          Inr (False, act [Console Stop, Printf ''remote player closed connection'' None] c)
      | Some (PServerNotifyRemoteMove packet) \<Rightarrow>
          rbind (draw (notifyTable packet) ''it is your turn'' (c\<lparr>myTurn := True\<rparr>)) (\<lambda>c1. Inr (True, c1))
      | _ \<Rightarrow> Inr (True, c))"

definition on_tick :: "(client_action list \<Rightarrow> byte list \<Rightarrow> io_error option) \<Rightarrow> chess_client
    \<Rightarrow> (bool \<times> chess_client) res" where
  "on_tick W c =
     (let c1 = c\<lparr>heartbeatLoseCount := heartbeatLoseCount c + 1\<rparr>
      in if heartbeatLoseCount c1 \<ge> ClientMaxLoseHeartbeat
         then Inr (False, act [Console Stop, Printf ''network error: connection lost'' None] c1)
         else (case conn_write W (DoPackWith4BytesHeader (Marshal_Heartbeat zero_header)) c1 of (err, c2) \<Rightarrow>
                if err \<noteq> None then Inr (False, act [Console Stop, Printf ''network error: '' err] c2) else Inr (True, c2)))"

definition client_turn :: "(client_action list \<Rightarrow> byte list \<Rightarrow> io_error option) \<Rightarrow> client_event \<Rightarrow> chess_client
    \<Rightarrow> (bool \<times> chess_client) res" where
  "client_turn W e c =
     (case e of
        CmdEvent cmd \<Rightarrow> on_command W cmd c
      | ErrEvent err \<Rightarrow> Inr (False, act [Console Stop, Printf ''error happened: '' (Some err)] c)
      | PacketEvent p \<Rightarrow> on_packet p c
      | TickEvent \<Rightarrow> on_tick W c)"

text \<open>The loop on the events that \<^verbatim>\<open>select\<close> finds, until \<^verbatim>\<open>main\<close> returns or no event is left.\<close>

primrec client_loop :: "(client_action list \<Rightarrow> byte list \<Rightarrow> io_error option) \<Rightarrow> client_event list \<Rightarrow> chess_client
    \<Rightarrow> (bool \<times> chess_client) res" where
  "client_loop W [] c = Inr (True, c)"
| "client_loop W (e # es) c =
     rbind (client_turn W e c) (\<lambda>(go, c1). if go then client_loop W es c1 else Inr (False, c1))"

text \<open>The goroutine that reads packets: what it sends on \<^verbatim>\<open>readFromConnChan\<close>, and the error it ends with. Each
  packet uses up the four bytes of its header at least.\<close>

function conn_reader :: "net_conn \<Rightarrow> packet option list \<times> io_error" where
  "conn_reader conn =
     (case ReadPacketBytesWith4BytesHeader conn of
        (Inl err, c1) \<Rightarrow> ([], err)
      | (Inr packetBytes, c1) \<Rightarrow> (case conn_reader c1 of (ps, err) \<Rightarrow> (ClientParse packetBytes # ps, err)))"
  by pat_completeness auto

lemma ReadPacket_less:
  assumes "ReadPacketBytesWith4BytesHeader c = (Inr p, c1)"
  shows "length (concat (chunks c1)) < length (concat (chunks c))"
proof -
  have read: "concat (chunks d1) = drop n (concat (chunks d))" "n = length bs" "n \<le> length (concat (chunks d))"
    if "io_ReadFull n d = (bs, None, d1)" for n d bs d1
    using that read_loop_stream [of n "chunks d"]
    by (auto simp: io_ReadFull_def split: prod.splits if_splits)
  from assms obtain bs c0 where "io_ReadFull 4 c = (bs, None, c0)"
      and "io_ReadFull (unat (Uint32 bs)) c0 = (p, None, c1)"
    by (auto simp: ReadPacketBytesWith4BytesHeader_def split: prod.splits option.splits)
  from read [OF this(1)] read [OF this(2)] show ?thesis by simp
qed

termination conn_reader
  by (relation "measure (\<lambda>c. length (concat (chunks c)))") (auto dest: ReadPacket_less [OF sym])

declare conn_reader.simps [simp del]

definition client_main :: "(client_action list \<Rightarrow> byte list \<Rightarrow> io_error option) \<Rightarrow> io_error option \<Rightarrow> client_event list
    \<Rightarrow> (bool \<times> chess_client) res" where
  "client_main W dial es =
     (let c = \<lparr>heartbeatLoseCount = 0, cstate = StateNone, myTurn = False, actions = []\<rparr>
      in if dial \<noteq> None then Inr (False, act [Printf ''failed to dial to server: '' dial] c)
         else
           (case conn_write W (DoPackWith4BytesHeader (Marshal_ClientStartMatch zero_header)) c of (err, c1) \<Rightarrow>
              if err \<noteq> None then Inr (False, act [Printf ''network error: '' err] c1)
              else client_loop W es (act [RunConsole, Console (SendLineBack (ascii ''matching...''))] c1)))"

section \<open>What is drawn\<close>

text \<open>A table that can be drawn has the 90 points of the array and known pieces only.\<close>

definition drawable :: "ChessTable \<Rightarrow> bool" where
  "drawable t \<longleftrightarrow> length t = 90 \<and>
     list_all (\<lambda>p. case p of None \<Rightarrow> True | Some c \<Rightarrow> is_ok (getPieceTypeName (Some c))) t"

text \<open>Reading a row back from the screen: a coloured name is a piece, a blank is an empty point.\<close>

definition read_name :: "rune list \<Rightarrow> PieceType" where
  "read_name n = (if n = [0x5175] then PieceTypeBing else if n = [0x8F66] then PieceTypeChe
     else if n = [0x9A6C] then PieceTypeMa else if n = [0x70AE] then PieceTypePao
     else if n = [0x58EB] then PieceTypeShi else if n = [0x5E05] then PieceTypeShuai else PieceTypeXiang)"

fun read_cells :: "console_item list \<Rightarrow> (PieceType \<times> bool) option list" where
  "read_cells (ItemText n # r) = None # read_cells r"
| "read_cells (ItemStyle (Foreground c) # ItemText n # r) = Some (read_name n, c = ColorRed) # read_cells r"
| "read_cells r = []"

definition row_of :: "ChessTable \<Rightarrow> int \<Rightarrow> (PieceType \<times> bool) option list" where
  "row_of t y = map (\<lambda>x. map_option (\<lambda>p. (PType p, PSide p = GameSideRed)) (at t x y)) [0..8]"

lemma known_name:
  assumes "is_ok (getPieceTypeName (Some c))"
  obtains n where "getPieceTypeName (Some c) = Inr n" "read_name n = PType c"
    "\<And>X Y s. getPieceTypeName (Some \<lparr>PX = X, PY = Y, PType = PType c, PSide = s\<rparr>) = Inr n"
  using assms by (cases "PType c") (auto simp: getPieceTypeName_def read_name_def)

lemma drawable_at:
  assumes "drawable t" "on_board x y" "at t x y = Some c"
  shows "is_ok (getPieceTypeName (Some c))"
proof -
  have "Some c \<in> set t" using assms idx_bound [OF assms(2)] nth_mem [of "idx x y" t] by (simp add: drawable_def at_def)
  with assms(1) show ?thesis by (auto simp: drawable_def list_all_iff)
qed

lemma draw_cell_read:
  assumes "drawable t" "on_board x y"
  obtains items where "draw_cell t x y = Inr items"
    "\<And>r. read_cells (items @ r) = map_option (\<lambda>p. (PType p, PSide p = GameSideRed)) (at t x y) # read_cells r"
proof (cases "at t x y")
  case None
  with that [of "[ItemText (ascii ''  '')]"] assms show ?thesis
    by (simp add: draw_cell_def GetPoint_at drawable_def getPieceTypeName_def)
next
  case (Some c)
  obtain n where n: "read_name n = PType c"
      "\<And>X Y s. getPieceTypeName (Some \<lparr>PX = X, PY = Y, PType = PType c, PSide = s\<rparr>) = Inr n"
    using known_name [OF drawable_at [OF assms Some]] by metis
  then show ?thesis
    using that [of "[ItemStyle (Foreground (if PSide c = GameSideRed then ColorRed else ColorBlue)), ItemText n]"]
      Some assms
    by (auto simp: draw_cell_def GetPoint_at drawable_def)
qed

lemma draw_cells_read:
  assumes "drawable t" "\<And>x. x \<in> set xs \<Longrightarrow> on_board x y"
  shows "\<exists>cells. rmap (\<lambda>x. draw_cell t x y) xs = Inr cells \<and> (\<forall>r. read_cells (concat cells @ r)
    = map (\<lambda>x. map_option (\<lambda>p. (PType p, PSide p = GameSideRed)) (at t x y)) xs @ read_cells r)"
  using assms(2)
proof (induction xs)
  case (Cons x xs)
  then obtain cells where c: "rmap (\<lambda>x. draw_cell t x y) xs = Inr cells"
    "\<And>r. read_cells (concat cells @ r)
       = map (\<lambda>x. map_option (\<lambda>p. (PType p, PSide p = GameSideRed)) (at t x y)) xs @ read_cells r" by auto
  have "on_board x y" using Cons.prems by simp
  with assms(1) obtain items where "draw_cell t x y = Inr items"
    "\<And>r. read_cells (items @ r) = map_option (\<lambda>p. (PType p, PSide p = GameSideRed)) (at t x y) # read_cells r"
    by (rule draw_cell_read) blast
  with c show ?case by simp
qed simp

lemma draw_row_read:
  assumes "drawable t" "0 \<le> y" "y \<le> 9"
  shows "\<exists>cells. draw_row t y = Inr (ItemText (ascii (show_int y @ '' '')) # cells
      @ [ItemStyle DefaultStyle, ItemText (ascii (show_int y))])
    \<and> read_cells (cells @ [ItemStyle DefaultStyle, ItemText (ascii (show_int y))]) = row_of t y"
proof -
  have "\<And>x. x \<in> set [0..8] \<Longrightarrow> on_board x y" using assms by (simp add: on_board_def)
  from draw_cells_read [OF assms(1), of "[0..8]" y, OF this] show ?thesis by (auto simp: draw_row_def row_of_def)
qed

lemma rmap_rows:
  "(\<And>y. y \<in> set ys \<Longrightarrow> draw_row t y = Inr (r y)) \<Longrightarrow>
     rmap (\<lambda>y. rbind (draw_row t y) (\<lambda>r. Inr (SendLineBackWithColor r # (if y = 5 then [river] else [])))) ys
       = Inr (map (\<lambda>y. SendLineBackWithColor (r y) # (if y = 5 then [river] else [])) ys)"
  by (rule rmap_map) simp

lemma rows_down: "rev [0..9 :: int] = [9, 8, 7, 6, 5, 4, 3, 2, 1, 0]"
  by code_simp

definition rows_shown :: "ChessTable \<Rightarrow> string \<Rightarrow> (int \<Rightarrow> console_item list) \<Rightarrow> bool" where
  "rows_shown t msg r \<longleftrightarrow>
     DrawTable t msg = Inr ([Clear, columns] @ map (\<lambda>y. SendLineBackWithColor (r y)) [9, 8, 7, 6, 5] @ [river]
       @ map (\<lambda>y. SendLineBackWithColor (r y)) [4, 3, 2, 1, 0] @ [columns, SendLineBack (ascii msg)])"

lemma DrawTable_rows:
  assumes "drawable t"
  obtains r where "rows_shown t msg r"
    "\<forall>y. 0 \<le> y \<and> y \<le> 9 \<longrightarrow> hd (r y) = ItemText (ascii (show_int y @ '' '')) \<and> read_cells (tl (r y)) = row_of t y"
proof -
  define r where "r y = projr (draw_row t y)" for y
  have r: "draw_row t y = Inr (r y) \<and> hd (r y) = ItemText (ascii (show_int y @ '' ''))
      \<and> read_cells (tl (r y)) = row_of t y" if "0 \<le> y" "y \<le> 9" for y
    using draw_row_read [OF assms that] by (auto simp: r_def)
  have "\<And>y. y \<in> set (rev [0..9]) \<Longrightarrow> draw_row t y = Inr (r y)" using r by simp
  from rmap_rows [of "rev [0..9]" t r, OF this] have "rows_shown t msg r"
    by (simp only: rows_shown_def DrawTable_def rows_down) simp
  with r that show thesis by blast
qed

text \<open>A table of 90 points with an unknown piece cannot be drawn.\<close>

lemma is_ok_draw_cell:
  assumes "length t = 90" "on_board x y"
  shows "is_ok (draw_cell t x y) \<longleftrightarrow> (case at t x y of None \<Rightarrow> True | Some c \<Rightarrow> is_ok (getPieceTypeName (Some c)))"
  using assms by (cases "at t x y") (auto simp: draw_cell_def GetPoint_at is_ok_rbind getPieceTypeName_def
      split: PieceType.splits)

lemma board_points:
  assumes "length t = 90"
  shows "list_all P t \<longleftrightarrow> (\<forall>y \<in> set (rev [0..9]). \<forall>x \<in> set [0..8]. P (at t x y))"
proof
  assume "list_all P t"
  then have "P (t ! i)" if "i < 90" for i using assms that by (simp add: list_all_length)
  then show "\<forall>y \<in> set (rev [0..9]). \<forall>x \<in> set [0..8]. P (at t x y)"
    using idx_bound by (simp add: at_def on_board_def)
next
  assume P: "\<forall>y \<in> set (rev [0..9]). \<forall>x \<in> set [0..8]. P (at t x y)"
  have "P (t ! i)" if "i < 90" for i
  proof -
    have "idx (int (i mod 9)) (int (i div 9)) = i" by (simp add: idx_def nat_add_distrib nat_mult_distrib)
    moreover have "i mod 9 \<le> 8" "i div 9 \<le> 9" using that by presburger+
    then have "int (i mod 9) \<in> set [0..8]" "int (i div 9) \<in> set (rev [0..9])" by simp_all
    then have "P (at t (int (i mod 9)) (int (i div 9)))" using P by blast
    ultimately show ?thesis by (simp add: at_def)
  qed
  then show "list_all P t" using assms by (simp add: list_all_length)
qed

lemma DrawTable_ok:
  assumes "length t = 90"
  shows "is_ok (DrawTable t msg) \<longleftrightarrow> drawable t"
proof -
  have "is_ok (draw_cell t x y) \<longleftrightarrow> (case at t x y of None \<Rightarrow> True | Some c \<Rightarrow> is_ok (getPieceTypeName (Some c)))"
    if "x \<in> set [0..8]" "y \<in> set (rev [0..9])" for x y
    by (rule is_ok_draw_cell [OF assms]) (use that in \<open>simp add: on_board_def\<close>)
  note cell = this
  have "is_ok (DrawTable t msg) \<longleftrightarrow> (\<forall>y \<in> set (rev [0..9]). \<forall>x \<in> set [0..8].
      case at t x y of None \<Rightarrow> True | Some c \<Rightarrow> is_ok (getPieceTypeName (Some c)))"
    by (simp only: DrawTable_def draw_row_def is_ok_rbind is_ok_rmap is_ok.simps simp_thms)
      (intro ball_cong refl cell)
  also have "\<dots> \<longleftrightarrow> drawable t"
    unfolding drawable_def using assms board_points [OF assms] by simp
  finally show ?thesis .
qed

lemma DrawTable_panic:
  assumes "length t = 90" "\<not> drawable t"
  shows "DrawTable t msg = Inl (PanicMsg ''check here'')"
proof -
  obtain e where e: "DrawTable t msg = Inl e"
    using DrawTable_ok [OF assms(1), of msg] assms(2) by (cases "DrawTable t msg") auto
  then obtain y where y: "y \<in> set (rev [0..9])" "draw_row t y = Inl e"
    by (auto simp: DrawTable_def rbind_eq_Inl dest!: rmap_Inl)
  then obtain x where "x \<in> set [0..8]" "draw_cell t x y = Inl e"
    by (auto simp: draw_row_def rbind_eq_Inl dest!: rmap_Inl)
  with y have "draw_cell t x y = Inl e" "on_board x y" by (simp_all add: on_board_def)
  with e assms(1) show ?thesis
    by (auto simp: draw_cell_def GetPoint_at rbind_eq_Inl getPieceTypeName_def split: option.splits PieceType.splits)
qed

section \<open>Typed numbers\<close>

definition blank :: "rune list \<Rightarrow> bool" where
  "blank s \<longleftrightarrow> list_all (\<lambda>r. isSpace r \<and> r \<noteq> 10) s"

lemma digit_rune: "is_digit c \<Longrightarrow> isDigit (of_char c) \<and> (of_char c :: int) - 48 = int (code c - 48)"
proof -
  assume "is_digit c"
  moreover have "(of_char c :: int) = int (code c)" by (simp only: of_nat_of_char)
  ultimately show ?thesis by (auto simp: is_digit_def isDigit_def simp del: of_nat_of_char)
qed

lemma digits_runes:
  assumes "list_all is_digit cs"
  shows "list_all isDigit (ascii cs)"
    and "fold (\<lambda>d n. 10 * n + (d - 48)) (ascii cs) (int k) = int (fold (\<lambda>c n. 10 * n + (code c - 48)) cs k)"
  using assms
proof (induction cs arbitrary: k)
  case (Cons c cs)
  { case 1 then show ?case using Cons.IH digit_rune by (simp add: ascii_def) }
  { case 2
    then show ?case using Cons.IH(2) [of "10 * k + (code c - 48)"] digit_rune [of c]
      by (simp add: ascii_def) }
qed (simp_all add: ascii_def)

lemma SkipSpace_blank: "blank sp \<Longrightarrow> SkipSpace (sp @ s) = SkipSpace s"
  by (induction sp) (auto simp: blank_def)

lemma isDigit_plain: "isDigit r \<Longrightarrow> \<not> isSpace r \<and> r \<noteq> 10 \<and> r \<noteq> 43 \<and> r \<noteq> 45"
  by (auto simp: isDigit_def isSpace_def)

lemma minus_rune: "(of_char (CHR ''-'') :: int) = 45"
  by simp

lemma take_digits:
  assumes "list_all isDigit ds" "r = [] \<or> \<not> isDigit (hd r)"
  shows "takeWhile isDigit (ds @ r) = ds" "dropWhile isDigit (ds @ r) = r"
  using assms by (induction ds; cases r; auto)+

text \<open>A number that was typed is read, up to the first rune that is no digit.\<close>

lemma scanInt_show:
  assumes "int64 i" "blank sp" "r = [] \<or> \<not> isDigit (hd r)"
  shows "scanInt (sp @ ascii (show_int i) @ r) = Some (i, r)"
proof -
  define ds where "ds = ascii (show_nat (nat \<bar>i\<bar>))"
  have d: "list_all isDigit ds" "fold (\<lambda>d n. 10 * n + (d - 48)) ds 0 = \<bar>i\<bar>"
    using digits_runes(1) [OF show_nat_digits, of "nat \<bar>i\<bar>"] digits_runes(2) [OF show_nat_digits, of "nat \<bar>i\<bar>" 0]
      parse_show_nat [of "nat \<bar>i\<bar>"]
    by (simp_all add: ds_def parse_nat_def)
  obtain e es where e: "ds = e # es" using show_nat_ne by (cases ds) (auto simp: ds_def ascii_def)
  then have ne: "ds \<noteq> []" by simp
  have ed: "isDigit e" using d(1) e by simp
  show ?thesis
  proof (cases "i < 0")
    case True
    then have "ascii (show_int i) = 45 # ds" by (simp add: show_int_def ascii_def ds_def)
    with True assms d show ?thesis
      using take_digits [OF d(1) assms(3)] by (simp add: scanInt_def SkipSpace_blank isSpace_def ne)
  next
    case False
    then have "ascii (show_int i) = ds" by (simp add: show_int_def ds_def)
    with False assms d isDigit_plain [OF ed] show ?thesis
      using take_digits [OF d(1) assms(3)]
      by (simp add: scanInt_def SkipSpace_blank e)
  qed
qed

text \<open>Four numbers with white space before each, and anything but a digit after the last.\<close>

definition typed :: "rune list \<Rightarrow> int \<Rightarrow> rune list" where
  "typed sp i = sp @ ascii (show_int i)"

lemma show_int_rune:
  obtains c cs where "ascii (show_int i) = c # cs" "\<not> isSpace c" "c \<noteq> 10" "c \<noteq> of_char CHR ''q''"
proof -
  obtain c cs where c: "show_int i = c # cs" "c = CHR ''-'' \<or> is_digit c" by (rule show_int_Cons)
  then have "of_char c = (45 :: int) \<or> isDigit (of_char c)" using digit_rune [of c] by auto
  then have "\<not> isSpace (of_char c) \<and> of_char c \<noteq> (10 :: int) \<and> (of_char c :: int) \<noteq> of_char CHR ''q''"
    using isDigit_plain [of "of_char c"] by (auto simp: isSpace_def isDigit_def)
  with c that [of "of_char c" "map of_char cs"] show thesis by (simp add: ascii_def)
qed

lemma scanSpace_typed:
  assumes "blank (b # sp)"
  shows "scanSpace (typed (b # sp) i @ r) = Some (typed [] i @ r)"
proof -
  obtain c cs where c: "ascii (show_int i) = c # cs" "\<not> isSpace c" by (rule show_int_rune)
  have "dropWhile (\<lambda>c. isSpace c \<and> c \<noteq> 10) (sp @ ascii (show_int i) @ r) = ascii (show_int i) @ r"
    using assms c by (simp add: blank_def list_all_iff)
  with assms show ?thesis by (simp add: scanSpace_def typed_def blank_def)
qed

lemma scanInts_typed:
  assumes "int64 i" "blank sp" "r = [] \<or> \<not> isDigit (hd r)"
  shows "scanInts (Suc n) (typed sp i @ r) = (if n = 0 then Some [i] else
    (case scanSpace r of None \<Rightarrow> None | Some r1 \<Rightarrow> map_option (\<lambda>vs. i # vs) (scanInts n r1)))"
  using scanInt_show [OF assms] by (simp add: typed_def)

lemma scan_move:
  assumes "int64 a" "int64 b" "int64 c" "int64 d" "blank s0" "blank (b1 # s1)" "blank (b2 # s2)" "blank (b3 # s3)"
    "r = [] \<or> \<not> isDigit (hd r)"
  shows "scanInts 4 (typed s0 a @ typed (b1 # s1) b @ typed (b2 # s2) c @ typed (b3 # s3) d @ r) = Some [a, b, c, d]"
proof -
  have sep: "typed (x # s) v @ t = [] \<or> \<not> isDigit (hd (typed (x # s) v @ t))" if "blank (x # s)" for x s v t
    using that isDigit_plain [of x] by (auto simp: typed_def blank_def)
  have n: "blank []" by (simp add: blank_def)
  have four: "(4 :: nat) = Suc (Suc (Suc (Suc 0)))" by simp
  show ?thesis unfolding four
    by (simp add: scanInts_typed [OF assms(1,5) sep [OF assms(6)]] scanInts_typed [OF assms(2) n sep [OF assms(7)]]
        scanInts_typed [OF assms(3) n sep [OF assms(8)]] scanInts_typed [OF assms(4) n assms(9)] scanSpace_typed
        assms(6-8) del: scanInts.simps)
qed

text \<open>A frame with a move is short.\<close>

lemma length_show_nat: "n < 10 ^ Suc k \<Longrightarrow> length (show_nat n) \<le> Suc k"
proof (induction k arbitrary: n)
  case 0
  then show ?case by (subst show_nat.simps) simp
next
  case (Suc k)
  then have "length (show_nat (n div 10)) \<le> Suc k" by (simp add: Suc.IH)
  then show ?case by (subst show_nat.simps) simp
qed

lemma length_show_int:
  assumes "int64 i"
  shows "length (show_int i) \<le> 20"
proof -
  have "nat \<bar>i\<bar> < 10 ^ Suc 18" using assms by (auto simp: int64_def nat_less_iff)
  from length_show_nat [OF this] show ?thesis by (cases "i < 0") (simp_all add: show_int_def)
qed

lemma length_move:
  assumes "int64 (FromX m)" "int64 (FromY m)" "int64 (ToX m)" "int64 (ToY m)"
  shows "length (Marshal_ClientMove m) \<le> 200"
  using assms [THEN length_show_int] length_show_int [of 4]
  by (simp add: Marshal_ClientMove_def Marshal_def bytes_of_def show_json_def enc_type_def enc_ptr_def jint_def
      quote_char_def)

lemma TrimSpace_keep:
  assumes "dropWhile isSpace s = c # cs" "\<not> isSpace c"
  shows "\<exists>t. TrimSpace s = c # t"
proof (cases "\<forall>x \<in> set (rev cs). isSpace x")
  case True
  then have "dropWhile isSpace (rev cs @ [c]) = [c]" using assms(2)
    by (subst dropWhile_append2) auto
  with assms(1) show ?thesis by (simp add: TrimSpace_def)
next
  case False
  then obtain x where "x \<in> set (rev cs)" "\<not> isSpace x" by blast
  then have "dropWhile isSpace (rev cs @ [c]) = dropWhile isSpace (rev cs) @ [c]" by (rule dropWhile_append1)
  with assms(1) show ?thesis by (simp add: TrimSpace_def)
qed

lemma typed_no_quit:
  assumes "blank sp"
  shows "TrimSpace (typed sp i @ r) \<noteq> ascii ''quit''"
proof -
  obtain c cs where c: "ascii (show_int i) = c # cs" "\<not> isSpace c" "c \<noteq> of_char CHR ''q''" by (rule show_int_rune)
  have "dropWhile isSpace (typed sp i @ r) = c # cs @ r"
    using assms c(1,2) by (simp add: typed_def blank_def list_all_iff)
  from TrimSpace_keep [OF this c(2)] c(3) show ?thesis by (auto simp: ascii_def)
qed

definition move_packet :: "int \<Rightarrow> int \<Rightarrow> int \<Rightarrow> int \<Rightarrow> PacketClientMove" where
  "move_packet a b c d = \<lparr>hType = None, FromX = a, FromY = b, ToX = c, ToY = d\<rparr>"

lemma move_frame:
  assumes "int64 a" "int64 b" "int64 c" "int64 d" "length rest \<le> 2 ^ 31"
  shows "IsBytesCompleteWith4BytesHeader (DoPackWith4BytesHeader (Marshal_ClientMove (move_packet a b c d)) @ rest)
      = Inr (Some (Marshal_ClientMove (move_packet a b c d)))
    \<and> ServerParse (Marshal_ClientMove (move_packet a b c d))
      = Some (PClientMove \<lparr>hType = Some 4, FromX = a, FromY = b, ToX = c, ToY = d\<rparr>)"
proof
  let ?b = "Marshal_ClientMove (move_packet a b c d)"
  have l: "length ?b \<le> 200" using assms by (intro length_move) (simp_all add: move_packet_def)
  have "unat (Uint32 (DoPackWith4BytesHeader ?b @ rest)) = length ?b" by (rule unat_header) (use l in simp)
  with l assms(5) show "IsBytesCompleteWith4BytesHeader (DoPackWith4BytesHeader ?b @ rest) = Inr (Some ?b)"
    by (simp add: IsBytesComplete_cases) (simp add: DoPackWith4BytesHeader_def)
  show "ServerParse ?b = Some (PClientMove \<lparr>hType = Some 4, FromX = a, FromY = b, ToX = c, ToY = d\<rparr>)"
    using ServerParse_ClientMove [of "move_packet a b c d"] assms(1-4) by (simp add: move_packet_def)
qed

section \<open>Properties of the screen and of commands\<close>

text \<open>C25. The board on the screen is the board. A table is drawn exactly when its pieces are known; the
  screen is cleared, then come the column numbers, the rows 9 to 5, the river, the rows 4 to 0, the
  column numbers and the message. Row \<open>y\<close> starts with its number and reads back, point by point, as
  the piece's type and side at \<open>(0, y)\<close> to \<open>(8, y)\<close>, or an empty point.\<close>

theorem draw_faithful:
  assumes "length t = 90"
  shows "if drawable t
    then \<exists>r. DrawTable t msg = Inr ([Clear, columns] @ map (\<lambda>y. SendLineBackWithColor (r y)) [9, 8, 7, 6, 5] @ [river]
           @ map (\<lambda>y. SendLineBackWithColor (r y)) [4, 3, 2, 1, 0] @ [columns, SendLineBack (ascii msg)])
      \<and> (\<forall>y. 0 \<le> y \<and> y \<le> 9 \<longrightarrow> hd (r y) = ItemText (ascii (show_int y @ '' '')) \<and> read_cells (tl (r y)) =
           map (\<lambda>x. map_option (\<lambda>p. (PType p, PSide p = GameSideRed)) (at t x y)) [0..8])
    else DrawTable t msg = Inl (PanicMsg ''check here'')"
proof (cases "drawable t")
  case True
  then obtain r where "rows_shown t msg r"
      "\<forall>y. 0 \<le> y \<and> y \<le> 9 \<longrightarrow> hd (r y) = ItemText (ascii (show_int y @ '' '')) \<and> read_cells (tl (r y)) = row_of t y"
    by (rule DrawTable_rows)
  then show ?thesis using True by (auto simp: rows_shown_def row_of_def)
next
  case False
  then show ?thesis using DrawTable_panic [OF assms] by simp
qed

theorem draw_faithful_witness:
  "drawable default_table
   \<and> (\<exists>r. (\<forall>y. 0 \<le> y \<and> y \<le> 9 \<longrightarrow> hd (r y) = ItemText (ascii (show_int y @ '' '')) \<and> read_cells (tl (r y)) =
        map (\<lambda>x. map_option (\<lambda>p. (PType p, PSide p = GameSideRed)) (at default_table x y)) [0..8])
      \<and> DrawTable default_table ''go'' = Inr ([Clear, columns]
        @ map (\<lambda>y. SendLineBackWithColor (r y)) [9, 8, 7, 6, 5] @ [river]
        @ map (\<lambda>y. SendLineBackWithColor (r y)) [4, 3, 2, 1, 0] @ [columns, SendLineBack (ascii ''go'')]))
   \<and> DrawTable (replicate 89 None @ [Some \<lparr>PX = 8, PY = 9, PType = PieceTypeOther 7, PSide = GameSideRed\<rparr>]) ''go''
      = Inl (PanicMsg ''check here'')"
proof -
  have d: "drawable default_table" "length default_table = 90" by code_simp+
  let ?t = "replicate 89 None @ [Some \<lparr>PX = 8, PY = 9, PType = PieceTypeOther 7, PSide = GameSideRed\<rparr>]"
  have "length ?t = 90" "\<not> drawable ?t" by (simp_all add: drawable_def getPieceTypeName_def)
  with draw_faithful [of ?t "''go''"] draw_faithful [OF d(2), of "''go''"] d(1) show ?thesis by auto
qed

text \<open>C23. A move that is typed arrives. In a running game, four integers of 64 bits with white space between
  them, whatever stands before them in blanks and after them, are sent as one frame. However the stream goes
  on, the server takes exactly this frame off its front and parses it as the move typed. When the write
  fails, the client stops its console, reports the error and ends.\<close>

theorem typed_move_arrives:
  assumes "cstate st = StateGaming" "int64 a" "int64 b" "int64 c" "int64 d"
    "blank s0" "blank (b1 # s1)" "blank (b2 # s2)" "blank (b3 # s3)" "r = [] \<or> \<not> isDigit (hd r)"
  shows "\<exists>frame. on_command W (s0 @ ascii (show_int a) @ (b1 # s1) @ ascii (show_int b) @ (b2 # s2) @ ascii (show_int c)
        @ (b3 # s3) @ ascii (show_int d) @ r) st =
      (case W (actions st) frame of
         None \<Rightarrow> Inr (True, st\<lparr>actions := actions st @ [ConnWrite frame None]\<rparr>)
       | Some e \<Rightarrow> Inr (False, st\<lparr>actions := actions st @
           [ConnWrite frame (Some e), Console Stop, Printf ''network error: '' (Some e)]\<rparr>))
    \<and> (\<forall>rest. length rest \<le> 2 ^ 31 \<longrightarrow>
        (\<exists>body. IsBytesCompleteWith4BytesHeader (frame @ rest) = Inr (Some body) \<and> frame @ rest = take 4 frame @ body @ rest
          \<and> ServerParse body = Some (PClientMove \<lparr>hType = Some 4, FromX = a, FromY = b, ToX = c, ToY = d\<rparr>)))"
proof -
  let ?m = "move_packet a b c d"
  let ?f = "DoPackWith4BytesHeader (Marshal_ClientMove ?m)"
  note q = typed_no_quit [OF assms(6)]
  have "on_command W (typed s0 a @ typed (b1 # s1) b @ typed (b2 # s2) c @ typed (b3 # s3) d @ r) st =
      (case W (actions st) ?f of
         None \<Rightarrow> Inr (True, st\<lparr>actions := actions st @ [ConnWrite ?f None]\<rparr>)
       | Some e \<Rightarrow> Inr (False, st\<lparr>actions := actions st @
           [ConnWrite ?f (Some e), Console Stop, Printf ''network error: '' (Some e)]\<rparr>))"
    using assms(1) by (simp add: on_command_def q scan_move [OF assms(2-10)] conn_write_def act_def move_packet_def
        Let_def split: option.split)
  moreover have "\<exists>body. IsBytesCompleteWith4BytesHeader (?f @ rest) = Inr (Some body) \<and> ?f @ rest = take 4 ?f @ body @ rest
      \<and> ServerParse body = Some (PClientMove \<lparr>hType = Some 4, FromX = a, FromY = b, ToX = c, ToY = d\<rparr>)"
    if "length rest \<le> 2 ^ 31" for rest
    using move_frame [OF assms(2-5) that] by (simp add: DoPackWith4BytesHeader_def)
  ultimately show ?thesis by (auto simp: typed_def)
qed

theorem typed_move_arrives_witness:
  "\<exists>frame. on_command (\<lambda>_ _. None) (ascii '' 2 0  2 -2x'') \<lparr>heartbeatLoseCount = 0, cstate = StateGaming,
        myTurn = True, actions = []\<rparr>
      = Inr (True, \<lparr>heartbeatLoseCount = 0, cstate = StateGaming, myTurn = True, actions = [ConnWrite frame None]\<rparr>)
    \<and> (\<exists>body. IsBytesCompleteWith4BytesHeader (frame @ [0, 0]) = Inr (Some body)
      \<and> ServerParse body = Some (PClientMove \<lparr>hType = Some 4, FromX = 2, FromY = 0, ToX = 2, ToY = - 2\<rparr>))"
proof -
  have t: "ascii '' 2 0  2 -2x'' = [32] @ ascii (show_int 2) @ [32] @ ascii (show_int 0) @ [32, 32] @ ascii (show_int 2)
      @ [32] @ ascii (show_int (- 2)) @ [120]"
    by code_simp
  have "int64 2" "int64 0" "int64 (- 2)" "blank [32]" "blank [32, 32]" "\<not> isDigit (hd [120])"
    by (simp_all add: int64_def blank_def isSpace_def isDigit_def)
  with typed_move_arrives [of "\<lparr>heartbeatLoseCount = 0, cstate = StateGaming, myTurn = True, actions = []\<rparr>"
      2 0 2 "- 2" "[32]" 32 "[]" 32 "[32]" 32 "[]" "[120]" "\<lambda>_ _. None"]
  obtain frame where "on_command (\<lambda>_ _. None) (ascii '' 2 0  2 -2x'') \<lparr>heartbeatLoseCount = 0, cstate = StateGaming,
        myTurn = True, actions = []\<rparr>
      = Inr (True, \<lparr>heartbeatLoseCount = 0, cstate = StateGaming, myTurn = True, actions = [ConnWrite frame None]\<rparr>)"
    "\<forall>rest. length rest \<le> 2 ^ 31 \<longrightarrow> (\<exists>body. IsBytesCompleteWith4BytesHeader (frame @ rest) = Inr (Some body)
      \<and> frame @ rest = take 4 frame @ body @ rest
      \<and> ServerParse body = Some (PClientMove \<lparr>hType = Some 4, FromX = 2, FromY = 0, ToX = 2, ToY = - 2\<rparr>))"
    unfolding t by auto
  moreover have "length [0, 0 :: byte] \<le> 2 ^ 31" by simp
  ultimately show ?thesis by blast
qed

end
