(* ===== verification/Chess_Session.thy ===== *)
theory Chess_Session
  imports Chess_Client
begin

text \<open>
  Runs of the chess client: the packets it can take without a panic, as a protocol automaton on
  its \<^verbatim>\<open>state\<close> variable; how a run ends; the stream that the reader goroutine cuts into packets.
\<close>

section \<open>The protocol the client expects\<close>

definition drawable_ptr :: "ChessTable option \<Rightarrow> bool" where
  "drawable_ptr t = (case t of None \<Rightarrow> False | Some table \<Rightarrow> drawable table)"

fun follows :: "client_state \<Rightarrow> packet option list \<Rightarrow> bool" where
  "follows st [] = True"
| "follows st (p # ps) =
     (case p of
        Some (PServerMatchedOK m) \<Rightarrow> st = StateMatching \<and> drawable_ptr (matchedTable m) \<and> follows StateGaming ps
      | Some (PacketServerMatching h) \<Rightarrow> follows StateMatching ps
      | Some (PServerMoveResp r) \<Rightarrow>
          (if respOK r then drawable_ptr (TableOnOK r) else ErrMsgOnFailed r \<noteq> None) \<and> follows st ps
      | Some (PServerGameOver g) \<Rightarrow> drawable_ptr (overTable g)
      | Some (PacketServerRemoteLoseConnection h) \<Rightarrow> True
      | Some (PServerNotifyRemoteMove n) \<Rightarrow> drawable_ptr (notifyTable n) \<and> follows st ps
      | _ \<Rightarrow> follows st ps)"

fun packets_of :: "client_event list \<Rightarrow> packet option list" where
  "packets_of [] = []"
| "packets_of (e # es) = (case e of PacketEvent p \<Rightarrow> p # packets_of es | _ \<Rightarrow> packets_of es)"

text \<open>The array behind a pointer to a table has 90 points.\<close>

definition points90 :: "ChessTable option \<Rightarrow> bool" where
  "points90 t \<longleftrightarrow> (case t of None \<Rightarrow> True | Some t \<Rightarrow> length t = 90)"

definition sized :: "packet option \<Rightarrow> bool" where
  "sized p = (case p of
      Some (PServerMatchedOK m) \<Rightarrow> points90 (matchedTable m)
    | Some (PServerMoveResp r) \<Rightarrow> points90 (TableOnOK r)
    | Some (PServerGameOver g) \<Rightarrow> points90 (overTable g)
    | Some (PServerNotifyRemoteMove n) \<Rightarrow> points90 (notifyTable n)
    | _ \<Rightarrow> True)"

lemma drawable_ok: "drawable t \<Longrightarrow> is_ok (DrawTable t msg)"
  by (rule DrawTable_ok [THEN iffD2]) (simp_all add: drawable_def)

lemma draw_ok:
  assumes "drawable_ptr t"
  obtains f where "\<And>msg c. draw t msg c = Inr (act (f msg) c)"
proof -
  obtain table where t: "t = Some table" "drawable table" using assms by (auto simp: drawable_ptr_def split: option.splits)
  then have "draw t msg c = Inr (act (map Console (projr (DrawTable table msg))) c)" for msg c
    using drawable_ok [of table msg] by (auto simp: draw_def is_ok_iff)
  with that [of "\<lambda>msg. map Console (projr (DrawTable table msg))"] show thesis by blast
qed

text \<open>Drawing, for any pointer the client can have.\<close>

definition drawn :: "ChessTable option \<Rightarrow> string \<Rightarrow> client_action list" where
  "drawn t msg = map Console (projr (DrawTable (the t) msg))"

lemma draw_eq:
  "points90 t \<Longrightarrow> draw t msg c = (if drawable_ptr t then Inr (act (drawn t msg) c)
     else Inl (if t = None then NilDeref else PanicMsg ''check here''))"
  using drawable_ok [of "the t" msg]
  by (auto simp: draw_def drawable_ptr_def drawn_def points90_def DrawTable_panic is_ok_iff split: option.splits)

lemma cstate_act [simp]: "cstate (act xs c) = cstate c"
  by (simp add: act_def)

text \<open>A turn: when it goes on, the rest must follow from the state it leaves.\<close>

lemma packet_turn:
  assumes "follows (cstate c) (p # ps)"
  shows "\<exists>go c1. on_packet p c = Inr (go, c1) \<and> (go \<longrightarrow> follows (cstate c1) ps)"
proof (cases p)
  case (Some q)
  show ?thesis
  proof (cases q)
    case (PServerMatchedOK m)
    with assms Some have "drawable_ptr (matchedTable m)" by simp
    then obtain f where "\<And>msg c. draw (matchedTable m) msg c = Inr (act (f msg) c)" using draw_ok by blast
    with PServerMatchedOK assms Some show ?thesis by (auto simp: on_packet_def Let_def)
  next
    case (PServerMoveResp m)
    show ?thesis
    proof (cases "respOK m")
      case True
      with assms Some PServerMoveResp have "drawable_ptr (TableOnOK m)" by simp
      then obtain f where "\<And>msg c. draw (TableOnOK m) msg c = Inr (act (f msg) c)" using draw_ok by blast
      with PServerMoveResp assms Some True show ?thesis by (auto simp: on_packet_def)
    next
      case False
      with PServerMoveResp assms Some show ?thesis by (auto simp: on_packet_def)
    qed
  next
    case (PServerGameOver m)
    with assms Some have "drawable_ptr (overTable m)" by simp
    then obtain f where "\<And>msg c. draw (overTable m) msg c = Inr (act (f msg) c)" using draw_ok by blast
    with PServerGameOver assms Some show ?thesis by (auto simp: on_packet_def)
  next
    case (PServerNotifyRemoteMove m)
    with assms Some have "drawable_ptr (notifyTable m)" by simp
    then obtain f where "\<And>msg c. draw (notifyTable m) msg c = Inr (act (f msg) c)" using draw_ok by blast
    with PServerNotifyRemoteMove assms Some show ?thesis by (auto simp: on_packet_def)
  qed (use assms Some in \<open>auto simp: on_packet_def\<close>)
qed (use assms in \<open>auto simp: on_packet_def\<close>)

text \<open>What a turn does to the outside: as long as the loop goes on, it does not stop the console and no write
  fails; when it ends, it stops the console once and only prints afterwards.\<close>

definition quiet :: "client_action list \<Rightarrow> bool" where
  "quiet xs \<longleftrightarrow> (\<forall>x \<in> set xs. x \<noteq> Console Stop \<and> (\<forall>bs e. x \<noteq> ConnWrite bs (Some e)) \<and> (\<forall>m e. x \<noteq> Printf m e))"

definition lost :: client_action where
  "lost = Printf ''network error: connection lost'' None"

lemma lost_other [simp]: "lost \<noteq> Console k" "Console k \<noteq> lost" "lost \<noteq> SleepSeconds n" "lost \<noteq> ConnWrite bs e"
  by (simp_all add: lost_def)

fun ends :: "client_action list \<Rightarrow> bool" where
  "ends [] \<longleftrightarrow> False"
| "ends (x # xs) \<longleftrightarrow> (if x = Console Stop then \<forall>z \<in> set xs. \<exists>m e. z = Printf m e else ends xs)"

definition proper :: "bool \<Rightarrow> client_action list \<Rightarrow> bool" where
  "proper go xs \<longleftrightarrow> (if go then quiet xs else ends xs)"

lemma ends_split:
  "ends xs \<Longrightarrow> \<exists>ys zs. xs = ys @ Console Stop # zs \<and> Console Stop \<notin> set ys \<and> (\<forall>z \<in> set zs. \<exists>m e. z = Printf m e)"
proof (induction xs)
  case (Cons x xs)
  show ?case
  proof (cases "x = Console Stop")
    case True
    with Cons.prems show ?thesis by (intro exI [of _ "[]"] exI [of _ xs]) auto
  next
    case False
    with Cons obtain ys zs where "xs = ys @ Console Stop # zs" "Console Stop \<notin> set ys"
        "\<forall>z \<in> set zs. \<exists>m e. z = Printf m e" by auto
    with False show ?thesis by (intro exI [of _ "x # ys"] exI [of _ zs]) auto
  qed
qed simp

lemma ends_append: "quiet xs \<Longrightarrow> ends (xs @ ys) \<longleftrightarrow> ends ys"
  by (induction xs) (auto simp: quiet_def)

lemma quiet_append [simp]: "quiet (xs @ ys) \<longleftrightarrow> quiet xs \<and> quiet ys"
  by (simp add: quiet_def ball_Un)

lemma proper_append: "quiet xs \<Longrightarrow> proper go ys \<Longrightarrow> proper go (xs @ ys)"
  by (simp add: proper_def ends_append)

lemma act_act [simp]: "act ys (act xs c) = act (xs @ ys) c"
  by (simp add: act_def)

lemma act_Nil [simp]: "act [] c = c"
  by (simp add: act_def)

lemma actions_act [simp]: "actions (act xs c) = actions c @ xs"
  by (simp add: act_def)

lemma heartbeatLoseCount_act [simp]: "heartbeatLoseCount (act xs c) = heartbeatLoseCount c"
  by (simp add: act_def)

fun four :: "'a list option \<Rightarrow> bool" where
  "four (Some [a, b, c, d]) \<longleftrightarrow> True"
| "four m \<longleftrightarrow> False"

lemma case_four:
  "(\<And>a b c d. m \<noteq> Some [a, b, c, d]) \<Longrightarrow> (case m of Some [a, b, c, d] \<Rightarrow> f a b c d | _ \<Rightarrow> g) = g"
  by (cases m rule: four.cases) auto

lemma write_acts:
  "\<exists>go xs. (case conn_write W bs c of (err, c1) \<Rightarrow>
       if err \<noteq> None then Inr (False, act [Console Stop, Printf m err] c1) else Inr (True, c1))
     = Inr (go, act xs c) \<and> proper go xs \<and> lost \<notin> set xs"
proof (cases "W (actions c) bs")
  case None
  then show ?thesis
    by (intro exI [of _ True] exI [of _ "[ConnWrite bs None]"]) (simp add: conn_write_def Let_def proper_def quiet_def lost_def)
next
  case (Some e)
  then show ?thesis
    by (intro exI [of _ False] exI [of _ "[ConnWrite bs (Some e), Console Stop, Printf m (Some e)]"])
      (simp add: conn_write_def Let_def proper_def lost_def)
qed

lemma on_command_acts: "\<exists>go xs. on_command W cmd c = Inr (go, act xs c) \<and> proper go xs \<and> lost \<notin> set xs"
proof (cases "TrimSpace cmd = ascii ''quit''")
  case True
  then show ?thesis
    by (intro exI [of _ False] exI [of _ "[Console Stop]"]) (simp add: on_command_def proper_def lost_def)
next
  case quit: False
  show ?thesis
  proof (cases "cstate c = StateGaming")
    case True
    show ?thesis
    proof (cases "\<exists>x y x' y'. scanInts 4 cmd = Some [x, y, x', y']")
      case s: True
      then obtain x y x' y' where "scanInts 4 cmd = Some [x, y, x', y']" by blast
      then have "on_command W cmd c = (case conn_write W (DoPackWith4BytesHeader (Marshal_ClientMove
            \<lparr>hType = None, FromX = x, FromY = y, ToX = x', ToY = y'\<rparr>)) c of (err, c1) \<Rightarrow>
         if err \<noteq> None then Inr (False, act [Console Stop, Printf ''network error: '' err] c1) else Inr (True, c1))"
        using quit True by (simp add: on_command_def)
      then show ?thesis by (simp only: write_acts)
    next
      case False
      then have "on_command W cmd c =
          Inr (True, act [Console PopBackLine, Console (SendLineBack (ascii ''invalid input''))] c)"
        using True quit by (simp add: on_command_def case_four)
      then show ?thesis
        by (intro exI [of _ True] exI [of _ "[Console PopBackLine, Console (SendLineBack (ascii ''invalid input''))]"])
          (simp add: proper_def quiet_def lost_def)
    qed
  next
    case False
    then show ?thesis using quit
      by (intro exI [of _ True] exI [of _ "[]"]) (simp add: on_command_def proper_def quiet_def lost_def)
  qed
qed

lemma on_tick_acts:
  "\<exists>go xs. on_tick W c = Inr (go, act xs (c\<lparr>heartbeatLoseCount := heartbeatLoseCount c + 1\<rparr>)) \<and> proper go xs
     \<and> (if heartbeatLoseCount c + 1 < ClientMaxLoseHeartbeat then lost \<notin> set xs else \<not> go)"
proof (cases "heartbeatLoseCount c + 1 < ClientMaxLoseHeartbeat")
  case True
  then show ?thesis
    using write_acts [where W = W and bs = "DoPackWith4BytesHeader (Marshal_Heartbeat zero_header)"
        and c = "c\<lparr>heartbeatLoseCount := heartbeatLoseCount c + 1\<rparr>" and m = "''network error: ''"]
    by (auto simp: on_tick_def Let_def)
next
  case False
  then show ?thesis
    by (intro exI [of _ False] exI [of _ "[Console Stop, Printf ''network error: connection lost'' None]"])
      (simp add: on_tick_def Let_def proper_def)
qed

text \<open>Ticks since the last heartbeat of the server.\<close>

definition tick_count :: "client_event \<Rightarrow> int \<Rightarrow> int" where
  "tick_count e n = (case e of TickEvent \<Rightarrow> n + 1 | PacketEvent (Some (PacketHeartbeat h)) \<Rightarrow> 0 | _ \<Rightarrow> n)"

definition silence :: "client_event list \<Rightarrow> int" where
  "silence es = fold tick_count es 0"

lemma DrawTable_quiet: "DrawTable t msg = Inr calls \<Longrightarrow> quiet (map Console calls)"
proof -
  have "Stop \<notin> set (concat rows)" if
    "rmap (\<lambda>y. rbind (draw_row t y) (\<lambda>r. Inr (SendLineBackWithColor r # (if y = 5 then [river] else [])))) ys = Inr rows"
    for ys rows
    using that by (induction ys arbitrary: rows) (auto simp: rbind_eq_Inr river_def split: if_splits)
  moreover assume "DrawTable t msg = Inr calls"
  ultimately show ?thesis by (auto simp: DrawTable_def rbind_eq_Inr quiet_def columns_def)
qed

lemma draw_acts: "draw t msg c = Inr c1 \<Longrightarrow> \<exists>xs. c1 = act xs c \<and> quiet xs"
  by (auto simp: draw_def rbind_eq_Inr DrawTable_quiet split: option.splits)

lemma on_packet_acts:
  assumes "on_packet p c = Inr (go, c1)"
  shows "\<exists>xs. actions c1 = actions c @ xs \<and> proper go xs \<and> lost \<notin> set xs
    \<and> heartbeatLoseCount c1 = tick_count (PacketEvent p) (heartbeatLoseCount c)"
proof -
  have q: "lost \<notin> set xs \<and> proper True xs" "lost \<notin> set (xs @ [SleepSeconds 10, Console Stop])
      \<and> proper False (xs @ [SleepSeconds 10, Console Stop])" if "quiet xs" for xs
    using that by (auto simp: quiet_def lost_def proper_def ends_append)
  have n: "quiet []" "quiet [Console PopBackLine, Console (SendLineBack m)]" for m by (simp_all add: quiet_def)
  show ?thesis
  proof (cases p)
    case None
    then show ?thesis using assms q [OF n(1)] by (auto simp: on_packet_def tick_count_def)
  next
    case (Some pk)
    then show ?thesis
    proof (cases pk)
      case (PServerMoveResp r)
      then show ?thesis using assms Some q n
        by (auto simp: on_packet_def tick_count_def rbind_eq_Inr split: if_splits option.splits dest!: draw_acts)
    next
      case (PacketServerRemoteLoseConnection h)
      then show ?thesis using assms Some by (auto simp: on_packet_def tick_count_def lost_def proper_def)
    qed (use assms Some q n in \<open>auto simp: on_packet_def tick_count_def rbind_eq_Inr Let_def split: if_splits dest!: draw_acts\<close>)
  qed
qed

lemma turn_acts:
  assumes "client_turn W e c = Inr (go, c1)"
  shows "\<exists>xs. actions c1 = actions c @ xs \<and> proper go xs
    \<and> (if go then heartbeatLoseCount c1 = tick_count e (heartbeatLoseCount c)
         \<and> (heartbeatLoseCount c < ClientMaxLoseHeartbeat \<longrightarrow> heartbeatLoseCount c1 < ClientMaxLoseHeartbeat)
       else lost \<in> set xs \<longrightarrow> ClientMaxLoseHeartbeat \<le> tick_count e (heartbeatLoseCount c))"
proof (cases e)
  case (CmdEvent cmd)
  with assms on_command_acts [of W cmd c] show ?thesis by (auto simp: client_turn_def tick_count_def)
next
  case (ErrEvent err)
  with assms show ?thesis by (auto simp: client_turn_def proper_def lost_def)
next
  case (PacketEvent p)
  with assms have "on_packet p c = Inr (go, c1)" by (simp add: client_turn_def)
  from on_packet_acts [OF this] PacketEvent show ?thesis
    by (auto simp: tick_count_def ClientMaxLoseHeartbeat_def split: option.splits packet.splits)
next
  case TickEvent
  with assms on_tick_acts [of W c] show ?thesis
    by (auto simp: client_turn_def tick_count_def split: if_splits)
qed

lemma loop_acts:
  assumes "client_loop W es c = Inr (go, c1)" "heartbeatLoseCount c < ClientMaxLoseHeartbeat"
  shows "\<exists>xs. actions c1 = actions c @ xs \<and> proper go xs
    \<and> (if go then heartbeatLoseCount c1 = fold tick_count es (heartbeatLoseCount c)
         \<and> (\<forall>k. fold tick_count (take k es) (heartbeatLoseCount c) < ClientMaxLoseHeartbeat)
       else lost \<in> set xs \<longrightarrow> (\<exists>k. ClientMaxLoseHeartbeat \<le> fold tick_count (take k es) (heartbeatLoseCount c)))"
  using assms
proof (induction es arbitrary: c)
  case Nil
  then show ?case by (auto simp: proper_def quiet_def)
next
  case (Cons e es)
  from Cons.prems(1) obtain go1 c2 where t: "client_turn W e c = Inr (go1, c2)"
      and r: "if go1 then client_loop W es c2 = Inr (go, c1) else \<not> go \<and> c1 = c2"
    by (auto simp: rbind_eq_Inr split: if_splits)
  obtain xs where xs: "actions c2 = actions c @ xs" "proper go1 xs"
      "if go1 then heartbeatLoseCount c2 = tick_count e (heartbeatLoseCount c)
         \<and> (heartbeatLoseCount c < ClientMaxLoseHeartbeat \<longrightarrow> heartbeatLoseCount c2 < ClientMaxLoseHeartbeat)
       else lost \<in> set xs \<longrightarrow> ClientMaxLoseHeartbeat \<le> tick_count e (heartbeatLoseCount c)"
    using turn_acts [OF t] by blast
  show ?case
  proof (cases go1)
    case False
    then show ?thesis using xs r by (auto intro: exI [of _ 1])
  next
    case True
    with xs Cons.prems(2) have h: "heartbeatLoseCount c2 = tick_count e (heartbeatLoseCount c)"
      "heartbeatLoseCount c2 < ClientMaxLoseHeartbeat" by simp_all
    from Cons.IH [OF _ h(2)] r True obtain ys where ys: "actions c1 = actions c2 @ ys" "proper go ys"
      "if go then heartbeatLoseCount c1 = fold tick_count es (heartbeatLoseCount c2)
         \<and> (\<forall>k. fold tick_count (take k es) (heartbeatLoseCount c2) < ClientMaxLoseHeartbeat)
       else lost \<in> set ys \<longrightarrow> (\<exists>k. ClientMaxLoseHeartbeat \<le> fold tick_count (take k es) (heartbeatLoseCount c2))" by auto
    have q: "quiet xs" using xs(2) True by (simp add: proper_def)
    then have "lost \<notin> set xs" by (auto simp: quiet_def lost_def)
    moreover have "fold tick_count (take (Suc k) (e # es)) n = fold tick_count (take k es) (tick_count e n)" for k n by simp
    moreover have "fold tick_count (take k (e # es)) (heartbeatLoseCount c) < ClientMaxLoseHeartbeat"
      if "\<forall>k. fold tick_count (take k es) (heartbeatLoseCount c2) < ClientMaxLoseHeartbeat" for k
      using that h Cons.prems(2) by (cases k) simp_all
    ultimately show ?thesis using xs(1) ys h(1) proper_append [OF q ys(2)]
      by (intro exI [of _ "xs @ ys"]) (auto simp del: take_Suc_Cons; metis)
  qed
qed

section \<open>What the reader goroutine delivers\<close>

definition dec_keeps :: "('a \<Rightarrow> bool) \<Rightarrow> 'a dec \<Rightarrow> bool" where
  "dec_keeps P d \<longleftrightarrow> (\<forall>j x. P x \<longrightarrow> P (fst (d j x)))"

text \<open>A decoder of a struct dec_keeps what the decoders of its fields keep.\<close>

lemma dec_field_keeps: "list_all (\<lambda>(f, d). dec_keeps P d) fs \<Longrightarrow> P x \<Longrightarrow> P (fst (dec_field fs k j x))"
  by (induction fs) (auto simp: dec_keeps_def)

lemma dec_members_keeps:
  assumes "list_all (\<lambda>(f, d). dec_keeps P d) fs" "P x"
  shows "P (fst (dec_members fs kvs x))"
  using assms(2)
proof (induction kvs arbitrary: x)
  case (Cons kv kvs)
  obtain k j where kv: "kv = (k, j)" by fastforce
  from Cons.IH [OF dec_field_keeps [OF assms(1) Cons.prems, of k j]] show ?case by (simp add: kv case_prod_beta)
qed simp

lemma struct_keeps:
  assumes "list_all (\<lambda>(f, d). dec_keeps P d) fs" "P x"
  shows "P (fst (Unmarshal (dec_struct fs) bs x))"
proof -
  have "P (fst (dec_struct fs v x))" for v
    using dec_members_keeps [OF assms] assms(2) by (cases v) auto
  then show ?thesis using assms(2) by (simp add: Unmarshal_def split: option.split)
qed

lemma length_dec_elems [simp]: "length (fst (dec_elems z d js xs)) = length xs"
  by (induction z d js xs rule: dec_elems.induct) (auto split: prod.split)

lemma dec_table_90: "points90 t \<Longrightarrow> points90 (fst (dec_table j t))"
proof -
  assume "points90 t"
  moreover have "length xs = 90 \<Longrightarrow> length (fst (dec_array None (dec_ptr zero_point dec_point) j xs)) = 90" for xs
    by (cases j) simp_all
  ultimately show ?thesis
    by (auto simp: dec_table_def dec_ptr_def points90_def case_prod_beta split: option.splits)
qed

text \<open>Whatever bytes arrive, the tables of a parsed packet have 90 points.\<close>

lemma parsed_sized: "sized (ClientParse bs)"
proof -
  have keep: "list_all (\<lambda>(f, d). dec_keeps (\<lambda>m. points90 (matchedTable m)) d)
      [f_type, (''game_side'', dec_on matchedSide (\<lambda>x r. r\<lparr>matchedSide := x\<rparr>) dec_side),
       (''game_table'', dec_on matchedTable (\<lambda>x r. r\<lparr>matchedTable := x\<rparr>) dec_table)]"
    "list_all (\<lambda>(f, d). dec_keeps (\<lambda>m. points90 (TableOnOK m)) d)
     [f_type, (''ok'', dec_on respOK (\<lambda>x r. r\<lparr>respOK := x\<rparr>) dec_bool),
      (''table'', dec_on TableOnOK (\<lambda>x r. r\<lparr>TableOnOK := x\<rparr>) dec_table),
      (''errmsg'', dec_on ErrMsgOnFailed (\<lambda>x r. r\<lparr>ErrMsgOnFailed := x\<rparr>) (dec_ptr [] dec_string))]"
    "list_all (\<lambda>(f, d). dec_keeps (\<lambda>m. points90 (overTable m)) d)
     [f_type, (''final_table'', dec_on overTable (\<lambda>x r. r\<lparr>overTable := x\<rparr>) dec_table),
      (''winner_side'', dec_on WinnerSide (\<lambda>x r. r\<lparr>WinnerSide := x\<rparr>) dec_side)]"
    "list_all (\<lambda>(f, d). dec_keeps (\<lambda>m. points90 (notifyTable m)) d)
     [f_type, (''Table'', dec_on notifyTable (\<lambda>x r. r\<lparr>notifyTable := x\<rparr>) dec_table)]"
    using dec_table_90 by (auto simp: f_type_def dec_keeps_def dec_on_def split: prod.splits) (metis fst_conv)+
  have p: "points90 None" by (simp add: points90_def)
  have t: "points90 (matchedTable (fst (Unmarshal dec_ServerMatchedOK bs \<lparr>hType = None, matchedSide = GameSideRed, matchedTable = None\<rparr>)))"
    "points90 (TableOnOK (fst (Unmarshal dec_ServerMoveResp bs
       \<lparr>hType = None, respOK = False, TableOnOK = None, ErrMsgOnFailed = None\<rparr>)))"
    "points90 (overTable (fst (Unmarshal dec_ServerGameOver bs \<lparr>hType = None, overTable = None, WinnerSide = GameSideRed\<rparr>)))"
    "points90 (notifyTable (fst (Unmarshal dec_ServerNotifyRemoteMove bs \<lparr>hType = None, notifyTable = None\<rparr>)))"
    unfolding dec_ServerMatchedOK_def dec_ServerMoveResp_def dec_ServerGameOver_def dec_ServerNotifyRemoteMove_def
    by (rule struct_keeps [OF keep(1)] struct_keeps [OF keep(2)] struct_keeps [OF keep(3)] struct_keeps [OF keep(4)],
        simp add: p)+
  then show ?thesis by (simp add: ClientParse_def sized_def points90_def split: prod.split option.split)
qed

lemma reader_sized: "list_all sized (fst (conn_reader conn))"
proof (induction conn rule: conn_reader.induct)
  case (1 conn)
  then show ?case by (subst conn_reader.simps) (auto simp: parsed_sized split: sum.splits prod.splits)
qed

text \<open>A stream of packed packets is parsed packet by packet, however it is cut.\<close>

lemma reader_frames:
  assumes "concat (chunks conn) = concat (map DoPackWith4BytesHeader bodies)" "\<forall>b \<in> set bodies. length b < 2 ^ 32"
  shows "conn_reader conn = (map ClientParse bodies, conn_err conn)"
  using assms
proof (induction bodies arbitrary: conn)
  case Nil
  then have e: "concat (chunks conn) = []" by simp
  have "\<exists>c1. io_ReadFull 4 conn = ([], Some (conn_err conn), c1)"
    using io_ReadFull_short [of conn 4, unfolded e] by simp
  then show ?case by (subst conn_reader.simps) (auto simp: ReadPacketBytesWith4BytesHeader_def)
next
  case (Cons b bodies)
  have "concat (chunks conn) = DoPackWith4BytesHeader b @ concat (map DoPackWith4BytesHeader bodies)" "length b < 2 ^ 32"
    using Cons.prems by simp_all
  from ReadPacket_frame [OF this] obtain c1 where "ReadPacketBytesWith4BytesHeader conn = (Inr b, c1)"
    "concat (chunks c1) = concat (map DoPackWith4BytesHeader bodies)" "conn_err c1 = conn_err conn" by blast
  with Cons.IH [of c1] Cons.prems(2) show ?case by (subst conn_reader.simps) simp
qed

text \<open>A packet that does not follow is a panic.\<close>

lemma packet_panics:
  assumes "\<not> follows (cstate c) (p # ps)" "sized p" "on_packet p c = Inr (go, c1)"
  shows "go \<and> \<not> follows (cstate c1) ps"
proof (cases p)
  case (Some q)
  then show ?thesis
  proof (cases q)
    case (PServerMoveResp m)
    with assms Some show ?thesis
      by (auto simp: on_packet_def rbind_eq_Inr sized_def draw_eq split: if_splits option.splits)
  qed (use assms Some in \<open>auto simp: on_packet_def Let_def rbind_eq_Inr sized_def draw_eq split: if_splits\<close>)
qed (use assms in \<open>auto simp: on_packet_def\<close>)

lemma client_panics:
  assumes "\<not> follows (cstate c) ps" "list_all sized ps"
  shows "\<not> is_ok (client_loop W (map PacketEvent ps) c)"
  using assms
proof (induction ps arbitrary: c)
  case (Cons p ps)
  show ?case
  proof (cases "on_packet p c")
    case (Inr r)
    then obtain go c1 where r: "on_packet p c = Inr (go, c1)" by (cases r) simp
    from packet_panics [OF Cons.prems(1) _ r] Cons.prems(2) have "go \<and> \<not> follows (cstate c1) ps" by simp
    with Cons.IH [of c1] Cons.prems(2) show ?thesis by (simp add: client_turn_def r)
  qed (simp add: client_turn_def)
qed simp

text \<open>Packets that follow are no panic, with anything in between.\<close>

lemma other_turn:
  assumes "\<forall>p. e \<noteq> PacketEvent p"
  shows "\<exists>go c1. client_turn W e c = Inr (go, c1) \<and> cstate c1 = cstate c"
proof (cases e)
  case (CmdEvent cmd)
  then show ?thesis using on_command_acts [of W cmd c] by (auto simp: client_turn_def)
next
  case TickEvent
  then show ?thesis using on_tick_acts [of W c] by (auto simp: client_turn_def)
qed (use assms in \<open>auto simp: client_turn_def\<close>)

lemma client_safe: "follows (cstate c) (packets_of es) \<Longrightarrow> is_ok (client_loop W es c)"
proof (induction es arbitrary: c)
  case (Cons e es)
  show ?case
  proof (cases "\<exists>p. e = PacketEvent p")
    case True
    then obtain p where p: "e = PacketEvent p" by blast
    with Cons.prems have "follows (cstate c) (p # packets_of es)" by simp
    from packet_turn [OF this] show ?thesis using Cons.IH by (auto simp: p client_turn_def)
  next
    case False
    then have "packets_of (e # es) = packets_of es" by (cases e) simp_all
    moreover obtain go c1 where "client_turn W e c = Inr (go, c1)" "cstate c1 = cstate c"
      using other_turn [of e W c] False by auto
    ultimately show ?thesis using Cons.IH [of c1] Cons.prems by simp
  qed
qed simp

lemma follows_take: "follows st ps \<Longrightarrow> follows st (take n ps)"
proof (induction ps arbitrary: st n)
  case (Cons p ps)
  then show ?case by (cases n) (auto split: option.splits packet.splits if_splits)
qed simp

lemma packets_of_map [simp]: "packets_of (map PacketEvent ps) = ps"
  by (induction ps) auto

lemma main_loop:
  "dial = None \<Longrightarrow> W [] (DoPackWith4BytesHeader (Marshal_ClientStartMatch zero_header)) = None \<Longrightarrow>
    client_main W dial es = client_loop W es \<lparr>heartbeatLoseCount = 0, cstate = StateNone, myTurn = False,
      actions = [ConnWrite (DoPackWith4BytesHeader (Marshal_ClientStartMatch zero_header)) None, RunConsole,
        Console (SendLineBack (ascii ''matching...''))]\<rparr>"
  by (simp add: client_main_def Let_def conn_write_def act_def)

lemma main_no_loop:
  "\<not> (dial = None \<and> W [] (DoPackWith4BytesHeader (Marshal_ClientStartMatch zero_header)) = None) \<Longrightarrow>
    \<exists>c. client_main W dial es = Inr (False, c) \<and> RunConsole \<notin> set (actions c)"
  by (auto simp: client_main_def Let_def conn_write_def)

lemma client_main_safe:
  assumes "follows StateNone (packets_of es)"
  shows "is_ok (client_main W dial es)"
proof (cases "dial = None \<and> W [] (DoPackWith4BytesHeader (Marshal_ClientStartMatch zero_header)) = None")
  case True
  then show ?thesis using client_safe assms by (simp add: main_loop)
next
  case False
  with main_no_loop [of dial W es] show ?thesis by auto
qed

section \<open>Properties\<close>

text \<open>C20. Exactly when the server can make the client panic. Of any stream of bytes the reader goroutine
  delivers a list of packets. If they follow the protocol (\<^verbatim>\<open>MatchedOK\<close> only while matching, every
  table that is drawn there and with known pieces, a message with every refusal; nothing counts after
  the packet that ends the client) the client never panics, whatever commands, ticks, write errors and
  read errors come in between and however many of the packets it takes. If not, the packets alone make
  it panic.\<close>

theorem client_panics_exactly:
  assumes "W' [] (DoPackWith4BytesHeader (Marshal_ClientStartMatch zero_header)) = None"
  shows "if follows StateNone (fst (conn_reader conn))
    then \<forall>W dial es n. packets_of es = take n (fst (conn_reader conn)) \<longrightarrow> is_ok (client_main W dial es)
    else \<not> is_ok (client_main W' None (map PacketEvent (fst (conn_reader conn))))"
proof (cases "follows StateNone (fst (conn_reader conn))")
  case True
  then have "is_ok (client_main W dial es)" if "packets_of es = take n (fst (conn_reader conn))" for W dial es n
    using client_main_safe that follows_take by simp
  with True show ?thesis by simp
next
  case False
  then show ?thesis using client_panics reader_sized by (simp add: main_loop assms)
qed

lemma show_digit: "n < 10 \<Longrightarrow> length (show_nat n) = 1"
  by (subst show_nat.simps) simp

theorem client_panics_exactly_witness:
  "fst (conn_reader \<lparr>chunks = [DoPackWith4BytesHeader (Marshal_ServerMatching zero_header)
        @ DoPackWith4BytesHeader (Marshal_ServerRemoteLoseConnection zero_header)], conn_err = EOF\<rparr>)
     = [Some (PacketServerMatching \<lparr>hType = Some 2\<rparr>), Some (PacketServerRemoteLoseConnection \<lparr>hType = Some 7\<rparr>)]
   \<and> is_ok (client_main (\<lambda>_ _. None) None [TickEvent, PacketEvent (Some (PacketServerMatching \<lparr>hType = Some 2\<rparr>)),
        CmdEvent [], PacketEvent (Some (PacketServerRemoteLoseConnection \<lparr>hType = Some 7\<rparr>)), TickEvent])
   \<and> \<not> is_ok (client_main (\<lambda>_ _. None) None (map PacketEvent (fst (conn_reader \<lparr>chunks =
        [DoPackWith4BytesHeader (Marshal_ServerMatchedOK \<lparr>hType = None, matchedSide = GameSideRed, matchedTable = None\<rparr>)],
        conn_err = EOF\<rparr>))))"
proof -
  let ?c = "\<lparr>chunks = [DoPackWith4BytesHeader (Marshal_ServerMatching zero_header)
        @ DoPackWith4BytesHeader (Marshal_ServerRemoteLoseConnection zero_header)], conn_err = EOF\<rparr>"
  let ?m = "\<lparr>hType = None, matchedSide = GameSideRed, matchedTable = None\<rparr>"
  let ?d = "\<lparr>chunks = [DoPackWith4BytesHeader (Marshal_ServerMatchedOK ?m)], conn_err = EOF\<rparr>"
  have "length (Marshal_ServerMatching zero_header) \<le> 100" "length (Marshal_ServerRemoteLoseConnection zero_header) \<le> 100"
    "length (Marshal_ServerMatchedOK ?m) \<le> 100"
    by (simp_all add: Marshal_ServerMatching_def Marshal_ServerRemoteLoseConnection_def Marshal_ServerMatchedOK_def
        Marshal_def bytes_of_def show_json_def enc_type_def enc_ptr_def jint_def quote_char_def show_int_def show_digit)
  then have "conn_reader ?c = (map ClientParse [Marshal_ServerMatching zero_header,
        Marshal_ServerRemoteLoseConnection zero_header], EOF)"
      "conn_reader ?d = (map ClientParse [Marshal_ServerMatchedOK ?m], EOF)"
    using reader_frames [of ?c "[Marshal_ServerMatching zero_header, Marshal_ServerRemoteLoseConnection zero_header]"]
      reader_frames [of ?d "[Marshal_ServerMatchedOK ?m]"] by simp_all
  moreover have "ClientParse (Marshal_ServerMatchedOK ?m) = Some (PServerMatchedOK (?m\<lparr>hType := Some 3\<rparr>))"
    by (rule ClientParse_MatchedOK) (simp_all add: side_ok_def side_of_int_def table_ok_def)
  ultimately have r: "fst (conn_reader ?c)
      = [Some (PacketServerMatching \<lparr>hType = Some 2\<rparr>), Some (PacketServerRemoteLoseConnection \<lparr>hType = Some 7\<rparr>)]"
    and d: "\<not> follows StateNone (fst (conn_reader ?d))"
    by (simp_all add: parse_only_header)
  let ?es = "[TickEvent, PacketEvent (Some (PacketServerMatching \<lparr>hType = Some 2\<rparr>)),
        CmdEvent [], PacketEvent (Some (PacketServerRemoteLoseConnection \<lparr>hType = Some 7\<rparr>)), TickEvent]"
  have "packets_of ?es = take 2 (fst (conn_reader ?c))" "follows StateNone (fst (conn_reader ?c))" by (simp_all add: r)
  then have "is_ok (client_main (\<lambda>_ _. None) None ?es)"
    using client_panics_exactly [of "\<lambda>_ _. None" ?c] by metis
  with client_panics_exactly [of "\<lambda>_ _. None" ?d] r d show ?thesis by simp
qed

text \<open>C24. How the client ends. In every run of \<^verbatim>\<open>main\<close>, whatever the events and the answers of the
  connection: while the loop goes on the console has not been stopped, no write has failed and, at every
  moment, fewer than five ticks have passed since the last heartbeat of the server, which is what
  \<^verbatim>\<open>heartbeatLoseCount\<close> counts. When \<^verbatim>\<open>main\<close> returns from the loop it has stopped the console exactly
  once and only prints afterwards; it reports a lost connection only when five ticks had passed.\<close>

theorem client_ends:
  assumes "client_main W None es = Inr (go, c)" "RunConsole \<in> set (actions c)"
  shows "if go
    then (\<forall>a \<in> set (actions c). a \<noteq> Console Stop \<and> (\<forall>bs e. a \<noteq> ConnWrite bs (Some e)))
      \<and> heartbeatLoseCount c = silence es \<and> (\<forall>k. silence (take k es) < 5)
    else (\<exists>ys zs. actions c = ys @ Console Stop # zs \<and> Console Stop \<notin> set ys
        \<and> (\<forall>z \<in> set zs. \<exists>m e. z = Printf m e))
      \<and> (Printf ''network error: connection lost'' None \<in> set (actions c) \<longrightarrow> (\<exists>k. 5 \<le> silence (take k es)))"
proof -
  let ?c0 = "\<lparr>heartbeatLoseCount = 0, cstate = StateNone, myTurn = False,
      actions = [ConnWrite (DoPackWith4BytesHeader (Marshal_ClientStartMatch zero_header)) None, RunConsole,
        Console (SendLineBack (ascii ''matching...''))]\<rparr>"
  have "W [] (DoPackWith4BytesHeader (Marshal_ClientStartMatch zero_header)) = None"
  proof (rule ccontr)
    assume "W [] (DoPackWith4BytesHeader (Marshal_ClientStartMatch zero_header)) \<noteq> None"
    with main_no_loop [of None W es] assms show False by auto
  qed
  with assms(1) have run: "client_loop W es ?c0 = Inr (go, c)" by (simp add: main_loop)
  have h: "heartbeatLoseCount ?c0 = 0" and "heartbeatLoseCount ?c0 < ClientMaxLoseHeartbeat"
    by (simp_all add: ClientMaxLoseHeartbeat_def)
  from loop_acts [OF run this(2), unfolded h silence_def [symmetric] ClientMaxLoseHeartbeat_def]
  obtain xs where xs: "actions c = actions ?c0 @ xs" "proper go xs"
    "if go then heartbeatLoseCount c = silence es \<and> (\<forall>k. silence (take k es) < 5)
     else lost \<in> set xs \<longrightarrow> (\<exists>k. 5 \<le> silence (take k es))" by blast
  have q: "quiet (actions ?c0)" by (simp add: quiet_def)
  from proper_append [OF q xs(2)] have "proper go (actions c)" by (simp only: xs(1))
  moreover have "lost \<in> set (actions c) \<longleftrightarrow> lost \<in> set xs" by (simp add: xs(1) lost_def)
  ultimately show ?thesis using xs(3) ends_split [of "actions c"]
    by (cases go) (auto simp: proper_def quiet_def lost_def)
qed

theorem client_ends_witness:
  "silence [TickEvent, PacketEvent (Some (PacketHeartbeat zero_header)), TickEvent] = 1
   \<and> (\<exists>c. client_main (\<lambda>_ _. None) None [TickEvent, PacketEvent (Some (PacketHeartbeat zero_header)), TickEvent]
        = Inr (True, c) \<and> heartbeatLoseCount c = 1)
   \<and> (\<exists>c. client_main (\<lambda>_ _. None) None (replicate 5 TickEvent) = Inr (False, c)
        \<and> (\<exists>ys zs. actions c = ys @ Console Stop # zs \<and> Console Stop \<notin> set ys))"
proof -
  let ?W = "\<lambda>(_ :: client_action list) (_ :: byte list). None :: io_error option"
  let ?h = "[TickEvent, PacketEvent (Some (PacketHeartbeat zero_header)), TickEvent]"
  note run = client_main_def client_turn_def on_tick_def on_packet_def conn_write_def act_def Let_def
    ClientMaxLoseHeartbeat_def
  obtain c where c: "client_main ?W None ?h = Inr (True, c)" "RunConsole \<in> set (actions c)"
    by (simp add: run)
  obtain d where d: "client_main ?W None (replicate 5 TickEvent) = Inr (False, d)" "RunConsole \<in> set (actions d)"
    by (simp add: run numeral_eq_Suc)
  show ?thesis using client_ends [OF c] client_ends [OF d] c(1) d(1) by (auto simp: silence_def tick_count_def)
qed

end
