(* ===== verification/Chess_Protocol.thy ===== *)
theory Chess_Protocol
  imports Chess_Play Chess_Session
begin

text \<open>
  The chess server and its clients together. Every packet the server sends is one the client can take in
  any state, except \<^verbatim>\<open>MatchedOK\<close>, which always follows \<^verbatim>\<open>Matching\<close>; hence the bytes that leave an established
  connection of the server are a stream on which no client panics.
\<close>

section \<open>Packets a client can take\<close>

definition safe :: "byte list list \<Rightarrow> bool" where
  "safe ps \<longleftrightarrow> (\<forall>st. follows st (map ClientParse ps)) \<and> (\<forall>p \<in> set ps. length p < 2 ^ 32)"

lemma follows_append: "follows st xs \<Longrightarrow> (\<forall>st. follows st ys) \<Longrightarrow> follows st (xs @ ys)"
proof (induction xs arbitrary: st)
  case (Cons p xs)
  then show ?case by (auto split: option.splits packet.splits if_splits)
qed simp

lemma safe_append: "safe ps \<Longrightarrow> safe qs \<Longrightarrow> safe (ps @ qs)"
  by (auto simp: safe_def follows_append)

lemma safe_Nil [simp]: "safe []"
  by (simp add: safe_def)

definition sendable :: "ChessTable \<Rightarrow> bool" where
  "sendable t \<longleftrightarrow> table_ok (Some t) \<and> drawable t"

lemma drawable_points:
  assumes "length t = 90" "\<And>x y p. on_board x y \<Longrightarrow> at t x y = Some p \<Longrightarrow> is_ok (getPieceTypeName (Some p))"
  shows "drawable t"
  unfolding drawable_def board_points [OF assms(1)]
  using assms by (auto simp: on_board_def split: option.split)

lemma table_points:
  assumes "length t = 90" "\<And>x y p. on_board x y \<Longrightarrow> at t x y = Some p \<Longrightarrow>
      int64 (PX p) \<and> int64 (PY p) \<and> piece_ok (PType p) \<and> side_ok (PSide p)"
  shows "table_ok (Some t)"
  using assms unfolding table_ok_def option.case board_points [OF assms(1)]
  by (auto simp: on_board_def split: option.split)

lemma region_named: "region (PType p) s x y \<Longrightarrow> is_ok (getPieceTypeName (Some p)) \<and> piece_ok (PType p)"
  by (cases "PType p") (auto simp: getPieceTypeName_def piece_ok_def piece_of_int_def)

lemma sides_ok: "side_ok GameSideRed" "side_ok GameSideBlack"
  by (simp_all add: side_ok_def side_of_int_def)

lemma on_board_int64: "on_board x y \<Longrightarrow> int64 x \<and> int64 y"
  by (auto simp: on_board_def int64_def)

text \<open>The board of a game, and the board after the move that ended it.\<close>

lemma board_sendable:
  assumes "board_ok t"
  shows "sendable t"
proof -
  have "is_ok (getPieceTypeName (Some p)) \<and> int64 (PX p) \<and> int64 (PY p) \<and> piece_ok (PType p) \<and> side_ok (PSide p)"
    if "on_board x y" "at t x y = Some p" for x y p
  proof -
    have "point_ok t x y" using assms that(1) by (simp add: board_ok_def)
    with that show ?thesis using region_named on_board_int64 sides_ok by (auto simp: point_ok_def)
  qed
  with assms drawable_points [of t] table_points [of t] show ?thesis by (simp add: sendable_def board_ok_def)
qed

lemma move_sendable:
  assumes "board_ok t" "DoMove side t fx fy tx ty = Inr (t', over, True)"
  shows "sendable t'"
proof -
  have l: "length t = 90" using assms(1) by (simp add: board_ok_def)
  obtain p where m: "on_board fx fy" "on_board tx ty" "at t fx fy = Some p" "PSide p = side"
      "t' = moved t side (PType p) fx fy tx ty"
    using DoMove_ok [OF l assms(2)] by blast
  have "point_ok t fx fy" using assms(1) m(1) by (simp add: board_ok_def)
  with m(3,4) have r: "region (PType p) side fx fy" "side_ok side" using sides_ok by (auto simp: point_ok_def)
  have "is_ok (getPieceTypeName (Some c)) \<and> int64 (PX c) \<and> int64 (PY c) \<and> piece_ok (PType c) \<and> side_ok (PSide c)"
    if "on_board x y" "at t' x y = Some c" for x y c
  proof -
    from that have "c = \<lparr>PX = tx, PY = ty, PType = PType p, PSide = side\<rparr> \<or> at t x y = Some c"
      using at_moved [OF l m(1,2)] by (auto simp: m(5) split: if_splits)
    moreover have "point_ok t x y" using assms(1) that(1) by (simp add: board_ok_def)
    ultimately show ?thesis using that(1) r m(2) region_named [of p] region_named [of c] on_board_int64 sides_ok
      by (auto simp: point_ok_def getPieceTypeName_def)
  qed
  moreover have "length t' = 90" using l by (simp add: m(5) moved_def)
  ultimately show ?thesis using drawable_points [of t'] table_points [of t'] by (simp add: sendable_def)
qed

text \<open>How long a packet is.\<close>

definition size_tok :: "token list \<Rightarrow> nat" where
  "size_tok ts = length (concat (map show_tok ts))"

lemma size_tok_simps [simp]:
  "size_tok [] = 0" "size_tok (t # ts) = length (show_tok t) + size_tok ts" "size_tok (xs @ ys) = size_tok xs + size_tok ys"
  by (simp_all add: size_tok_def)

lemma length_Marshal: "length (Marshal v) = size_tok (toks v)"
  by (simp add: Marshal_def bytes_of_def show_json_def size_tok_def)

lemma size_commas: "(\<And>x. x \<in> set xs \<Longrightarrow> size_tok x \<le> n) \<Longrightarrow> size_tok (commas xs) \<le> length xs * (n + 1)"
proof (induction xs rule: commas.induct)
  case (3 x y ys)
  from 3(2) [of x] 3(1) 3(2) have "size_tok x \<le> n" "size_tok (commas (y # ys)) \<le> length (y # ys) * (n + 1)" by auto
  then show ?case by simp
qed auto

lemma size_jint: "int64 i \<Longrightarrow> size_tok (toks (jint i)) \<le> 20"
  using length_show_int by (simp add: jint_def)

lemma small_ints: "piece_ok k \<Longrightarrow> int64 (int_of_piece k)" "side_ok x \<Longrightarrow> int64 (int_of_side x)"
  by (simp_all add: piece_ok_def side_ok_def)

lemma size_point:
  assumes "int64 (PX c)" "int64 (PY c)" "piece_ok (PType c)" "side_ok (PSide c)"
  shows "size_tok (toks (enc_point c)) \<le> 200"
  using assms(1,2) [THEN size_jint] small_ints(1) [OF assms(3), THEN size_jint] small_ints(2) [OF assms(4), THEN size_jint]
  by (simp add: enc_point_def quote_char_def)

lemma size_table:
  assumes "table_ok (Some t)"
  shows "size_tok (toks (enc_table t)) \<le> 20000"
proof -
  have "size_tok (toks (enc_ptr enc_point p)) \<le> 200" if "p \<in> set t" for p
  proof (cases p)
    case (Some c)
    with that assms have "int64 (PX c) \<and> int64 (PY c) \<and> piece_ok (PType c) \<and> side_ok (PSide c)"
      by (auto simp: table_ok_def list_all_iff)
    with Some size_point show ?thesis by (simp add: enc_ptr_def)
  qed (simp add: enc_ptr_def)
  then have "size_tok (commas (map toks (map (enc_ptr enc_point) t))) \<le> length t * (200 + 1)"
    using size_commas [of "map toks (map (enc_ptr enc_point) t)" 200] by auto
  then show ?thesis using assms by (simp add: enc_table_def table_ok_def)
qed

lemmas size_simps = length_Marshal quote_char_def enc_type_def enc_ptr_def

text \<open>The packets of the server.\<close>

lemma safe_one:
  "length p < 2 ^ 32 \<Longrightarrow> (\<And>st. follows st [ClientParse p]) \<Longrightarrow> safe [p]"
  by (simp add: safe_def)

lemma safe_heartbeat: "safe [Marshal_Heartbeat h]"
  by (rule safe_one) (use size_jint [of 0] in \<open>simp_all add: parse_only_header, simp add: Marshal_Heartbeat_def size_simps\<close>)

lemma safe_lose: "safe [Marshal_ServerRemoteLoseConnection h]"
  by (rule safe_one)
    (use size_jint [of 7] in \<open>simp_all add: parse_only_header, simp add: Marshal_ServerRemoteLoseConnection_def size_simps\<close>)

lemma length_matching: "length (Marshal_ServerMatching h) < 2 ^ 32"
  using size_jint [of 2] by (simp add: Marshal_ServerMatching_def size_simps)

lemma safe_matching: "safe [Marshal_ServerMatching h]"
  by (rule safe_one [OF length_matching]) (simp add: parse_only_header)

lemma safe_matched:
  assumes "sendable t" "side_ok side"
  shows "safe [Marshal_ServerMatching h, Marshal_ServerMatchedOK \<lparr>hType = None, matchedSide = side, matchedTable = Some t\<rparr>]"
proof -
  let ?m = "\<lparr>hType = None, matchedSide = side, matchedTable = Some t\<rparr>"
  have "ClientParse (Marshal_ServerMatchedOK ?m) = Some (PServerMatchedOK (?m\<lparr>hType := Some 3\<rparr>))"
    by (rule ClientParse_MatchedOK) (use assms in \<open>simp_all add: sendable_def\<close>)
  moreover have "length (Marshal_ServerMatchedOK ?m) < 2 ^ 32"
    using size_jint [of 3] size_jint [OF small_ints(2) [OF assms(2)]] size_table [of t] assms(1)
    by (simp add: Marshal_ServerMatchedOK_def size_simps sendable_def)
  ultimately show ?thesis using length_matching [of h] assms(1)
    by (simp add: safe_def parse_only_header drawable_ptr_def sendable_def)
qed

lemma safe_notify:
  assumes "sendable t"
  shows "safe [Marshal_ServerNotifyRemoteMove \<lparr>hType = None, notifyTable = Some t\<rparr>]"
proof (rule safe_one)
  show "length (Marshal_ServerNotifyRemoteMove \<lparr>hType = None, notifyTable = Some t\<rparr>) < 2 ^ 32"
    using size_jint [of 8] size_table [of t] assms
    by (simp add: Marshal_ServerNotifyRemoteMove_def size_simps sendable_def)
  show "follows st [ClientParse (Marshal_ServerNotifyRemoteMove \<lparr>hType = None, notifyTable = Some t\<rparr>)]" for st
    using assms by (subst ClientParse_NotifyRemoteMove) (simp_all add: sendable_def drawable_ptr_def)
qed

lemma safe_over:
  assumes "sendable t" "side_ok side"
  shows "safe [Marshal_ServerGameOver \<lparr>hType = None, overTable = Some t, WinnerSide = side\<rparr>]"
proof (rule safe_one)
  show "length (Marshal_ServerGameOver \<lparr>hType = None, overTable = Some t, WinnerSide = side\<rparr>) < 2 ^ 32"
    using size_jint [of 6] size_jint [OF small_ints(2) [OF assms(2)]] size_table [of t] assms(1)
    by (simp add: Marshal_ServerGameOver_def size_simps sendable_def)
  show "follows st [ClientParse (Marshal_ServerGameOver \<lparr>hType = None, overTable = Some t, WinnerSide = side\<rparr>)]" for st
    using assms by (subst ClientParse_GameOver) (simp_all add: sendable_def drawable_ptr_def)
qed

lemma safe_resp:
  assumes "sendable t"
  shows "safe [Marshal_ServerMoveResp \<lparr>hType = None, respOK = True, TableOnOK = Some t, ErrMsgOnFailed = None\<rparr>]"
    (is "safe [Marshal_ServerMoveResp ?m]")
proof (rule safe_one)
  show "length (Marshal_ServerMoveResp ?m) < 2 ^ 32"
    using size_jint [of 5] size_table [of t] assms
    by (simp add: Marshal_ServerMoveResp_def size_simps sendable_def)
  show "follows st [ClientParse (Marshal_ServerMoveResp ?m)]" for st
    using assms by (subst ClientParse_MoveResp) (simp_all add: sendable_def drawable_ptr_def)
qed

lemma safe_refused:
  assumes "plain msg" "length msg < 100"
  shows "safe [move_failed msg]"
proof (rule safe_one)
  let ?m = "\<lparr>hType = None, respOK = False, TableOnOK = None, ErrMsgOnFailed = Some msg\<rparr>"
  show "length (move_failed msg) < 2 ^ 32"
    using size_jint [of 5] assms
    by (simp add: move_failed_def Marshal_ServerMoveResp_def size_simps quote_plain [OF assms(1)])
  show "follows st [ClientParse (move_failed msg)]" for st
    using assms(1) unfolding move_failed_def by (subst ClientParse_MoveResp) (simp_all add: table_ok_def)
qed

section \<open>The handlers\<close>

definition tells :: "nat \<Rightarrow> chess_world \<Rightarrow> chess_world \<Rightarrow> bool" where
  "tells q s t \<longleftrightarrow> (\<exists>ps. safe ps \<and> said q s ps t)"

lemma tells_refl [simp]: "tells q s s"
  unfolding tells_def by (intro exI [of _ "[]"]) simp

lemma tells_trans: "tells q s t \<Longrightarrow> tells q t u \<Longrightarrow> tells q s u"
  unfolding tells_def using safe_append said_trans by blast

lemma tells_app [simp]:
  "tells q s (upd_cc k cc t) = tells q s t" "tells q s (upd_game a g t) = tells q s t"
  "tells q s (t\<lparr>ConnMap := m\<rparr>) = tells q s t" "tells q s (t\<lparr>nextGame := n\<rparr>) = tells q s t"
  by (simp_all add: tells_def)

lemma said_tells: "said q s [] t \<Longrightarrow> tells q s t"
  unfolding tells_def by (intro exI [of _ "[]"]) simp

lemma send_tells:
  assumes "tells q s t" "send_packet K U p body t = Inr u" "conns_fine X t" "safe [body]"
  shows "tells q s u"
proof (rule tells_trans [OF assms(1)])
  show "tells q t u" unfolding tells_def using send_said [OF assms(2,3), of q] assms(4)
    by (intro exI [of _ "if p = q then [body] else []"]) simp
qed

text \<open>\<^verbatim>\<open>Matching\<close> and \<^verbatim>\<open>MatchedOK\<close> for the same player, one after the other.\<close>

lemma pair_tells:
  assumes "tells q s t" "send_packet K U p b1 t = Inr u" "conns_fine X t" "send_packet K U p b2 u = Inr v" "safe [b1, b2]"
  shows "tells q s v"
proof (rule tells_trans [OF assms(1)])
  have "said q t ((if p = q then [b1] else []) @ (if p = q then [b2] else [])) v"
    using said_trans [OF send_said [OF assms(2,3)] send_said [OF assms(4) send_fine_again [OF assms(3,2)]]] .
  with assms(5) show "tells q t v" unfolding tells_def
    by (intro exI [of _ "if p = q then [b1, b2] else []"]) (simp split: if_splits)
qed

lemma OnClose_tells:
  assumes "conns_fine X s" "OnClose K V p s = Inr s'"
  shows "tells q s s'"
proof -
  obtain k s2 and cc :: ConnContext where s': "s' = s2\<lparr>ConnMap := (ConnMap s2)(k := None)\<rparr>"
      and m: "(if ccState cc = ConnStateGaming then
              rbind (deref_game (Gcontext cc) s) (\<lambda>(a, g).
                let remoteID = (if BlackConnID g = k then RedConnID g else BlackConnID g)
                in rbind (deref_cc remoteID s) (\<lambda>rc.
                     let s1 = upd_cc remoteID (rc\<lparr>Gcontext := None, ccState := ConnStateNone\<rparr>) s
                     in send_packet K V (ccConn rc) (Marshal_ServerRemoteLoseConnection zero_header) s1))
            else Inr s) = Inr s2"
    using assms(2) unfolding OnClose_def rbind_eq_Inr sum.inject by (elim exE conjE) (rule that, rule sym, assumption+)
  have "tells q s s2"
  proof (cases "ccState cc = ConnStateGaming")
    case False
    with m show ?thesis by simp
  next
    case True
    then obtain r rc where r: "ConnMap s r = Some rc" "send_packet K V (ccConn rc)
        (Marshal_ServerRemoteLoseConnection zero_header) (upd_cc r (rc\<lparr>Gcontext := None, ccState := ConnStateNone\<rparr>) s) = Inr s2"
      using m unfolding Let_def if_P [OF True] rbind_eq_Inr prod.case_eq_if deref_cc_Inr by blast
    have "conns_fine X (upd_cc r (rc\<lparr>Gcontext := None, ccState := ConnStateNone\<rparr>) s)"
      by (rule conns_fine_upd_cc [OF assms(1) r(1)]) simp_all
    from send_tells [OF _ r(2) this safe_lose] show ?thesis by simp
  qed
  then show ?thesis unfolding s' by simp
qed

lemma handleClose_tells:
  assumes inv: "chess_inv {} s" and U: "closes K U" and r: "handleClose K U p s = Inr s'"
  shows "tells q s s'"
proof (rule handleClose_steps [OF inv U r])
  fix k cc tc s2 V h
  assume c: "conns s2 = (conns s)(p \<mapsto> tc\<lparr>tstate := Disconnected\<rparr>)" "conns_fine {k} s2" "fds s s2" "hist s2 = hist s @ h" "unwritten h"
    and o: "OnClose K V p s2 = Inr s'"
  have "said q s [] s2"
  proof (cases "q = p")
    case True
    then have "\<not> open_at q s2" using c(1) by (simp add: open_at_def)
    with c show ?thesis by (auto simp: said_def)
  next
    case False
    then show ?thesis using c by (intro said_nothing) auto
  qed
  with OnClose_tells [OF c(2) o] show ?thesis using said_tells tells_trans by blast
qed

lemma force_close_tells:
  assumes "chess_inv {} s" "closes K U" "force_close K U p s = Inr s'"
  shows "tells q s s'"
  using force_close_steps [OF assms(1,3)] handleClose_tells [OF assms(1,2)] by (auto split: if_splits)

lemma queues_tells: "queues s out t \<Longrightarrow> safe (out q) \<Longrightarrow> tells q s t"
  unfolding queues_def tells_def by blast

lemma on_start_match_tells:
  assumes inv: "chess_inv {} s" and U: "closes K U" and ro: "range_documented ro" and p: "conn_id p s = Inr k"
    and r: "on_start_match K U ro p k s = Inr s'"
  shows "tells q s s'"
proof -
  have "sendable default_table" by (rule board_sendable [OF default_table_ok])
  note m = safe_matched [OF this sides_ok(1)] safe_matched [OF this sides_ok(2)]
  note c = on_start_match_queues [OF inv U ro p r]
  show ?thesis
  proof (cases "find_opponent ro k s")
    case None
    from c [unfolded None option.case] have "queues s (\<lambda>q. if q = p then [Marshal_ServerMatching zero_header] else []) s'" by blast
    then show ?thesis by (rule queues_tells) (simp add: safe_matching)
  next
    case (Some j)
    from c [unfolded Some option.case] obtain v :: ConnContext and table where "NewDefaultChessTable = Inr table"
      "queues s (\<lambda>q. if q = ccConn v then matched_packets GameSideBlack table
            else if q = p then matched_packets GameSideRed table else []) s'" by blast
    from queues_tells [OF this(2), of q] this(1) m show ?thesis by (simp add: new_table_eq matched_packets_def)
  qed
qed

lemma on_move_tells:
  assumes inv: "chess_inv {} s" and U: "closes K U" and p: "conn_id p s = Inr k" and r: "on_move K U p k packet s = Inr s'"
  shows "tells q s s'"
proof -
  obtain cc a g where k: "ConnMap s k = Some cc" "Gcontext cc = Some a" "games s a = Some g"
    using r unfolding on_move_def rbind_eq_Inr by (auto simp: Let_def split: prod.splits)
  define side where "side = (if BlackConnID g = k then GameSideBlack else GameSideRed)"
  have "game_ok g" using opponent [OF chess_invD(2) [OF inv] k refl] by blast
  then have board: "board_ok (gTable g)" by (simp add: game_ok_def reachable_ok)
  have sok: "side_ok side" using sides_ok by (simp add: side_def)
  have refused: "safe [move_failed ''it is not your turn'']" "safe [move_failed ''you cannot move like this'']"
    by (rule safe_refused; simp add: plain_char_def)+
  obtain rc where c: "if TurnNow g \<noteq> side then ConnMap s' = ConnMap s \<and> games s' = games s
      \<and> queues s (\<lambda>q. if q = p then [move_failed ''it is not your turn''] else []) s'
    else \<exists>table over ok. DoMove side (gTable g) (FromX packet) (FromY packet) (ToX packet) (ToY packet) = Inr (table, over, ok)
      \<and> (\<exists>out. queues s out s' \<and> (\<forall>q. out q \<in> {[], [move_failed ''you cannot move like this'']} \<or> ok \<and> out q \<in>
          {[Marshal_ServerMoveResp \<lparr>hType = None, respOK = True, TableOnOK = Some table, ErrMsgOnFailed = None\<rparr>],
           [Marshal_ServerNotifyRemoteMove \<lparr>hType = None, notifyTable = Some table\<rparr>],
           [Marshal_ServerGameOver \<lparr>hType = None, overTable = Some table, WinnerSide = side\<rparr>]}))"
    using on_move_queues [OF inv p k side_def refl refl r] by (fastforce split: if_splits)
  show ?thesis
  proof (cases "TurnNow g = side")
    case False
    with c have "queues s (\<lambda>q. if q = p then [move_failed ''it is not your turn''] else []) s'" by simp
    then show ?thesis by (rule queues_tells) (simp add: refused)
  next
    case True
    with c obtain table over ok out where m: "DoMove side (gTable g) (FromX packet) (FromY packet) (ToX packet) (ToY packet)
        = Inr (table, over, ok)" and out: "queues s out s'" "out q \<in> {[], [move_failed ''you cannot move like this'']} \<or> ok \<and> out q \<in>
          {[Marshal_ServerMoveResp \<lparr>hType = None, respOK = True, TableOnOK = Some table, ErrMsgOnFailed = None\<rparr>],
           [Marshal_ServerNotifyRemoteMove \<lparr>hType = None, notifyTable = Some table\<rparr>],
           [Marshal_ServerGameOver \<lparr>hType = None, overTable = Some table, WinnerSide = side\<rparr>]}" by auto
    have "sendable table" if ok using move_sendable [OF board] m that by simp
    with out(2) have "safe (out q)" by (auto simp: refused safe_notify safe_resp safe_over sok)
    with out(1) show ?thesis by (rule queues_tells)
  qed
qed

lemma OnMessage_tells:
  assumes inv: "chess_inv {} s" and U: "closes K U" and ro: "range_documented ro" and r: "OnMessage K U ro p s = Inr s'"
  shows "tells q s s'"
proof -
  obtain k tc bs x where k: "conn_id p s = Inr k" and tc: "conns s p = Some tc"
      and x: "IsBytesCompleteWith4BytesHeader bs = Inr x" "Peek (inputBuffer tc) = Inr bs"
    using r by (auto simp: OnMessage_def rbind_eq_Inr)
  show ?thesis
  proof (cases x)
    case None
    with r k tc x show ?thesis by (simp add: OnMessage_def)
  next
    case (Some packetBytes)
    with r k tc x obtain buf where
      b: "(case ServerParse packetBytes of None \<Rightarrow> force_close K U p (upd_conn p (tc\<lparr>inputBuffer := buf\<rparr>) s)
        | Some (PacketHeartbeat h) \<Rightarrow> on_heartbeat k (upd_conn p (tc\<lparr>inputBuffer := buf\<rparr>) s)
        | Some (PacketClientStartMatch h) \<Rightarrow> on_start_match K U ro p k (upd_conn p (tc\<lparr>inputBuffer := buf\<rparr>) s)
        | Some (PClientMove packet) \<Rightarrow> on_move K U p k packet (upd_conn p (tc\<lparr>inputBuffer := buf\<rparr>) s)
        | Some y \<Rightarrow> Inr (upd_conn p (tc\<lparr>inputBuffer := buf\<rparr>) s)) = Inr s'"
      by (auto simp: OnMessage_def rbind_eq_Inr Let_def)
    let ?s1 = "upd_conn p (tc\<lparr>inputBuffer := buf\<rparr>) s"
    have i1: "chess_inv {} ?s1"
      by (rule chess_inv_same [OF inv same_upd_conn(1) [OF tc] same_upd_conn(2)]) (simp add: cproj_def)
    have k1: "conn_id p ?s1 = Inr k" using k tc by (auto simp: conn_id_Inr)
    have "said q s [] ?s1"
      using tc by (auto simp: said_def fds_def upd_conn_def open_at_def obuf_def room_def pending_out_def intro: exI [of _ "[]"])
    moreover have beat: "tells q ?s1 s'" if "on_heartbeat k ?s1 = Inr s'"
      using that by (auto simp: on_heartbeat_def rbind_eq_Inr)
    have "tells q ?s1 s'"
      using b beat force_close_tells [OF i1 U] on_start_match_tells [OF i1 U ro k1] on_move_tells [OF i1 U k1]
      by (auto split: option.splits packet.splits)
    ultimately show ?thesis using said_tells tells_trans by blast
  qed
qed

lemma OnTimeout_tells:
  assumes inv: "chess_inv {} s" and U: "closes K U" and r: "OnTimeout K U ro s = Inr s'"
  shows "tells q s s'"
proof -
  have "chess_inv {} s' \<and> tells q s s'"
  proof (rule rfold_invariant [OF r [unfolded OnTimeout_def]])
    show "chess_inv {} s \<and> tells q s s" using inv by simp
    fix k t u assume t: "chess_inv {} t \<and> tells q s t" and b: "beat K U k t = Inr u"
    have "OnTimeout K U (\<lambda>h m. [k]) t = Inr u" using b by (simp add: OnTimeout_def)
    then have "chess_inv {} u" using OnTimeout_inv [OF _ U] t by blast
    moreover have "tells q t u"
    proof (cases "ConnMap t k")
      case (Some cc)
      show ?thesis
      proof (rule beat_steps [OF _ b Some])
        fix s1 let ?s2 = "upd_cc k (cc\<lparr>LoseHertbeatCount := LoseHertbeatCount cc + 1\<rparr>) s1"
        assume s1: "send_packet K U (ccConn cc) (Marshal_Heartbeat zero_header) t = Inr s1" "chess_inv {} ?s2"
          "if LoseHertbeatCount cc + 1 \<ge> MaxLoseHeartbeat then force_close K U (ccConn cc) ?s2 = Inr u else u = ?s2"
        have "tells q t s1" using send_tells [OF tells_refl s1(1) _ safe_heartbeat] t chess_invD(1) by blast
        then have "tells q t ?s2" by simp
        moreover have "force_close K U (ccConn cc) ?s2 = Inr u \<or> u = ?s2" using s1(3) by (auto split: if_splits)
        ultimately show ?thesis using force_close_tells [OF s1(2) U] tells_trans by blast
      qed (use t in blast)
    qed (use b in \<open>simp add: beat_def\<close>)
    ultimately show "chess_inv {} u \<and> tells q s u" using t tells_trans by blast
  qed
  then show ?thesis by blast
qed

lemma handleRead_tells:
  assumes inv: "chess_inv {} s" and ro: "range_documented ro" and r: "handleRead K (chess_user K ro n) p s = Inr s'"
  shows "tells q s s'"
proof (rule handleRead_steps [OF inv r])
  fix tc s2 b
  assume s2: "conns s p = Some tc" "chans s2 = chans s" "conns s2 = (conns s)(p \<mapsto> tc\<lparr>inputBuffer := b\<rparr>)"
      "\<exists>h. hist s2 = hist s @ h \<and> unwritten h" "chess_inv {} s2"
    and k: "(\<exists>j. OnMessage K (chess_user K ro j) ro p s2 = Inr s') \<or> handleClose K (chess_user K ro n) p s2 = Inr s'"
  have "said q s [] s2"
    using s2(1-4) by (auto simp: said_def fds_same open_at_def obuf_def room_def pending_out_def)
  moreover have "tells q s2 s'"
    using k OnMessage_tells [OF s2(5) chess_user_closes ro] handleClose_tells [OF s2(5) chess_user_closes] by blast
  ultimately show ?thesis using said_tells tells_trans by blast
qed

section \<open>Events\<close>

definition fd_at :: "nat \<Rightarrow> chess_world \<Rightarrow> int option" where
  "fd_at q s = (case conns s q of None \<Rightarrow> None | Some tc \<Rightarrow> map_option fd (chans s (socketChannel tc)))"

text \<open>No write to \<open>f\<close> was refused. As long as that holds since the history \<open>h0\<close>, the bytes written to \<open>f\<close> and those still queued
  on \<open>q\<close> are frames of packets a client can take.\<close>

definition unrefused :: "int \<Rightarrow> history \<Rightarrow> bool" where
  "unrefused f h \<longleftrightarrow> (\<forall>bs e. SysWrite f bs (Inl e) \<notin> set h)"

lemma unrefused_append [simp]: "unrefused f (h @ h') \<longleftrightarrow> unrefused f h \<and> unrefused f h'"
  by (auto simp: unrefused_def)

definition speaks :: "nat \<Rightarrow> int \<Rightarrow> history \<Rightarrow> chess_world \<Rightarrow> bool" where
  "speaks q f h0 s \<longleftrightarrow> (\<exists>h. hist s = h0 @ h \<and> (open_at q s \<and> unrefused f h \<longrightarrow>
     obuf q s \<and> 8192 \<le> room q s \<and> fd_at q s = Some f
     \<and> (\<exists>ps. safe ps \<and> written f h @ pending_out q s = frames ps)))"

lemma fd_at_keeps:
  assumes "fd_at q s = Some f" "fds s t" "evolves s t"
  shows "fd_at q t = Some f"
proof -
  obtain tc c where tc: "conns s q = Some tc" "chans s (socketChannel tc) = Some c" "fd c = f"
    using assms(1) by (auto simp: fd_at_def split: option.splits)
  obtain tc' where "conns t q = Some tc'" "socketChannel tc' = socketChannel tc"
    using assms(3) tc(1) unfolding evolves_def by blast
  with tc assms(2) show ?thesis by (fastforce simp: fd_at_def fds_def)
qed

lemma speaks_tells:
  assumes s: "speaks q f h0 s" "tells q s t" "evolves s t" "length (pending_out q t) \<le> 8192"
  shows "speaks q f h0 t"
proof -
  obtain ps where ps: "safe ps" "said q s ps t" using s(2) by (auto simp: tells_def)
  obtain h where h: "hist s = h0 @ h" and sp: "open_at q s \<and> unrefused f h \<Longrightarrow> obuf q s \<and> 8192 \<le> room q s \<and> fd_at q s = Some f
      \<and> (\<exists>ps. safe ps \<and> written f h @ pending_out q s = frames ps)"
    using s(1) unfolding speaks_def by blast
  obtain h' where h': "hist t = hist s @ h'" "unwritten h'" using ps(2) by (auto simp: said_def)
  have "obuf q t \<and> 8192 \<le> room q t \<and> fd_at q t = Some f \<and> (\<exists>ps. safe ps \<and> written f (h @ h') @ pending_out q t = frames ps)"
    if "open_at q t" "unrefused f (h @ h')"
  proof -
    from that(1) ps(2) have o: "open_at q s" and k: "obuf q s \<Longrightarrow> obuf q t \<and> room q s \<le> room q t
        \<and> (length (pending_out q t) \<le> room q s \<longrightarrow> pending_out q t = pending_out q s @ frames ps)"
      by (simp_all add: said_def)
    from o sp that(2) obtain qs where qs: "safe qs" "written f h @ pending_out q s = frames qs"
      and b: "obuf q s" "8192 \<le> room q s" "fd_at q s = Some f" by auto
    have "pending_out q t = pending_out q s @ frames ps" using k b s(4) by simp
    then have "written f (h @ h') @ pending_out q t = frames (qs @ ps)"
      using qs(2) h'(2) by (simp add: unwritten_def flip: append_assoc)
    moreover have "safe (qs @ ps)" using qs(1) ps(1) safe_append by simp
    moreover have "fd_at q t = Some f" using fd_at_keeps [OF b(3) _ s(3)] ps(2) by (simp add: said_def)
    moreover have "obuf q t \<and> 8192 \<le> room q t" using k b by simp
    ultimately show ?thesis by blast
  qed
  moreover have "hist t = h0 @ h @ h'" using h h'(1) by simp
  ultimately show ?thesis unfolding speaks_def by blast
qed

lemma handleWrite_effect:
  assumes f: "conns_fine {} s" and r: "handleWrite K U p s = Inr s'"
  obtains tc c bs buf w h where "conns s p = Some tc" "chans s (socketChannel tc) = Some c" "Peek (outputBuffer tc) = Inr bs"
    "k_write K (hist s) (fd c) bs = w" "Retrieve (case w of Inl e \<Rightarrow> - 1 | Inr m \<Rightarrow> int m) (outputBuffer tc) = Inr buf"
    "conns s' = (conns s)(p \<mapsto> tc\<lparr>outputBuffer := buf\<rparr>)" "fds s s'" "hist s' = hist s @ SysWrite (fd c) bs w # h" "unwritten h"
proof -
  obtain tc c bs buf where tc: "conns s p = Some tc" "chans s (socketChannel tc) = Some c" "Peek (outputBuffer tc) = Inr bs"
      "Retrieve (case k_write K (hist s) (fd c) bs of Inl e \<Rightarrow> - 1 | Inr m \<Rightarrow> int m) (outputBuffer tc) = Inr buf"
    using r by (auto simp: handleWrite_def rbind_eq_Inr Let_def)
  let ?e = "SysWrite (fd c) bs (k_write K (hist s) (fd c) bs)"
  let ?s2 = "upd_conn p (tc\<lparr>outputBuffer := buf\<rparr>) (log_sys ?e s)"
  have w: "writeCompleteCallback tc = Some DefaultCb" using conns_fineD(4) [OF f tc(1)] by (simp add: conn_fine_def)
  have "conns s' = (conns s)(p \<mapsto> tc\<lparr>outputBuffer := buf\<rparr>) \<and> fds s s' \<and> (\<exists>h. hist s' = hist s @ ?e # h \<and> unwritten h)"
  proof (cases "ReadableBytes buf = 0")
    case False
    with r tc have "s' = ?s2" by (simp add: handleWrite_def Let_def)
    then show ?thesis by (simp add: upd_conn_def log_sys_def fds_def)
  next
    case True
    let ?s3 = "upd_chan (socketChannel tc) (snd (DisableWrite c)) ?s2"
    from True r tc w obtain s4 where s4: "UpdateChannel K (socketChannel tc) ?s3 = Inr s4"
        "s' = s4 \<or> s' = log_sys (SysShutdown (fd c)) s4"
      by (auto simp: handleWrite_def Let_def rbind_eq_Inr call_back_def default_callback_def split: if_splits)
    obtain op g ev where h4: "hist s4 = hist ?s3 @ [SysEpollCtl op g ev None]" using UpdateChannel_hist [OF s4(1)] by blast
    have "fds s ?s3" using tc(2) by (simp add: fds_def upd_chan_def upd_conn_def log_sys_def channel_ops)
    then have "fds s s4" using fds_trans UpdateChannel_fds [OF s4(1)] by blast
    then have "fds s s'" using s4(2) by (auto simp: fds_def log_sys_def)
    moreover have "conns s' = (conns s)(p \<mapsto> tc\<lparr>outputBuffer := buf\<rparr>)"
      using s4(2) UpdateChannel_same(3) [OF s4(1)] by (auto simp: upd_conn_def upd_chan_def log_sys_def)
    moreover have "\<exists>h. hist s' = hist s @ ?e # h \<and> unwritten h"
      using s4(2) h4 by (auto simp: upd_conn_def upd_chan_def log_sys_def unwritten_def written_def)
    ultimately show ?thesis by blast
  qed
  with tc that show thesis by blast
qed

lemma written_Cons: "written f (e # h) = written f [e] @ written f h"
  by (simp add: written_def)

lemma written_other: "g \<noteq> f \<Longrightarrow> written f [SysWrite g bs w] = []"
  by (simp add: written_def split: sum.split)

lemma speaks_write:
  assumes s: "speaks q f h0 s" and K: "write_documented K" and f: "conns_fine {} s" and w: "world_inv {} s"
    and due: "write_due p s" and r: "handleWrite K U p s = Inr s'"
  shows "speaks q f h0 s'"
proof -
  obtain tc c bs buf wr h where h: "conns s p = Some tc" "chans s (socketChannel tc) = Some c" "Peek (outputBuffer tc) = Inr bs"
    "k_write K (hist s) (fd c) bs = wr" "Retrieve (case wr of Inl e \<Rightarrow> - 1 | Inr m \<Rightarrow> int m) (outputBuffer tc) = Inr buf"
    "conns s' = (conns s)(p \<mapsto> tc\<lparr>outputBuffer := buf\<rparr>)" "fds s s'" "hist s' = hist s @ SysWrite (fd c) bs wr # h" "unwritten h"
    using handleWrite_effect [OF f r] .
  obtain g where g: "hist s = h0 @ g" and sp: "open_at q s \<and> unrefused f g \<Longrightarrow> obuf q s \<and> 8192 \<le> room q s \<and> fd_at q s = Some f
      \<and> (\<exists>ps. safe ps \<and> written f g @ pending_out q s = frames ps)"
    using s unfolding speaks_def by blast
  let ?g = "g @ SysWrite (fd c) bs wr # h"
  have "obuf q s' \<and> 8192 \<le> room q s' \<and> fd_at q s' = Some f \<and> (\<exists>ps. safe ps \<and> written f ?g @ pending_out q s' = frames ps)"
    if a: "open_at q s'" "unrefused f ?g"
  proof -
    have o: "open_at q s" using a(1) h(1,6) by (auto simp: open_at_def split: if_splits)
    then obtain qs where qs: "safe qs" "written f g @ pending_out q s = frames qs"
      and b: "obuf q s" "8192 \<le> room q s" "fd_at q s = Some f" using sp a(2) by auto
    have fd': "fd_at q s' = Some f" using b(3) h(1,6,7) by (fastforce simp: fd_at_def fds_def split: option.splits if_splits)
    have key: "obuf q s' \<and> room q s' = room q s
        \<and> written f [SysWrite (fd c) bs wr] @ pending_out q s' = pending_out q s"
    proof (cases "p = q")
      case True
      have fc: "fd c = f" using b(3) h(1,2) True by (simp add: fd_at_def)
      then obtain m where m: "wr = Inr m" using a(2) by (cases wr) (auto simp: unrefused_def)
      then have le: "m \<le> length bs" using K h(4) unfolding write_documented_def by blast
      have "buf_inv (outputBuffer tc)" using b(1) h(1) True by (auto simp: obuf_def)
      moreover from this have bs: "bs = content (outputBuffer tc)" using Peek_content h(3) by simp
      ultimately have buf: "buf_inv buf" "content buf = drop m bs" using Retrieve_ok [of "outputBuffer tc" "int m"] h(5) m le by auto
      have "data buf = data (outputBuffer tc)" using h(5) by (auto simp: Retrieve_def split: if_splits)
      then show ?thesis using buf h(1,6) True m fc bs
        by (simp add: obuf_def room_def pending_out_def)
    next
      case False
      obtain td d where td: "conns s q = Some td" "tstate td = Connected" "chans s (socketChannel td) = Some d" "fd d = f"
        using b(3) o by (auto simp: fd_at_def open_at_def split: option.splits)
      have "is_open tc" using due h(1,2) by (simp add: write_due_def)
      then have "mapped s (fd c) = Some (socketChannel tc)" using open_mapped [OF w h(1)] h(2) by (metis option.inject)
      moreover have "mapped s f = Some (socketChannel td)" using open_mapped [OF w td(1)] td(2-4) by (metis option.inject)
      moreover have "socketChannel tc \<noteq> socketChannel td" using conns_ok_inj [OF world_invD(3) [OF w] h(1) td(1)] False by blast
      ultimately have "fd c \<noteq> f" by auto
      then show ?thesis using h(6) b(1) False by (simp add: written_other obuf_def room_def pending_out_def)
    qed
    have "written f (SysWrite (fd c) bs wr # h) = written f [SysWrite (fd c) bs wr]"
      using h(9) by (subst written_Cons) (simp add: unwritten_def)
    then have "written f ?g @ pending_out q s' = frames qs" using qs(2) key by simp
    then show ?thesis using key b(2) fd' qs(1) by auto
  qed
  moreover have "hist s' = h0 @ ?g" using h(8) g by simp
  ultimately show ?thesis unfolding speaks_def by blast
qed

text \<open>The write callback of a closed connection touches no other one.\<close>

lemma speaks_stale:
  assumes s: "speaks q f h0 s" and c: "closed_at p s" and r: "handleWrite (closed_kernel K) U p s = Inr s'"
  shows "speaks q f h0 s'"
proof -
  obtain tc c bs buf where e: "conns s p = Some tc" "tstate tc = Disconnected" "chans s (socketChannel tc) = Some c"
      "s' = upd_conn p (tc\<lparr>outputBuffer := buf\<rparr>) (log_sys (SysWrite (fd c) bs (Inl EBADF)) s)"
    using stale_write [OF c r] by blast
  obtain g where g: "hist s = h0 @ g" and sp: "open_at q s \<and> unrefused f g \<Longrightarrow> obuf q s \<and> 8192 \<le> room q s \<and> fd_at q s = Some f
      \<and> (\<exists>ps. safe ps \<and> written f g @ pending_out q s = frames ps)"
    using s unfolding speaks_def by blast
  have "written f [SysWrite (fd c) bs (Inl EBADF)] = []" by (simp add: written_def)
  moreover have "q \<noteq> p" if "open_at q s'" using that e by (auto simp: open_at_def)
  ultimately have "obuf q s' \<and> 8192 \<le> room q s' \<and> fd_at q s' = Some f
      \<and> (\<exists>ps. safe ps \<and> written f (g @ [SysWrite (fd c) bs (Inl EBADF)]) @ pending_out q s' = frames ps)"
    if "open_at q s'" "unrefused f (g @ [SysWrite (fd c) bs (Inl EBADF)])"
    using that sp e by (simp add: open_at_def obuf_def room_def fd_at_def pending_out_def split: option.splits)
  then show ?thesis unfolding speaks_def using g e(4) by (intro exI [of _ "g @ [SysWrite (fd c) bs (Inl EBADF)]"]) simp
qed

text \<open>A connection that arrives changes nothing for the others, and starts with nothing to say.\<close>

lemma accept_effect:
  assumes f: "conns_fine {} s" and w: "world_inv {} s" and r: "accept_conn K (chess_user K ro n) g peer s = Inr s'"
  obtains tc h where "conns s' = (conns s)(nextConn s \<mapsto> tc)" "outputBuffer tc = NewBuffer" "fds s s'"
    "fd_at (nextConn s) s' = Some g" "hist s' = hist s @ h" "unwritten h"
proof -
  let ?q = "nextConn s"
  obtain s3 s4 tc c where s4: "UpdateChannel K (nextPtr s) (upd_conn ?q (tc\<lparr>tstate := Connected\<rparr>) s3) = Inr s4"
      and oc: "OnConnect ?q s4 = Inr s'" and c4: "conns s4 = (conns s)(?q \<mapsto> tc\<lparr>tstate := Connected\<rparr>)"
      and tc: "outputBuffer tc = NewBuffer" "socketChannel tc = nextPtr s"
      and s3: "hist s3 = hist s" "chans s3 = (chans s)(nextPtr s \<mapsto> c)" "fd c = g"
    by (rule accept_steps [OF conns_fineD(1) [OF f] r]) blast
  let ?s = "upd_conn ?q (tc\<lparr>tstate := Connected\<rparr>) s3"
  from oc obtain tc' where s': "conns s' = (conns s4)(?q \<mapsto> tc')" "chans s' = chans s4" "hist s' = hist s4"
      "outputBuffer tc' = NewBuffer" "socketChannel tc' = nextPtr s"
    using c4 tc
    by (auto simp: OnConnect_def Let_def conn_SetContext_def SetDisConnectedCallback_def set_conn_def rbind_eq_Inr
        upd_cc_def upd_conn_def)
  obtain op a ev where h: "hist s4 = hist s @ [SysEpollCtl op a ev None]"
    using UpdateChannel_hist [OF s4] s3(1) by (auto simp: upd_conn_def)
  have "chans s (nextPtr s) = None" using world_invD(3) [OF w] by (simp add: conns_ok_def)
  then have "fds s ?s" using s3(2) by (auto simp: fds_def upd_conn_def)
  then have "fds s s'" using fds_trans [OF _ UpdateChannel_fds [OF s4]] s'(2) by (simp add: fds_def)
  moreover have "fd_at ?q s' = Some g"
    using UpdateChannel_fds [OF s4] s' s3(2,3) by (auto simp: fds_def fd_at_def upd_conn_def)
  moreover have "conns s' = (conns s)(?q \<mapsto> tc')" using s'(1) c4 by simp
  ultimately show thesis using s' h by (intro that) auto
qed

lemma speaks_start:
  assumes "conns_fine {} s" "world_inv {} s" "chess_event_step K ro n (EvAccept f peer) s = Inr s'"
  shows "speaks (nextConn s) f (hist s) s'" "conns s' (nextConn s) \<noteq> None"
proof -
  have "accept_conn K (chess_user K ro n) f peer s = Inr s'" using assms(3) by (simp add: chess_event_step_def)
  then obtain tc h where h: "conns s' = (conns s)(nextConn s \<mapsto> tc)" "outputBuffer tc = NewBuffer" "fds s s'"
    "fd_at (nextConn s) s' = Some f" "hist s' = hist s @ h" "unwritten h"
    using accept_effect [OF assms(1,2)] by metis
  have "obuf (nextConn s) s'" "room (nextConn s) s' = 8192" "pending_out (nextConn s) s' = []"
    using h(1,2) NewBuffer_inv NewBuffer_content by (simp_all add: obuf_def room_def pending_out_def NewBuffer_def)
  with h(4-6) show "speaks (nextConn s) f (hist s) s'"
    unfolding speaks_def unwritten_def by (intro exI [of _ h] conjI impI exI [of _ "[]"]) simp_all
  show "conns s' (nextConn s) \<noteq> None" using h(1) by simp
qed

lemma speaks_accept:
  assumes s: "speaks q f h0 s" "conns s q \<noteq> None" and w: "conns_fine {} s" "world_inv {} s"
    and r: "accept_conn K (chess_user K ro n) g peer s = Inr s'"
  shows "speaks q f h0 s'"
proof -
  obtain tc h where h: "conns s' = (conns s)(nextConn s \<mapsto> tc)" "fds s s'" "hist s' = hist s @ h" "unwritten h"
    using accept_effect [OF w r] by metis
  have "q \<noteq> nextConn s" using conns_fineD(3) [OF w(1), of "nextConn s"] s(2) by auto
  then have c: "conns s' q = conns s q" using h(1) by simp
  have "fd_at q s' = Some f" if "fd_at q s = Some f"
    using that c h(2) by (fastforce simp: fd_at_def fds_def split: option.splits)
  moreover obtain g where g: "hist s = h0 @ g" and sp: "open_at q s \<and> unrefused f g \<Longrightarrow> obuf q s \<and> 8192 \<le> room q s \<and> fd_at q s = Some f
      \<and> (\<exists>ps. safe ps \<and> written f g @ pending_out q s = frames ps)"
    using s(1) unfolding speaks_def by blast
  moreover have "open_at q s' = open_at q s" "obuf q s' = obuf q s" "room q s' = room q s" "pending_out q s' = pending_out q s"
    using c by (simp_all add: open_at_def obuf_def room_def pending_out_def)
  ultimately show ?thesis
    unfolding speaks_def using h(3,4) by (intro exI [of _ "g @ h"]) (simp add: unwritten_def)
qed

lemma speaks_event:
  assumes s: "speaks q f h0 s" "conns s q \<noteq> None" and i: "chess_inv {} s" "world_inv {} s"
    and K: "ctl_documented K" "write_documented K" "range_documented ro"
    and r: "chess_event_step K ro n e s = Inr s'" "length (pending_out q s') \<le> 8192"
  shows "speaks q f h0 s' \<and> conns s' q \<noteq> None"
proof -
  have ev: "evolves s s'" using on_okD [OF chess_event_sound [OF K(1) i(2)] r(1)] by (simp add: sound_def)
  note fine = chess_invD(1) [OF i(1)]
  have "speaks q f h0 s'"
  proof (cases e)
    case (EvAccept g peer)
    then show ?thesis using speaks_accept [OF s fine i(2)] r(1) by (simp add: chess_event_step_def)
  next
    case (EvRead p)
    then show ?thesis using speaks_tells [OF s(1) handleRead_tells [OF i(1) K(3)] ev r(2)] r(1)
      by (simp add: chess_event_step_def)
  next
    case (EvWrite p)
    then show ?thesis using speaks_write [OF s(1) K(2) fine i(2)] speaks_stale [OF s(1)] r(1) s(1)
      by (simp add: chess_event_step_def split: if_splits)
  next
    case EvTimeout
    then show ?thesis using speaks_tells [OF s(1) OnTimeout_tells [OF i(1) chess_user_closes] ev r(2)] r(1)
      by (simp add: chess_event_step_def)
  qed
  moreover have "conns s' q \<noteq> None" using ev s(2) unfolding evolves_def by fastforce
  ultimately show ?thesis by blast
qed

text \<open>After each event, how many bytes are queued on \<open>q\<close>.\<close>

primrec queue_within :: "nat \<Rightarrow> (chess_event \<Rightarrow> chess_step) \<Rightarrow> nat \<Rightarrow> chess_event list \<Rightarrow> chess_world \<Rightarrow> bool" where
  "queue_within b step q [] s = True"
| "queue_within b step q (e # es) s = (case step e s of Inl err \<Rightarrow> True
     | Inr s' \<Rightarrow> length (pending_out q s') \<le> b \<and> queue_within b step q es s')"

lemma speaks_events:
  assumes K: "ctl_documented K" "write_documented K" "range_documented ro"
  shows "rfold (chess_event_step K ro n) es s = Inr s' \<Longrightarrow> queue_within 8192 (chess_event_step K ro n) q es s \<Longrightarrow>
    speaks q f h0 s \<Longrightarrow> conns s q \<noteq> None \<Longrightarrow> chess_inv {} s \<Longrightarrow> world_inv {} s \<Longrightarrow>
    sint (AtomicIDIncrease s) + int (length es) \<le> 2 ^ 31 - 1 \<Longrightarrow> speaks q f h0 s'"
proof (induction es arbitrary: s)
  case (Cons e es)
  then obtain s1 where s1: "chess_event_step K ro n e s = Inr s1" "rfold (chess_event_step K ro n) es s1 = Inr s'"
    by (auto simp: rbind_eq_Inr)
  with Cons.prems(2) have w: "length (pending_out q s1) \<le> 8192" "queue_within 8192 (chess_event_step K ro n) q es s1" by simp_all
  have "rfold (chess_event_step K ro n) [e] s = Inr s1" "sint (AtomicIDIncrease s) + int (length [e]) \<le> 2 ^ 31 - 1"
    using s1(1) Cons.prems(7) by simp_all
  from chess_events_inv [OF this(1) Cons.prems(5,6) K(3,1) this(2)]
  have i: "chess_inv {} s1" "world_inv {} s1" "sint (AtomicIDIncrease s1) \<le> sint (AtomicIDIncrease s) + 1" by simp_all
  show ?case
    by (rule Cons.IH [OF s1(2) w(2)])
      (use speaks_event [OF Cons.prems(3-6) K s1(1) w(1)] i Cons.prems(7) in simp_all)
qed simp

text \<open>Of a stream of frames that is cut off anywhere the reader gets the first packets.\<close>

lemma reader_prefix:
  assumes "concat (chunks conn) = take k (frames ps)" "\<forall>p \<in> set ps. length p < 2 ^ 32"
  shows "\<exists>j. fst (conn_reader conn) = take j (map ClientParse ps)"
  using assms
proof (induction ps arbitrary: conn k)
  case Nil
  then have "concat (chunks conn) = concat (map DoPackWith4BytesHeader [])" by simp
  from reader_frames [OF this] show ?case by simp
next
  case (Cons p ps)
  show ?case
  proof (cases "k < 4 + length p")
    case True
    then have "concat (chunks conn) = take k (DoPackWith4BytesHeader p)" using Cons.prems(1) by simp
    from ReadPacket_short [OF this True] Cons.prems(2) obtain e c1
      where "ReadPacketBytesWith4BytesHeader conn = (Inl e, c1)" by auto
    then show ?thesis by (subst conn_reader.simps) (simp add: exI [of _ 0])
  next
    case False
    then have "concat (chunks conn) = DoPackWith4BytesHeader p @ take (k - (4 + length p)) (frames ps)"
      using Cons.prems(1) by simp
    from ReadPacket_frame [OF this] Cons.prems(2) obtain c1 where c1: "ReadPacketBytesWith4BytesHeader conn = (Inr p, c1)"
      "concat (chunks c1) = take (k - (4 + length p)) (frames ps)" by auto
    then obtain j where "fst (conn_reader c1) = take j (map ClientParse ps)" using Cons.IH [OF c1(2)] Cons.prems(2) by auto
    with c1(1) show ?thesis
      by (subst conn_reader.simps) (auto intro: exI [of _ "Suc j"] split: prod.split)
  qed
qed

section \<open>Properties\<close>

text \<open>C16. The chess server never makes its client panic. Take any run of the server from its start, with any
  events before and after it accepts a connection, that does not panic and after which that connection is still established, and
  whose output queue never holds more than the 8192 bytes its array starts with, and during which the kernel refused no write to that connection
  (after a refused write the server sends a byte a second time). What was written to the connection, followed
  by what is still queued, is a sequence of whole frames; and of any part of it that has reached a client,
  in whatever chunks, the client reads packets that follow its protocol, so that it does not panic, whatever commands,
  ticks and errors come in between and however many of the packets it takes.\<close>

theorem server_never_panics_client:
  assumes "ctl_documented K" "write_documented K" "range_documented ro" "chess_start s0" "world_inv {} s0"
    "rfold (chess_event_step K ro n) evs1 s0 = Inr s1" "chess_event_step K ro n (EvAccept f peer) s1 = Inr s2"
    "rfold (chess_event_step K ro n) evs2 s2 = Inr s3" "int (length evs1) + int (length evs2) < 2 ^ 31 - 1"
    "queue_within 8192 (chess_event_step K ro n) (nextConn s1) evs2 s2" "open_at (nextConn s1) s3"
    "hist s3 = hist s1 @ h" "unrefused f h" "concat (chunks conn) = take k (written f h)"
  shows "(\<exists>ps. written f h @ pending_out (nextConn s1) s3 = concat (map DoPackWith4BytesHeader ps))
    \<and> follows StateNone (fst (conn_reader conn))
    \<and> (\<forall>W dial es j. packets_of es = take j (fst (conn_reader conn)) \<longrightarrow> is_ok (client_main W dial es))"
proof -
  have a: "sint (AtomicIDIncrease s0) = 0" using assms(4) by (simp add: chess_start_def)
  from chess_events_inv [OF assms(6) chess_start_inv [OF assms(4)] assms(5,3,1)] assms(9) a
  have i1: "chess_inv {} s1" "world_inv {} s1" "sint (AtomicIDIncrease s1) \<le> int (length evs1)" by simp_all
  have "rfold (chess_event_step K ro n) [EvAccept f peer] s1 = Inr s2" using assms(7) by simp
  from chess_events_inv [OF this i1(1,2) assms(3,1)] i1(3) assms(9)
  have i2: "chess_inv {} s2" "world_inv {} s2" "sint (AtomicIDIncrease s2) \<le> int (length evs1) + 1" by simp_all
  have "speaks (nextConn s1) f (hist s1) s3"
    by (rule speaks_events [OF assms(1-3,8,10) speaks_start [OF chess_invD(1) [OF i1(1)] i1(2) assms(7)] i2(1,2)])
      (use i2(3) assms(9) in simp)
  then obtain ps where ps: "safe ps" "written f h @ pending_out (nextConn s1) s3 = frames ps"
    using assms(11-13) by (auto simp: speaks_def)
  have "written f h = take (length (written f h)) (frames ps)" by (simp flip: ps(2))
  then have "concat (chunks conn) = take (min k (length (written f h))) (frames ps)" using assms(14) by (metis take_take)
  from reader_prefix [OF this] ps(1) obtain j where "fst (conn_reader conn) = take j (map ClientParse ps)"
    by (auto simp: safe_def)
  then have "follows StateNone (fst (conn_reader conn))" using ps(1) follows_take by (simp add: safe_def)
  moreover from this have "is_ok (client_main W dial es)" if "packets_of es = take j (fst (conn_reader conn))" for W dial es j
    using client_main_safe follows_take that by simp
  ultimately show ?thesis using ps(2) by (auto simp: frames_def)
qed

text \<open>Concrete run: a connection arrives, a heartbeat is due, the socket takes it.\<close>

theorem server_never_panics_client_witness:
  "\<exists>s2 s3 h. chess_event_step (sample_kernel []) sample_range 2 (EvAccept 7 (0, 0)) chess_sample = Inr s2
    \<and> rfold (chess_event_step (sample_kernel []) sample_range 2) [EvTimeout, EvWrite 0] s2 = Inr s3
    \<and> hist s3 = hist chess_sample @ h \<and> written 7 h = DoPackWith4BytesHeader (Marshal_Heartbeat zero_header)
    \<and> follows StateNone (fst (conn_reader \<lparr>chunks = [written 7 h], conn_err = EOF\<rparr>))"
proof -
  let ?K = "sample_kernel []"
  let ?step = "chess_event_step ?K sample_range (Suc (Suc 0))"
  let ?f = "DoPackWith4BytesHeader (Marshal_Heartbeat zero_header)"
  have n: "length ?f \<le> 100" using size_jint [of 0] by (simp add: Marshal_Heartbeat_def size_simps)
  then have "int (length ?f) \<le> int (length (data NewBuffer)) - writeIndex NewBuffer" by (simp add: NewBuffer_def)
  from Append_tail [OF NewBuffer_inv this] obtain b where b: "Append ?f NewBuffer = Inr b" "buf_inv b" "content b = ?f"
    by (auto simp: NewBuffer_content)
  have p: "Peek b = Inr ?f" using Peek_content [OF b(2)] b(3) by simp
  obtain b' where b': "Retrieve (int (length ?f)) b = Inr b'" "buf_inv b'" "content b' = []"
    using Retrieve_ok [OF b(2), of "int (length ?f)"] b(3) by auto
  have r': "ReadableBytes b' = 0" using content_length [OF b'(2)] b'(3) by simp
  note start = chess_event_step_def accept_conn_def newConnection_def alloc_chan_def Let_def
        setConnectedCallback_def setMessageCallback_def set_conn_def deref_conn_def upd_conn_def upd_chan_def
        RunInLoop_def run_functor_def run_conn_def establishConn_def UpdateChannel_def base_frame chess_sample_def
        channel_ops sample_kernel_def registered_def call_back_def OnConnect_def conn_SetContext_def SetDisConnectedCallback_def
        upd_cc_def OnTimeout_def sample_range_def beat_def send_packet_def Send_def send_in_loop_def
        b(1) WritableEvent_def deref_cc_def MaxLoseHeartbeat_def
  note flush = handleWrite_def write_due_def p b'(1) b'(1) [simplified] r' ReadableEvent_def default_callback_def log_sys_def
  have "case ?step (EvAccept 7 (0, 0)) chess_sample of Inl x \<Rightarrow> False | Inr s2 \<Rightarrow> (case ?step EvTimeout s2 of Inl x \<Rightarrow> False
     | Inr s \<Rightarrow> (case ?step (EvWrite 0) s of Inl x \<Rightarrow> False
     | Inr s3 \<Rightarrow> pending_out 0 s = ?f \<and> pending_out 0 s3 = [] \<and> open_at 0 s3
       \<and> take 1 (hist s3) = hist chess_sample \<and> written 7 (drop 1 (hist s3)) = ?f
       \<and> unrefused 7 (drop 1 (hist s3))))"
    by (simp add: start flush pending_out_def open_at_def written_def unrefused_def b(3) b'(3))
  then obtain s2 s s3 where s2: "?step (EvAccept 7 (0, 0)) chess_sample = Inr s2" and s: "?step EvTimeout s2 = Inr s"
      and s3: "?step (EvWrite 0) s = Inr s3" and q: "pending_out 0 s = ?f" "pending_out 0 s3 = []" "open_at 0 s3"
      and h: "hist s3 = hist chess_sample @ drop 1 (hist s3)" "written 7 (drop 1 (hist s3)) = ?f" "unrefused 7 (drop 1 (hist s3))"
    by (auto split: sum.splits) (metis append_take_drop_id)
  have run: "rfold ?step [EvTimeout, EvWrite 0] s2 = Inr s3" using s s3 by simp
  have "nextConn chess_sample = 0" by (simp add: chess_sample_def)
  with server_never_panics_client [OF sample_ctl _ sample_range_documented chess_sample_inv _ s2 run, of "[]" "drop 1 (hist s3)"
      "\<lparr>chunks = [written 7 (drop 1 (hist s3))], conn_err = EOF\<rparr>" "length ?f"] n q s s3 h
  have "follows StateNone (fst (conn_reader \<lparr>chunks = [written 7 (drop 1 (hist s3))], conn_err = EOF\<rparr>))"
    by (simp add: sample_io)
  with s2 run h show ?thesis unfolding numeral_2_eq_2 by blast
qed

end
