(* ===== verification/Chess_Heartbeat.thy ===== *)
theory Chess_Heartbeat
  imports Chess_Play
begin

text \<open>
  Heartbeats on the chess server: how every event changes the counters \<^verbatim>\<open>LoseHertbeatCount\<close>, and that a
  client that sends nothing is dropped.
\<close>

section \<open>The counters\<close>

text \<open>The connection and the counter of each identifier in \<^verbatim>\<open>ConnMap\<close>.\<close>

definition lose :: "chess_world \<Rightarrow> int \<Rightarrow> (nat \<times> int) option" where
  "lose s k = map_option (\<lambda>cc. (ccConn cc, LoseHertbeatCount cc)) (ConnMap s k)"

lemma lose_simps [simp]:
  "lose (upd_cc k cc s) = (lose s)(k \<mapsto> (ccConn cc, LoseHertbeatCount cc))" "lose (upd_game a g s) = lose s"
  "lose (upd_conn q tc s) = lose s" "lose (s\<lparr>ConnMap := (ConnMap s)(k := None)\<rparr>) = (lose s)(k := None)"
  "lose (s\<lparr>nextGame := n\<rparr>) = lose s"
  by (auto simp: lose_def upd_cc_def upd_game_def upd_conn_def)

lemma lose_same: "same_app s s' \<Longrightarrow> lose s' = lose s"
  by (auto simp: lose_def same_app_def)

lemma lose_upd:
  "ConnMap s k = Some cc \<Longrightarrow> ccConn c = ccConn cc \<Longrightarrow> LoseHertbeatCount c = LoseHertbeatCount cc \<Longrightarrow> lose (upd_cc k c s) = lose s"
  by (auto simp: lose_def)

lemma send_lose: "send_packet K U p body s = Inr s' \<Longrightarrow> conns_fine X s \<Longrightarrow> lose s' = lose s"
  using lose_same send_fine(2) by blast

section \<open>Closing\<close>

lemma OnClose_lose:
  assumes "conns_fine {k} s" "conn_id p s = Inr k" "OnClose K V p s = Inr s'"
  shows "lose s' = (lose s)(k := None)"
proof -
  obtain s2 and cc :: ConnContext where s': "s' = s2\<lparr>ConnMap := (ConnMap s2)(k := None)\<rparr>"
      and m: "(if ccState cc = ConnStateGaming then
              rbind (deref_game (Gcontext cc) s) (\<lambda>(a, g).
                let remoteID = (if BlackConnID g = k then RedConnID g else BlackConnID g)
                in rbind (deref_cc remoteID s) (\<lambda>rc.
                     let s1 = upd_cc remoteID (rc\<lparr>Gcontext := None, ccState := ConnStateNone\<rparr>) s
                     in send_packet K V (ccConn rc) (Marshal_ServerRemoteLoseConnection zero_header) s1))
            else Inr s) = Inr s2"
    using assms(3) unfolding OnClose_def assms(2) rbind.simps rbind_eq_Inr sum.inject by (elim exE conjE) (rule that, rule sym, assumption+)
  have "lose s2 = lose s"
  proof (cases "ccState cc = ConnStateGaming")
    case False
    with m show ?thesis by simp
  next
    case True
    then obtain r rc where r: "ConnMap s r = Some rc" "send_packet K V (ccConn rc)
        (Marshal_ServerRemoteLoseConnection zero_header) (upd_cc r (rc\<lparr>Gcontext := None, ccState := ConnStateNone\<rparr>) s) = Inr s2"
      using m unfolding Let_def if_P [OF True] rbind_eq_Inr prod.case_eq_if deref_cc_Inr by blast
    have "conns_fine {k} (upd_cc r (rc\<lparr>Gcontext := None, ccState := ConnStateNone\<rparr>) s)"
      by (rule conns_fine_upd_cc [OF assms(1) r(1)]) simp_all
    from send_lose [OF r(2) this] lose_upd [OF r(1)] show ?thesis by simp
  qed
  then show ?thesis using s' by simp
qed

lemma handleClose_lose:
  assumes "chess_inv {} s" "closes K U" "handleClose K U p s = Inr s'" "conn_id p s = Inr k"
  shows "lose s' = (lose s)(k := None)"
proof (rule handleClose_steps [OF assms(1-3)])
  fix j cc tc s2 V h
  assume j: "ConnMap s j = Some cc" "ccConn cc = p" "same_app s s2" "conns_fine {j} s2" "OnClose K V p s2 = Inr s'"
  have "k = j" using conn_of_entry [OF chess_invD(1) [OF assms(1)] j(1)] j(2) assms(4) by simp
  moreover have "conn_id p s2 = Inr j" using conn_of_entry [OF j(4)] j(1,2) same_appD(1) [OF j(3)] by auto
  ultimately show ?thesis using OnClose_lose [OF j(4) _ j(5)] lose_same [OF j(3)] by simp
qed

lemma force_close_lose:
  assumes "chess_inv {} s" "closes K U" "force_close K U p s = Inr s'" "conn_id p s = Inr k"
  shows "lose s' = (lose s)(k := None)"
proof -
  note f = chess_invD(1) [OF assms(1)]
  obtain tc where tc: "conns s p = Some tc" "if is_open tc then handleClose K U p s = Inr s' else s' = s"
    using force_close_steps [OF assms(1,3)] by blast
  show ?thesis
  proof (cases "is_open tc")
    case True
    with tc handleClose_lose [OF assms(1,2) _ assms(4)] show ?thesis by simp
  next
    case False
    have "ConnMap s k = None"
    proof (rule ccontr)
      assume "ConnMap s k \<noteq> None"
      then obtain cc where k: "ConnMap s k = Some cc" by blast
      have "ccConn cc = p" using entry_of_conn [OF f assms(4) k] by simp
      with entry_fineD [OF conns_fineD(7) [OF f k]] tc(1) False show False by auto
    qed
    with tc(2) False show ?thesis by (auto simp: lose_def)
  qed
qed

section \<open>Heartbeat timeouts\<close>

text \<open>What one timeout does to a counter.\<close>

definition tick :: "(nat \<times> int) option \<Rightarrow> (nat \<times> int) option" where
  "tick x = (case x of None \<Rightarrow> None | Some (q, n) \<Rightarrow> if n + 1 \<ge> MaxLoseHeartbeat then None else Some (q, n + 1))"

lemma beat_lose:
  assumes inv: "chess_inv {} t" and U: "closes K U" and b: "beat K U k t = Inr u"
  shows "chess_inv {} u \<and> lose u = (lose t)(k := tick (lose t k))"
proof -
  have "OnTimeout K U (\<lambda>h m. [k]) t = Inr u" using b by (simp add: OnTimeout_def)
  then have "chess_inv {} u" using OnTimeout_inv [OF inv U] by blast
  moreover have "lose u = (lose t)(k := tick (lose t k))"
  proof (cases "ConnMap t k")
    case None
    with b show ?thesis by (auto simp: beat_def lose_def tick_def)
  next
    case (Some cc)
    show ?thesis
    proof (rule beat_steps [OF inv b Some])
      fix s1 let ?s2 = "upd_cc k (cc\<lparr>LoseHertbeatCount := LoseHertbeatCount cc + 1\<rparr>) s1"
      assume s1: "same_app t s1" "chess_inv {} ?s2"
        "if LoseHertbeatCount cc + 1 \<ge> MaxLoseHeartbeat then force_close K U (ccConn cc) ?s2 = Inr u else u = ?s2"
      have "conn_id (ccConn cc) ?s2 = Inr k" using conn_of_entry [OF chess_invD(1) [OF s1(2)], of k] by simp
      from force_close_lose [OF s1(2) U _ this] s1(3) Some lose_same [OF s1(1)] show ?thesis
        by (auto simp: tick_def lose_def split: if_splits)
    qed
  qed
  ultimately show ?thesis by blast
qed

lemma OnTimeout_lose:
  assumes inv: "chess_inv {} s" and U: "closes K U" and ro: "range_documented ro" and r: "OnTimeout K U ro s = Inr s'"
  shows "lose s' = (\<lambda>k. tick (lose s k))"
proof -
  have run: "rfold (beat K U) ks t = Inr u \<Longrightarrow> chess_inv {} t \<Longrightarrow> distinct ks \<Longrightarrow>
      lose u = (\<lambda>k. if k \<in> set ks then tick (lose t k) else lose t k)" for ks t u
  proof (induction ks arbitrary: t)
    case (Cons k ks)
    then obtain v where v: "beat K U k t = Inr v" "rfold (beat K U) ks v = Inr u" by (auto simp: rbind_eq_Inr)
    from Cons.IH [OF v(2)] beat_lose [OF Cons.prems(2) U v(1)] Cons.prems(3) show ?case by auto
  qed simp
  have "distinct (ro (hist s) (ConnMap s))" "set (ro (hist s) (ConnMap s)) = dom (ConnMap s)"
    using ro conns_fineD(2) [OF chess_invD(1) [OF inv]] by (auto simp: range_documented_def)
  moreover have "(\<lambda>k. if k \<in> dom (ConnMap s) then tick (lose s k) else lose s k) = (\<lambda>k. tick (lose s k))"
  proof
    show "(if k \<in> dom (ConnMap s) then tick (lose s k) else lose s k) = tick (lose s k)" for k
      by (cases "ConnMap s k") (auto simp: lose_def tick_def)
  qed
  ultimately show ?thesis using run [OF r [unfolded OnTimeout_def] inv] by simp
qed

section \<open>Messages\<close>

lemma OnMessage_lose:
  assumes inv: "chess_inv {} s" and U: "closes K U" and ro: "range_documented ro" and r: "OnMessage K U ro p s = Inr s'"
  shows "\<exists>k y. conn_id p s = Inr k \<and> lose s' = (lose s)(k := y) \<and> (y = lose s k \<or> y = None \<or> y = Some (p, 0) \<and> lose s k \<noteq> None)"
proof -
  obtain k tc bs x where k: "conn_id p s = Inr k" and tc: "conns s p = Some tc"
      and x: "IsBytesCompleteWith4BytesHeader bs = Inr x" "Peek (inputBuffer tc) = Inr bs"
    using r by (auto simp: OnMessage_def rbind_eq_Inr)
  have "\<exists>y. lose s' = (lose s)(k := y) \<and> (y = lose s k \<or> y = None \<or> y = Some (p, 0) \<and> lose s k \<noteq> None)"
  proof (cases x)
    case None
    with r k tc x have "lose s' = (lose s)(k := lose s k)" by (simp add: OnMessage_def)
    then show ?thesis by blast
  next
    case (Some packetBytes)
    with r k tc x obtain buf where
      b: "(case ServerParse packetBytes of None \<Rightarrow> force_close K U p (upd_conn p (tc\<lparr>inputBuffer := buf\<rparr>) s)
        | Some (PacketHeartbeat h) \<Rightarrow> on_heartbeat k (upd_conn p (tc\<lparr>inputBuffer := buf\<rparr>) s)
        | Some (PacketClientStartMatch h) \<Rightarrow> on_start_match K U ro p k (upd_conn p (tc\<lparr>inputBuffer := buf\<rparr>) s)
        | Some (PClientMove packet) \<Rightarrow> on_move K U p k packet (upd_conn p (tc\<lparr>inputBuffer := buf\<rparr>) s)
        | Some y \<Rightarrow> Inr (upd_conn p (tc\<lparr>inputBuffer := buf\<rparr>) s)) = Inr s'"
      by (auto simp: OnMessage_def rbind_eq_Inr Let_def)
    let ?s1 = "upd_conn p (tc\<lparr>inputBuffer := buf\<rparr>) s"
    have i1: "chess_inv {} ?s1"
      by (rule chess_inv_same [OF inv same_upd_conn(1) [OF tc] same_upd_conn(2)]) (simp add: cproj_def)
    have k1: "conn_id p ?s1 = Inr k" using k tc by (auto simp: conn_id_Inr)
    have close: "lose s' = (lose s)(k := None)" if "force_close K U p ?s1 = Inr s'"
      using force_close_lose [OF i1 U that k1] by simp
    have beat: "lose s' = (lose s)(k \<mapsto> (p, 0)) \<and> lose s k \<noteq> None" if "on_heartbeat k ?s1 = Inr s'"
      using that entry_of_conn [OF chess_invD(1) [OF i1] k1] by (auto simp: on_heartbeat_def rbind_eq_Inr lose_def fun_eq_iff upd_conn_def)
    have start: "lose s' = lose s" if "on_start_match K U ro p k ?s1 = Inr s'"
    proof -
      note c = on_start_match_queues [OF i1 U ro k1 that]
      show ?thesis
      proof (cases "find_opponent ro k ?s1")
        case None
        from c [unfolded None option.case] obtain cc where "ConnMap ?s1 k = Some cc"
          "ConnMap s' = (ConnMap ?s1)(k \<mapsto> cc\<lparr>ccState := ConnStateMatching\<rparr>)" by blast
        then show ?thesis by (simp add: lose_def fun_eq_iff upd_conn_def)
      next
        case (Some j)
        from c [unfolded Some option.case] obtain cc and v :: ConnContext where "ConnMap ?s1 k = Some cc" "ConnMap ?s1 j = Some v"
          "ConnMap s' = (ConnMap ?s1)(j \<mapsto> v\<lparr>ccState := ConnStateGaming, Gcontext := Some (nextGame ?s1)\<rparr>,
            k \<mapsto> cc\<lparr>ccState := ConnStateGaming, Gcontext := Some (nextGame ?s1)\<rparr>)" by blast
        then show ?thesis by (simp add: lose_def fun_eq_iff upd_conn_def)
      qed
    qed
    have move: "lose s' = lose s" if m: "on_move K U p k packet ?s1 = Inr s'" for packet
    proof -
      obtain cc a g where g: "ConnMap ?s1 k = Some cc" "Gcontext cc = Some a" "games ?s1 a = Some g"
        using m unfolding on_move_def rbind_eq_Inr by (auto simp: Let_def split: prod.splits)
      define rem where "rem = (if BlackConnID g = k then RedConnID g else BlackConnID g)"
      define side where "side = (if BlackConnID g = k then GameSideBlack else GameSideRed)"
      let ?none = "\<lambda>c::ConnContext. c\<lparr>ccState := ConnStateNone, Gcontext := None\<rparr>"
      from on_move_queues [OF i1 k1 g side_def refl rem_def m]
      obtain rc where rc: "ConnMap ?s1 rem = Some rc"
          "ConnMap s' = ConnMap ?s1 \<or> ConnMap s' = (ConnMap ?s1)(k \<mapsto> ?none cc, rem \<mapsto> ?none rc)"
        by (elim conjE exE) (rule that, assumption, auto split: if_split_asm)
      with g(1) rc show ?thesis by (auto simp: lose_def fun_eq_iff upd_conn_def)
    qed
    have "lose s' = lose s \<or> lose s' = (lose s)(k := None) \<or> lose s' = (lose s)(k \<mapsto> (p, 0)) \<and> lose s k \<noteq> None"
      using b close beat start move by (auto split: option.splits packet.splits)
    then show ?thesis by (metis fun_upd_triv)
  qed
  with k show ?thesis by blast
qed

section \<open>Events\<close>

lemma event_lose:
  assumes inv: "chess_inv {} s" and ro: "range_documented ro" and id: "sint (AtomicIDIncrease s) < 2 ^ 31 - 1"
    and r: "chess_event_step K ro n e s = Inr s'"
  shows "case e of EvTimeout \<Rightarrow> lose s' = (\<lambda>k. tick (lose s k)) | EvWrite p \<Rightarrow> lose s' = lose s
    | EvAccept f peer \<Rightarrow> lose s' = (lose s)(sint (AtomicIDIncrease s) + 1 \<mapsto> (nextConn s, 0))
    | EvRead p \<Rightarrow> \<exists>k y. conn_id p s = Inr k \<and> lose s' = (lose s)(k := y) \<and> (y = lose s k \<or> y = None \<or> y = Some (p, 0) \<and> lose s k \<noteq> None)"
proof (cases e)
  case (EvAccept f peer)
  then have "accept_conn K (chess_user K ro n) f peer s = Inr s'" using r by (simp add: chess_event_step_def)
  from accept_inv(3) [OF inv id this] EvAccept show ?thesis by (simp add: lose_def fun_eq_iff)
next
  case (EvRead p)
  then have h: "handleRead K (chess_user K ro n) p s = Inr s'" using r by (simp add: chess_event_step_def)
  have "\<exists>k y. conn_id p s = Inr k \<and> lose s' = (lose s)(k := y) \<and> (y = lose s k \<or> y = None \<or> y = Some (p, 0) \<and> lose s k \<noteq> None)"
  proof (rule handleRead_steps [OF inv h])
    fix tc s2 b
    assume s2: "conns s p = Some tc" "same_app s s2" "conns s2 = (conns s)(p \<mapsto> tc\<lparr>inputBuffer := b\<rparr>)" "chess_inv {} s2"
      and k: "(\<exists>j. OnMessage K (chess_user K ro j) ro p s2 = Inr s') \<or> handleClose K (chess_user K ro n) p s2 = Inr s'"
    have id: "conn_id p s2 = Inr k \<longleftrightarrow> conn_id p s = Inr k" for k using s2(1,3) by (simp add: conn_id_Inr)
    from k show ?thesis
    proof
      assume "handleClose K (chess_user K ro n) p s2 = Inr s'"
      note c = this handleClose_steps [OF s2(4) chess_user_closes this]
      obtain k where "conn_id p s2 = Inr k" by (rule c(2)) (use conn_of_entry [OF chess_invD(1) [OF s2(4)]] in blast)
      with handleClose_lose [OF s2(4) chess_user_closes c(1) this] id lose_same [OF s2(2)] show ?thesis by auto
    next
      assume "\<exists>j. OnMessage K (chess_user K ro j) ro p s2 = Inr s'"
      then obtain j where "OnMessage K (chess_user K ro j) ro p s2 = Inr s'" by blast
      from OnMessage_lose [OF s2(4) chess_user_closes ro this] show ?thesis unfolding id lose_same [OF s2(2)] .
    qed
  qed
  with EvRead show ?thesis by simp
next
  case (EvWrite p)
  then have "s' = s \<or> (\<exists>K'. handleWrite K' (chess_user K ro n) p s = Inr s')"
    using r by (auto simp: chess_event_step_def split: if_splits)
  with EvWrite handleWrite_same [OF inv] lose_same show ?thesis by fastforce
next
  case EvTimeout
  then show ?thesis using OnTimeout_lose [OF inv chess_user_closes ro] r by (simp add: chess_event_step_def)
qed

text \<open>The entry of a connection, and no other entry for it, now or later.\<close>

definition tracked :: "nat \<Rightarrow> int \<Rightarrow> chess_world \<Rightarrow> bool" where
  "tracked q k s \<longleftrightarrow> (\<forall>j y. lose s j = Some (q, y) \<longrightarrow> j = k) \<and> (\<forall>p y. lose s k = Some (p, y) \<longrightarrow> p = q)
     \<and> conns s q \<noteq> None \<and> k \<le> sint (AtomicIDIncrease s)"

lemma tracked_start:
  assumes "chess_inv {} s" "ConnMap s k = Some cc" "ccConn cc = q"
  shows "tracked q k s"
proof -
  note f = chess_invD(1) [OF assms(1)]
  have one: "j = k" if "ConnMap s j = Some c" "ccConn c = q" for j c
    using conns_differ [OF f that(1) assms(2)] that(2) assms(3) by auto
  obtain tc where tc: "conns s q = Some tc" using entry_fineD [OF conns_fineD(7) [OF f assms(2)]] assms(3) by auto
  then have id: "k \<le> sint (AtomicIDIncrease s)"
    using conns_fineD(4) [OF f] conn_of_entry [OF f assms(2)] assms(3) unfolding conn_id_Inr conn_fine_def by blast
  have "j = k" if "lose s j = Some (q, y)" for j y
  proof -
    from that have "\<exists>c. ConnMap s j = Some c \<and> ccConn c = q" by (auto simp: lose_def)
    then show ?thesis using one by blast
  qed
  moreover have "p = q" if "lose s k = Some (p, y)" for p y using that assms(2,3) by (simp add: lose_def)
  ultimately show ?thesis using tc id unfolding tracked_def by blast
qed

lemma tracked_mono:
  assumes "tracked q k s" "conns s' q \<noteq> None" "sint (AtomicIDIncrease s) \<le> sint (AtomicIDIncrease s')"
    "\<And>j y. lose s' j = Some (q, y) \<Longrightarrow> \<exists>x. lose s j = Some (q, x)" "\<And>p y. lose s' k = Some (p, y) \<Longrightarrow> \<exists>x. lose s k = Some (p, x)"
  shows "tracked q k s'"
proof -
  have "k \<le> sint (AtomicIDIncrease s')" using assms(1,3) by (simp add: tracked_def)
  with assms(1,2,4,5) show ?thesis unfolding tracked_def by blast
qed

lemma tracked_event:
  assumes t: "tracked q k s" and inv: "chess_inv {} s" and w: "world_inv {} s" and K: "ctl_documented K" and ro: "range_documented ro"
    and id: "sint (AtomicIDIncrease s) < 2 ^ 31 - 1" and r: "chess_event_step K ro n e s = Inr s'" and e: "e \<noteq> EvRead q"
  shows "tracked q k s' \<and> lose s' k = (if e = EvTimeout then tick (lose s k) else lose s k)"
proof -
  note f = chess_invD(1) [OF inv]
  have c: "conns s' q \<noteq> None"
    using on_okD [OF chess_event_sound [OF K w] r] t unfolding sound_def evolves_def tracked_def by fastforce
  have le: "sint (AtomicIDIncrease s) \<le> sint (AtomicIDIncrease s')"
  proof (cases e)
    case (EvAccept g peer)
    then show ?thesis using accept_inv(2) [OF inv id] r sint_Suc [OF id] by (simp add: chess_event_step_def)
  next
    case (EvRead p)
    then show ?thesis using handleRead_inv [OF inv ro] r by (simp add: chess_event_step_def)
  next
    case (EvWrite p)
    then show ?thesis using handleWrite_inv [OF inv] r by (auto simp: chess_event_step_def split: if_splits)
  next
    case EvTimeout
    then show ?thesis using OnTimeout_inv [OF inv chess_user_closes] r by (simp add: chess_event_step_def)
  qed
  have new: "q \<noteq> nextConn s" "k \<noteq> sint (AtomicIDIncrease s) + 1" using conns_fineD(3) [OF f, of "nextConn s"] t unfolding tracked_def by auto
  have other: "j \<noteq> k" if p: "conn_id p s = Inr j" "p \<noteq> q" "lose s j = Some y" for p j y
  proof
    assume jk: "j = k"
    obtain cc where cc: "ConnMap s k = Some cc" using p(3) jk by (auto simp: lose_def)
    have "ccConn cc = q" using t cc by (simp add: tracked_def lose_def)
    moreover have "ccConn cc = p" using entry_of_conn [OF f] p(1) cc jk by blast
    ultimately show False using p(2) by simp
  qed
  note mono = tracked_mono [OF t c le]
  show ?thesis
  proof (cases e)
    case (EvAccept g peer)
    then have l: "lose s' = (lose s)(sint (AtomicIDIncrease s) + 1 \<mapsto> (nextConn s, 0))"
      using event_lose [OF inv ro id r] by simp
    have "tracked q k s'" by (rule mono) (use new in \<open>auto simp: l split: if_splits\<close>)
    then show ?thesis using EvAccept new(2) by (simp add: l)
  next
    case (EvRead p)
    then obtain j y where j: "conn_id p s = Inr j" and l: "lose s' = (lose s)(j := y)"
        and y: "y = lose s j \<or> y = None \<or> y = Some (p, 0) \<and> lose s j \<noteq> None"
      using event_lose [OF inv ro id r] by auto
    have ne: "p \<noteq> q" using e EvRead by simp
    have k: "lose s' k = lose s k"
    proof (cases "j = k")
      case True
      then have "lose s k = None" using other [OF j ne] by (cases "lose s k") auto
      with y True show ?thesis by (auto simp: l)
    qed (simp add: l)
    have "tracked q k s'"
    proof (rule mono)
      show "\<exists>x. lose s i = Some (q, x)" if "lose s' i = Some (q, z)" for i z
        using that y ne by (cases "i = j") (auto simp: l eq_commute [of "Some _" "lose _ _"])
      show "\<exists>x. lose s k = Some (p', x)" if "lose s' k = Some (p', z)" for p' z using that k by simp
    qed
    then show ?thesis using EvRead k by simp
  next
    case (EvWrite p)
    then have l: "lose s' = lose s" using event_lose [OF inv ro id r] by simp
    have "tracked q k s'" by (rule mono) (simp_all add: l)
    then show ?thesis using EvWrite by (simp add: l)
  next
    case EvTimeout
    then have l: "lose s' = (\<lambda>k. tick (lose s k))" using event_lose [OF inv ro id r] by simp
    have "\<exists>x. lose s j = Some (p, x)" if "lose s' j = Some (p, y)" for j p y
      using that by (auto simp: l tick_def split: option.splits if_splits)
    then have "tracked q k s'" by (intro mono) blast+
    then show ?thesis using EvTimeout by (simp add: l)
  qed
qed

text \<open>The counter after a run without a message on \<open>q\<close>.\<close>

lemma silent_run:
  assumes K: "ctl_documented K" "range_documented ro"
  shows "rfold (chess_event_step K ro n) evs s = Inr s' \<Longrightarrow> EvRead q \<notin> set evs \<Longrightarrow> chess_inv {} s \<Longrightarrow> world_inv {} s \<Longrightarrow>
    tracked q k s \<Longrightarrow> sint (AtomicIDIncrease s) + int (length evs) \<le> 2 ^ 31 - 1 \<Longrightarrow>
    chess_inv {} s' \<and> tracked q k s' \<and> lose s' k = (tick ^^ count_list evs EvTimeout) (lose s k)"
proof (induction evs arbitrary: s)
  case (Cons e evs)
  then obtain s1 where s1: "chess_event_step K ro n e s = Inr s1" "rfold (chess_event_step K ro n) evs s1 = Inr s'"
    by (auto simp: rbind_eq_Inr)
  have b: "sint (AtomicIDIncrease s) < 2 ^ 31 - 1" using Cons.prems(6) by simp
  have "e \<noteq> EvRead q" using Cons.prems(2) by auto
  note t = tracked_event [OF Cons.prems(5,3,4) K b s1(1) this]
  note i = chess_event_inv [OF Cons.prems(3) K(2) b s1(1)]
  have w: "world_inv {} s1" using on_okD [OF chess_event_sound [OF K(1) Cons.prems(4)] s1(1)] by (simp add: sound_def)
  have "chess_inv {} s' \<and> tracked q k s' \<and> lose s' k = (tick ^^ count_list evs EvTimeout) (lose s1 k)"
    using Cons.prems(2,6) i t by (intro Cons.IH [OF s1(2) _ _ w]) simp_all
  with t show ?case by (auto simp: funpow_swap1)
qed simp

lemma tick_run: "n < MaxLoseHeartbeat \<Longrightarrow>
  (tick ^^ m) (Some (q, n)) = (if n + int m < MaxLoseHeartbeat then Some (q, n + int m) else None)"
proof (induction m)
  case (Suc m)
  then show ?case by (auto simp: tick_def)
qed simp

section \<open>Properties\<close>

text \<open>C19. A silent client is dropped, and no other one for that reason. Take a state of the running server and a client whose counter is
  below the limit; let the server go on with any events but messages of that client. As long as the counter
  and the timeouts since add up to less than the limit, the client is connected and its counter is that sum; from then on its entry in
  \<^verbatim>\<open>ConnMap\<close> is gone and its connection is closed.\<close>

theorem silent_client_dropped:
  assumes "ctl_documented K" "range_documented ro" "chess_inv {} s" "world_inv {} s" "ConnMap s k = Some cc" "ccConn cc = q"
    "LoseHertbeatCount cc < MaxLoseHeartbeat" "sint (AtomicIDIncrease s) + int (length evs) \<le> 2 ^ 31 - 1"
    "EvRead q \<notin> set evs" "rfold (chess_event_step K ro n) evs s = Inr s'"
  shows "let m = LoseHertbeatCount cc + int (count_list evs EvTimeout)
    in if m < MaxLoseHeartbeat then map_option LoseHertbeatCount (ConnMap s' k) = Some m \<and> open_at q s'
       else ConnMap s' k = None \<and> \<not> open_at q s'"
proof -
  have "lose s k = Some (q, LoseHertbeatCount cc)" using assms(5,6) by (simp add: lose_def)
  with silent_run [OF assms(1,2,10,9,3,4) tracked_start [OF assms(3,5,6)] assms(8)] tick_run [OF assms(7)]
  have s': "chess_inv {} s'" "tracked q k s'" and l: "lose s' k = (let m = LoseHertbeatCount cc + int (count_list evs EvTimeout)
      in if m < MaxLoseHeartbeat then Some (q, m) else None)" by simp_all
  note f = chess_invD(1) [OF s'(1)]
  have "open_at q s' \<longleftrightarrow> lose s' k \<noteq> None"
  proof
    assume "open_at q s'"
    then obtain tc where "conns s' q = Some tc" "tstate tc = Connected" by (auto simp: open_at_def)
    then obtain j c where j: "ConnMap s' j = Some c" "ccConn c = q" using conns_fineD(6) [OF f] by blast
    then have "lose s' j = Some (q, LoseHertbeatCount c)" by (simp add: lose_def)
    moreover from this have "j = k" using s'(2) by (auto simp: tracked_def)
    ultimately show "lose s' k \<noteq> None" by simp
  next
    assume "lose s' k \<noteq> None"
    then obtain c where c: "ConnMap s' k = Some c" by (auto simp: lose_def)
    have "ccConn c = q" using s'(2) c by (simp add: tracked_def lose_def)
    then show "open_at q s'" using entry_fineD [OF conns_fineD(7) [OF f c]] by (auto simp: open_at_def)
  qed
  with l show ?thesis by (auto simp: Let_def lose_def split: if_splits)
qed

text \<open>Concrete run: a connection that has just arrived, after two timeouts.\<close>

theorem silent_client_dropped_witness:
  "\<exists>s s'. rfold (chess_event_step (sample_kernel []) sample_range 2) [EvTimeout, EvTimeout] s = Inr s'
     \<and> map_option LoseHertbeatCount (ConnMap s 1) = Some 0 \<and> map_option LoseHertbeatCount (ConnMap s' 1) = Some 2 \<and> open_at 0 s'"
proof -
  let ?K = "sample_kernel []"
  let ?step = "chess_event_step ?K sample_range (Suc (Suc 0))"
  let ?f = "DoPackWith4BytesHeader (Marshal_Heartbeat zero_header)"
  obtain b where b: "Append ?f NewBuffer = Inr b" "buf_inv b" "readIndex b = 0"
    by (rule Append_again [OF NewBuffer_inv]) (simp add: NewBuffer_def)
  obtain b2 where b2: "Append ?f b = Inr b2" by (rule Append_again [OF b(2,3)])
  note start = chess_event_step_def accept_conn_def newConnection_def alloc_chan_def Let_def
        setConnectedCallback_def setMessageCallback_def set_conn_def deref_conn_def upd_conn_def upd_chan_def
        RunInLoop_def run_functor_def run_conn_def establishConn_def UpdateChannel_def base_frame chess_sample_def
        channel_ops sample_kernel_def registered_def call_back_def OnConnect_def conn_SetContext_def SetDisConnectedCallback_def
        upd_cc_def OnTimeout_def sample_range_def beat_def send_packet_def Send_def send_in_loop_def default_callback_def
        WritableEvent_def ReadableEvent_def deref_cc_def MaxLoseHeartbeat_def
  have "case ?step (EvAccept 7 (0, 0)) chess_sample of Inl x \<Rightarrow> False | Inr s \<Rightarrow>
      AtomicIDIncrease s = 1 \<and> ConnMap s 1 = Some \<lparr>ccID = 1, LoseHertbeatCount = 0, ccConn = 0, ccState = ConnStateNone, Gcontext = None\<rparr>
      \<and> is_ok (rfold ?step [EvTimeout, EvTimeout] s)"
    by (simp add: start b(1) b2)
  then obtain s s' where s: "?step (EvAccept 7 (0, 0)) chess_sample = Inr s" "AtomicIDIncrease s = 1"
      "ConnMap s 1 = Some \<lparr>ccID = 1, LoseHertbeatCount = 0, ccConn = 0, ccState = ConnStateNone, Gcontext = None\<rparr>"
      and r: "rfold ?step [EvTimeout, EvTimeout] s = Inr s'"
    by (auto simp: is_ok_iff simp del: rfold.simps split: sum.splits)
  have "rfold ?step [EvAccept 7 (0, 0)] chess_sample = Inr s" using s(1) by simp
  from chess_events_inv [OF this chess_start_inv [OF chess_sample_inv(1)] chess_sample_inv(2) sample_range_documented sample_ctl]
  have i: "chess_inv {} s" "world_inv {} s" by (simp_all add: chess_sample_def)
  have "map_option LoseHertbeatCount (ConnMap s' 1) = Some 2 \<and> open_at 0 s'"
    using silent_client_dropped [OF sample_ctl sample_range_documented i s(3) _ _ _ _ r] s(2)
    by (simp add: MaxLoseHeartbeat_def)
  with s(3) r show ?thesis unfolding numeral_2_eq_2 by (intro exI [of _ s] exI [of _ s']) simp
qed

end
