(* ===== verification/Spec2Isabelle.thy ===== *)
theory Spec2Isabelle
  imports Buffer KV_Context Loop_Wakeup Wait_Forever Tcp_Server Echo Cond Async_Log Bench_Client Chess_Protocol Chess_Heartbeat
begin

text \<open>
  A verification of go-reactor, a TCP server library for Go built on epoll, one event loop per
  goroutine.

  \<^bold>\<open>The parts of the program.\<close>  A \<^emph>\<open>loop\<close> (pkg/event_loop/evloop.go) owns a
  \<^emph>\<open>poller\<close> (poller.go), the wrapper of one epoll instance, a \<^emph>\<open>timer queue\<close>
  (timer_queue.go), a binary heap behind one timerfd, and a list of \<^emph>\<open>functors\<close>, closures that
  any goroutine may append with RunInLoop and that the loop goroutine runs after each poll; an
  eventfd in the poller ends a blocking epoll_wait when a functor arrives.  A \<^emph>\<open>channel\<close>
  (channel.go) is a file descriptor with its event mask and its two callbacks.  A
  \<^emph>\<open>connection\<close> (tcp_conn.go, callbacks.go) is a channel with an input and an output
  \<^emph>\<open>buffer\<close> (pkg/buffer/buffer.go), a \<^emph>\<open>context\<close> for the user's values
  (pkg/context/context.go) and a state machine Connecting, Connected, Disconnecting, Disconnected.
  The \<^emph>\<open>server\<close> (tcp_server.go) runs an \<^emph>\<open>acceptor\<close> (tcp_acceptor.go) on its
  base loop and hands every accepted socket to one of the loops of a \<^emph>\<open>pool\<close>
  (eventloop_goroutine.go, eventloop_goroutine_poll.go), chosen by a \<^emph>\<open>load-balancing\<close>
  strategy (load_balance.go).  Two packages stand beside it: a broadcast \<^emph>\<open>condition\<close>
  (pkg/cond/cond.go) and an \<^emph>\<open>asynchronous logger\<close> (pkg/async_log/).  Three programs are built on
  the library: echo servers (examples/echo, benchmarks/goreactor-server), two that only run a loop
  (examples/timer, examples/wait_forever), and a game of Chinese chess (examples/chinese_chess), whose
  server keeps the board, the rules and the games in the callbacks of its connections and whose
  client is a select loop over a console, a ticker and a reader goroutine.  A load generator
  (benchmarks/echo-client) measures echo servers.

  \<^bold>\<open>Theories.\<close>
  \<^item> \<^verbatim>\<open>Prelude\<close>: the ways a Go call does not return (\<^verbatim>\<open>go_panic\<close>), the result type
    \<^verbatim>\<open>'a res = go_panic + 'a\<close> with its sequencing \<^verbatim>\<open>rbind\<close>, slices, copy and make with
    their bounds checks, and the fact collections of the development.
  \<^item> \<^verbatim>\<open>Buffer\<close> (buffer.go): the record has the fields of the struct; every slice
    expression of the code is checked and an index out of range is the panic \<^verbatim>\<open>SliceBounds\<close>.
    The locale \<^verbatim>\<open>byte_queue\<close> is the contract of a FIFO byte queue, interpreted on Append
    and Retrieve within the capacity; \<^verbatim>\<open>Append_every_branch\<close> is the exact behaviour outside
    it, where the growing branch misplaces bytes.
  \<^item> \<^verbatim>\<open>KV_Context\<close> (context.go): a last-writer-wins store, for every sequence of calls.
  \<^item> \<^verbatim>\<open>Kernel\<close>: the system calls.  Linux is a parameter: a record of answers that may
    depend on the history of the calls made so far, so that a theorem for all kernels covers every
    behaviour of the environment.  \<^verbatim>\<open>registered\<close> reads the epoll interest list off a
    history; \<^verbatim>\<open>ctl_documented\<close> and \<^verbatim>\<open>wait_documented\<close> state what epoll_ctl(2) and
    epoll_wait(2) document, \<^verbatim>\<open>write_documented\<close> and \<^verbatim>\<open>readv_documented\<close> that a successful
    write or read moves at most what it was given room for; both may fail at any time. The witnesses
    use the concrete \<^verbatim>\<open>sample_kernel\<close>.
  \<^item> \<^verbatim>\<open>Channel\<close> (channel.go): 64-bit event masks as words; toggles change exactly their bit.
  \<^item> \<^verbatim>\<open>Poller\<close> (poller.go): UpdateChannel and RemoveChannel keep the channel map, the
    channels' index and mask and the kernel's interest list in agreement; Poll retries an interrupted
    wait, delivers each event to its channel and doubles its array when it was filled.
  \<^item> \<^verbatim>\<open>Heap_Array\<close>: container/heap over an array (Push, Pop, up, down) and its laws;
    \<^verbatim>\<open>Timer_Queue\<close> (timer_queue.go): AddTimer, CancelTimer and getExpired.
  \<^item> \<^verbatim>\<open>Event_Loop\<close> (evloop.go, examples/timer/main.go): the loop as its own goroutine
    sees it; \<^verbatim>\<open>Loop_Wakeup\<close> the same code (RunInLoop, Loop) as atomic steps of any number of
    goroutines, as an inductive step relation, with the invariants of the wakeup protocol. There
    the calls of other goroutines fall between any two steps of a turn, and the calls of the loop's
    own goroutine, which run their functor at once, between any two but those around the wait.
  \<^item> \<^verbatim>\<open>Tcp_Conn\<close> (tcp_conn.go, callbacks.go): every method, handler and default callback of a
    connection.  A closure given to RunInLoop is the \<^verbatim>\<open>..._in_loop\<close> definition of its
    method; user callbacks are an arbitrary function on the whole state.
  \<^item> \<^verbatim>\<open>Load_Balance\<close> (load_balance.go): the locale \<^verbatim>\<open>balancer\<close> is what the
    pool relies on, interpreted on both strategies.
  \<^item> \<^verbatim>\<open>Tcp_Server\<close> (tcp_server.go, tcp_acceptor.go and the pool): construction, Start on
    every branch, dispatch of an accepted connection.
  \<^item> \<^verbatim>\<open>Wait_Forever\<close> (examples/wait_forever/main.go): a loop without work does not return.
  \<^item> \<^verbatim>\<open>Echo\<close> (examples/echo/main.go, benchmarks/goreactor-server/main.go): the locale
    \<^verbatim>\<open>echo_server\<close> is what makes a message callback an echo, interpreted on both servers; their
    output is exactly their input.
  \<^item> \<^verbatim>\<open>Bench_Client\<close> (benchmarks/echo-client/main.go): the load generator, with each
    goroutine's loop a function of what its connection answers and the collection of the counts a
    function of the order in which they arrive.
  \<^item> \<^verbatim>\<open>Cond\<close> (cond.go) and \<^verbatim>\<open>Async_Log\<close> (log.go, log_buffer.go): step relations
    over all interleavings; a released waiter; a log that hands every record to its file once and in
    order, and loses what a short or failed write of the file, whose result the code drops, did not take.
  \<^item> The chess example (examples/chinese_chess).  \<^verbatim>\<open>Chess_Frame\<close> (backend/tools/packet.go,
    frontend/tools/tools.go): frames with a four-byte length.  \<^verbatim>\<open>Chess_Board\<close>
    (backend/common_packets/chess.go, backend/tools/chess.go): tables and DoMove, equal to a
    declarative statement of the rules.  \<^verbatim>\<open>Json\<close>: the part of encoding/json the packets use, a
    lexer, a parser, a printer and decoders into structs.  \<^verbatim>\<open>Chess_Packets\<close>
    (common_packets/packet.go and parse.go; the frontend has copies in comm_packets): every packet,
    marshalled and parsed.  \<^verbatim>\<open>Chess_Handler\<close> (backend/game_handler/handler.go, backend/main.go):
    the four callbacks as functions on the world of the connection layer extended by ConnMap and the
    games.  \<^verbatim>\<open>Chess_Game\<close>: the invariant that ties connections, contexts and games together, and
    its preservation by each callback.  \<^verbatim>\<open>Chess_Server\<close>: the events of the server (a new
    connection, readable and writable sockets, ticks) and the invariant from its start.
    \<^verbatim>\<open>Chess_Client\<close> (frontend/main.go, frontend/tools/draw.go): one turn of the select loop for
    each of its cases, the drawing of a board, the reading of a typed move.  \<^verbatim>\<open>Chess_Session\<close>:
    whole runs of the client, as a protocol automaton on the packets it is sent.
    \<^verbatim>\<open>Chess_Play\<close>: what StartMatch and Move queue on each connection, on every branch.
    \<^verbatim>\<open>Chess_Protocol\<close>: server and client composed; the bytes the server writes to a connection, however
    they are cut, are packets the client's automaton accepts.
    \<^verbatim>\<open>Chess_Heartbeat\<close>: the heartbeat counters under every event, and the end of a silent client.

  \<^bold>\<open>State, errors, loops.\<close>  A struct is a record with the names of its fields; a pointer is an
  index into an explicit store where two owners share the object (channels in the poller, loops in
  the pool, log buffers), and a value otherwise.  A panic is an \<^verbatim>\<open>Inl\<close>, a returned
  error part of the result, so each early return of the source is a branch of the model.
  Loops over lists are structural recursion.  Three loops may run forever and are
  \<^verbatim>\<open>partial_function (option)\<close>: the retry of an interrupted epoll_wait
  (\<^verbatim>\<open>epoll_wait_loop\<close>), the expiry of periodic timers (\<^verbatim>\<open>expire_loop\<close>) and the turns of
  Loop (\<^verbatim>\<open>loop_while\<close>).  \<^verbatim>\<open>Poll_delivers\<close>, \<^verbatim>\<open>getExpired_fires_due\<close> and
  \<^verbatim>\<open>Stop_ends_turns\<close> prove that they return, with their result; \<^verbatim>\<open>Stop_ends_Loop\<close> is the end of
  Loop over all interleavings, with Stop called anywhere in a turn.  \<^verbatim>\<open>conn_reader\<close>, the reader goroutine of the chess
  client, ends because each packet uses up four bytes of the stream.  A callback may call a method
  that calls a callback again; \<^verbatim>\<open>chess_user n\<close> and \<^verbatim>\<open>echo_user n\<close> allow \<^verbatim>\<open>n\<close> levels and hang
  below.  \<^verbatim>\<open>chess_server_inv\<close> proves that two levels are enough for the chess server, the theorems on
  echo servers hold for every depth from one on.  The order in which Go ranges over a map is an
  argument (\<^verbatim>\<open>ro\<close>) that may depend on everything that happened before; which ready case a select takes is open, so a run of the client is any list of events.

  \<^bold>\<open>Where bytes go wrong.\<close>  Two paths of the code misplace bytes of a stream: a refused write, whose
  -1 moves the read index back, and an append that overflows a partly retrieved buffer.  The theorems on
  streams (\<^verbatim>\<open>output_stream_exact\<close>, \<^verbatim>\<open>echo_exact\<close>) hold up to the first such event and say what the
  stream is until then; \<^verbatim>\<open>write_error_panics\<close>, \<^verbatim>\<open>Append_every_branch\<close> and
  \<^verbatim>\<open>handleRead_every_branch\<close> say what happens at it.

  \<^bold>\<open>What is not modelled.\<close>  Goroutine identifiers come from a third-party package and are
  arguments.  The Go scheduler is the interleaving of the step relations.  time.Time is an integer of
  nanoseconds and the clock an argument.  Formatting of log records, address parsing and the errors of
  system calls the code turns into panics at start-up are arguments.
  A writable event of a connection that was closed earlier in its batch still runs the write callback, on the
  closed descriptor; the model takes the number not to have been reused in between.  The console package of the chess
  client is third-party: its calls are recorded, in order, and its constants are names.  Text is a list of
  code points on the screen and of bytes in packets; a JSON string keeps bytes outside ASCII as they
  are, and so do field names but for the two code points that fold to ASCII letters.  The frontend's copies
  of the packets and the board are the text of the backend's and are modelled once; its ClearPoint, which has a value
  receiver, is never called.  The evio, gev and netpoll servers of benchmarks/ are a few
  calls of third-party packages and are left out.
\<close>

end
